(* ===== verification/Prelude.thy ===== *)
theory Prelude
  imports Main "HOL-Library.Word" "HOL-Library.Sublist"
begin

text \<open>
  Shared vocabulary of the development: the machine integer types of the Rust sources, byte
  slices, little-endian fields, checked arithmetic and the result type. A \<open>u8\<close>,
  \<open>u16\<close>, \<open>u32\<close> or \<open>u64\<close> of the code is a word of that width. A \<open>usize\<close> and a
  file offset is a natural number; where the code uses a checked operation on one, the bound
  \<open>2 ^ 64\<close> is written out. A \<open>Result<T, E>\<close> is the sum \<open>'e + 'a\<close> with the error on the left.
  An error message is kept as its format string together with the numbers it prints.
\<close>

type_synonym u8 = "8 word"
type_synonym u16 = "16 word"
type_synonym u32 = "32 word"
type_synonym u64 = "64 word"
type_synonym bytes = "u8 list"

datatype reason = Reason string "nat list"

named_theorems byte_simps \<open>rules that evaluate reads of byte images built by writes\<close>
named_theorems io_simps \<open>unfolding rules of the file operations\<close>
named_theorems res_splits \<open>case rules for results\<close>

section \<open>Checked arithmetic\<close>

definition usize_max :: nat where
  "usize_max = 2 ^ 64 - 1"

definition checked_add_usize :: "nat \<Rightarrow> nat \<Rightarrow> nat option" where
  "checked_add_usize a b = (if a + b \<le> usize_max then Some (a + b) else None)"

definition checked_add_u64 :: "u64 \<Rightarrow> u64 \<Rightarrow> u64 option" where
  "checked_add_u64 a b = (if unat a + unat b < 2 ^ 64 then Some (a + b) else None)"

definition saturating_add_u64 :: "u64 \<Rightarrow> u64 \<Rightarrow> u64" where
  "saturating_add_u64 a b = (if unat a + unat b < 2 ^ 64 then a + b else - 1)"

lemma checked_add_u64_Some:
  "checked_add_u64 a b = Some c \<Longrightarrow> unat c = unat a + unat b"
  by (auto simp: checked_add_u64_def unat_word_ariths split: if_splits)

lemma checked_add_u64_less:
  "checked_add_u64 a 1 = Some c \<Longrightarrow> a < c"
  by (drule checked_add_u64_Some) (simp add: word_less_nat_alt)

lemma checked_add_usize_Some [simp]:
  "checked_add_usize a b = Some c \<longleftrightarrow> c = a + b \<and> a + b \<le> usize_max"
  by (auto simp: checked_add_usize_def)

lemma unat_u64_less: "unat (x :: u64) < 2 ^ 64"
  by (rule order.strict_trans2 [OF unsigned_less]) simp

lemma unat_u32_less: "unat (x :: u32) < 2 ^ 32"
  by (rule order.strict_trans2 [OF unsigned_less]) simp

lemma unat_u16_less: "unat (x :: u16) < 2 ^ 16"
  by (rule order.strict_trans2 [OF unsigned_less]) simp

lemma unat_u8_less: "unat (x :: u8) < 256"
  by (rule order.strict_trans2 [OF unsigned_less]) simp

section \<open>Slices\<close>

text \<open>
  \<open>slice xs i j\<close> is \<open>xs[i..j]\<close> and \<open>patch xs i ys\<close> is \<open>xs[i..i + n].copy_from_slice(ys)\<close>. Both are
  used only where the code has established that the range is inside the buffer; outside it
  Rust panics.
\<close>

definition slice :: "'a list \<Rightarrow> nat \<Rightarrow> nat \<Rightarrow> 'a list" where
  "slice xs i j = take (j - i) (drop i xs)"

definition patch :: "'a list \<Rightarrow> nat \<Rightarrow> 'a list \<Rightarrow> 'a list" where
  "patch xs off ys = take off xs @ ys @ drop (off + length ys) xs"

lemma length_slice [simp]: "j \<le> length xs \<Longrightarrow> length (slice xs i j) = j - i"
  by (simp add: slice_def)

lemma slice_Nil [simp]: "slice xs i i = []"
  by (simp add: slice_def)

lemma slice_full: "slice xs 0 (length xs) = xs"
  by (simp add: slice_def)

lemma nth_slice: "j \<le> length xs \<Longrightarrow> k < j - i \<Longrightarrow> slice xs i j ! k = xs ! (i + k)"
  by (simp add: slice_def)

lemma length_patch [simp]:
  "off + length ys \<le> length xs \<Longrightarrow> length (patch xs off ys) = length xs"
  by (simp add: patch_def)

lemma nth_patch:
  assumes "off + length ys \<le> length xs" "i < length xs"
  shows "patch xs off ys ! i =
    (if off \<le> i \<and> i < off + length ys then ys ! (i - off) else xs ! i)"
  using assms by (auto simp: patch_def nth_append)

lemma slice_patch_same:
  "off + length ys \<le> length xs \<Longrightarrow> j = off + length ys \<Longrightarrow> slice (patch xs off ys) off j = ys"
  by (simp add: patch_def slice_def)

lemma slice_patch_before:
  assumes "off + length ys \<le> length xs" "j \<le> off"
  shows "slice (patch xs off ys) i j = slice xs i j"
proof (rule nth_equalityI)
  show "length (slice (patch xs off ys) i j) = length (slice xs i j)"
    using assms by simp
  fix k assume "k < length (slice (patch xs off ys) i j)"
  then have k: "k < j - i" using assms by simp
  with assms have "\<not> off \<le> i + k" by simp
  with k show "slice (patch xs off ys) i j ! k = slice xs i j ! k"
    using assms by (simp add: nth_slice nth_patch)
qed

lemma slice_patch_after:
  assumes "off + length ys \<le> length xs" "off + length ys \<le> i" "j \<le> length xs"
  shows "slice (patch xs off ys) i j = slice xs i j"
proof (rule nth_equalityI)
  show "length (slice (patch xs off ys) i j) = length (slice xs i j)"
    using assms by simp
  fix k assume "k < length (slice (patch xs off ys) i j)"
  then have k: "k < j - i" using assms by simp
  then show "slice (patch xs off ys) i j ! k = slice xs i j ! k"
    using assms by (simp add: nth_slice nth_patch)
qed

lemma slice_replicate [simp]:
  "j \<le> n \<Longrightarrow> slice (replicate n x) i j = replicate (j - i) x"
  by (simp add: slice_def)

lemma slice_append_left [simp]:
  "j \<le> length xs \<Longrightarrow> slice (xs @ ys) i j = slice xs i j"
  by (cases "i \<le> length xs") (auto simp: slice_def)

lemma slice_append_right:
  "length xs \<le> i \<Longrightarrow> slice (xs @ ys) i j = slice ys (i - length xs) (j - length xs)"
  by (simp add: slice_def)

lemma slice_concat:
  assumes "i \<le> j" "j \<le> k" "k \<le> length xs"
  shows "slice xs i j @ slice xs j k = slice xs i k"
proof -
  have "k - i = (j - i) + (k - j)" "drop (j - i) (drop i xs) = drop j xs"
    using assms by auto
  then show ?thesis
    unfolding slice_def by (metis take_add)
qed

lemmas patch_simps [byte_simps] =
  slice_patch_same slice_patch_before slice_patch_after

section \<open>Little-endian fields\<close>

fun le_bytes :: "nat \<Rightarrow> nat \<Rightarrow> bytes" where
  "le_bytes 0 v = []"
| "le_bytes (Suc n) v = word_of_nat (v mod 256) # le_bytes n (v div 256)"

fun le_nat :: "bytes \<Rightarrow> nat" where
  "le_nat [] = 0"
| "le_nat (b # bs) = unat b + 256 * le_nat bs"

lemma length_le_bytes [simp]: "length (le_bytes n v) = n"
  by (induction n arbitrary: v) auto

lemma unat_byte_mod: "unat (word_of_nat (v mod 256) :: u8) = v mod 256"
  by (simp add: unat_of_nat)

lemma le_nat_le_bytes [simp]: "le_nat (le_bytes n v) = v mod 256 ^ n"
proof (induction n arbitrary: v)
  case (Suc n)
  have "v mod 256 ^ Suc n = v mod 256 + 256 * (v div 256 mod 256 ^ n)"
    by (simp add: mod_mult2_eq)
  with Suc show ?case by (simp add: unat_byte_mod)
qed simp

lemma le_nat_bound: "le_nat bs < 256 ^ length bs"
proof (induction bs)
  case (Cons b bs)
  have "unat b + 256 * le_nat bs < 256 + 256 * le_nat bs"
    using unat_u8_less [of b] by simp
  also have "\<dots> \<le> 256 * 256 ^ length bs"
    using Cons.IH by simp
  finally show ?case by simp
qed simp

lemma le_bytes_le_nat: "length bs = n \<Longrightarrow> le_bytes n (le_nat bs) = bs"
proof (induction bs arbitrary: n)
  case (Cons b bs)
  have "(unat b + 256 * le_nat bs) mod 256 = unat b"
    using unat_u8_less [of b] by simp
  moreover have "(unat b + 256 * le_nat bs) div 256 = le_nat bs"
    using unat_u8_less [of b] by simp
  ultimately show ?case using Cons by (cases n) simp_all
qed simp

definition le_u16 :: "u16 \<Rightarrow> bytes" where "le_u16 w = le_bytes 2 (unat w)"
definition le_u32 :: "u32 \<Rightarrow> bytes" where "le_u32 w = le_bytes 4 (unat w)"
definition le_u64 :: "u64 \<Rightarrow> bytes" where "le_u64 w = le_bytes 8 (unat w)"

lemma length_le_u [simp]:
  "length (le_u16 a) = 2" "length (le_u32 b) = 4" "length (le_u64 c) = 8"
  by (simp_all add: le_u16_def le_u32_def le_u64_def)

definition of_le_u16 :: "bytes \<Rightarrow> u16" where "of_le_u16 bs = word_of_nat (le_nat bs)"
definition of_le_u32 :: "bytes \<Rightarrow> u32" where "of_le_u32 bs = word_of_nat (le_nat bs)"
definition of_le_u64 :: "bytes \<Rightarrow> u64" where "of_le_u64 bs = word_of_nat (le_nat bs)"

lemma of_le_u16_le [simp]: "of_le_u16 (le_u16 w) = w"
  using unat_u16_less [of w] by (simp add: of_le_u16_def le_u16_def)

lemma of_le_u32_le [simp]: "of_le_u32 (le_u32 w) = w"
  using unat_u32_less [of w] by (simp add: of_le_u32_def le_u32_def)

lemma of_le_u64_le [simp]: "of_le_u64 (le_u64 w) = w"
  using unat_u64_less [of w] by (simp add: of_le_u64_def le_u64_def)

lemma le_u32_of_le: "length bs = 4 \<Longrightarrow> le_u32 (of_le_u32 bs) = bs"
  using le_nat_bound [of bs]
  by (simp add: le_u32_def of_le_u32_def unat_of_nat le_bytes_le_nat)

lemma le_u64_of_le: "length bs = 8 \<Longrightarrow> le_u64 (of_le_u64 bs) = bs"
  using le_nat_bound [of bs]
  by (simp add: le_u64_def of_le_u64_def unat_of_nat le_bytes_le_nat)

lemma of_le_u32_inj:
  "length a = 4 \<Longrightarrow> length b = 4 \<Longrightarrow> of_le_u32 a = of_le_u32 b \<longleftrightarrow> a = b"
  by (metis le_u32_of_le)

lemma unat_word_of_nat_u32: "n < 2 ^ 32 \<Longrightarrow> unat (word_of_nat n :: u32) = n"
  by (simp add: unat_of_nat)

lemma unat_word_of_nat_u64: "n < 2 ^ 64 \<Longrightarrow> unat (word_of_nat n :: u64) = n"
  by (simp add: unat_of_nat)

section \<open>Results\<close>

definition is_ok :: "'e + 'a \<Rightarrow> bool" where
  "is_ok r = (case r of Inl _ \<Rightarrow> False | Inr _ \<Rightarrow> True)"

lemma is_ok_simps [simp]: "is_ok (Inr x)" "\<not> is_ok (Inl e)"
  by (simp_all add: is_ok_def)

lemma is_ok_iff: "is_ok r \<longleftrightarrow> (\<exists>x. r = Inr x)"
  by (cases r) auto

text \<open>
  A method \<open>fn m(&mut self) -> Result<T>\<close> is a function from the state to a result and the state it
  leaves, also when it fails. \<open>try_then\<close> is the sequencing of such steps by Rust's \<open>?\<close> operator.
\<close>

definition try_then :: "('e + 'a) \<times> 's \<Rightarrow> ('a \<Rightarrow> 's \<Rightarrow> ('e + 'b) \<times> 's) \<Rightarrow> ('e + 'b) \<times> 's" where
  "try_then m k = (case m of (Inl e, s) \<Rightarrow> (Inl e, s) | (Inr a, s) \<Rightarrow> k a s)"

lemma try_then_simps [simp]:
  "try_then (Inl e, s) k = (Inl e, s)"
  "try_then (Inr a, s) k = k a s"
  by (simp_all add: try_then_def)

lemma try_then_okE:
  assumes "try_then m k = (Inr b, s')"
  obtains a s where "m = (Inr a, s)" "k a s = (Inr b, s')"
  using assms by (cases m; cases "fst m") auto

text \<open>\<open>rposition\<close> is \<open>Iterator::rposition\<close>: the index of the last element that satisfies the predicate.\<close>

fun rposition :: "('a \<Rightarrow> bool) \<Rightarrow> 'a list \<Rightarrow> nat option" where
  "rposition P [] = None"
| "rposition P (x # xs) =
    (case rposition P xs of Some i \<Rightarrow> Some (Suc i) | None \<Rightarrow> if P x then Some 0 else None)"

lemma rposition_None: "rposition P xs = None \<longleftrightarrow> (\<forall>x\<in>set xs. \<not> P x)"
  by (induction xs) (auto split: option.splits)

lemma rposition_Some:
  "rposition P xs = Some i \<Longrightarrow> i < length xs \<and> P (xs ! i) \<and> (\<forall>x\<in>set (drop (Suc i) xs). \<not> P x)"
  by (induction xs arbitrary: i) (auto split: option.splits if_splits simp: rposition_None)

lemma rposition_append:
  "rposition P (xs @ ys) =
    (case rposition P ys of Some i \<Rightarrow> Some (length xs + i) | None \<Rightarrow> rposition P xs)"
  by (induction xs) (auto split: option.splits)

section \<open>The codec interface\<close>

text \<open>
  Every on-disk value of the system has an encoder and a decoder with the same contract: a
  value inside the format's limits decodes to itself.
\<close>

locale codec =
  fixes enc :: "'a \<Rightarrow> 'c" and dec :: "'c \<Rightarrow> 'e + 'a" and ok :: "'a \<Rightarrow> bool"
  assumes roundtrip: "ok x \<Longrightarrow> dec (enc x) = Inr x"
begin

lemma enc_inj: "ok x \<Longrightarrow> ok y \<Longrightarrow> enc x = enc y \<Longrightarrow> x = y"
  by (metis roundtrip Inr_inject)

lemma enc_inj_on: "inj_on enc {x. ok x}"
  by (auto simp: inj_on_def intro: enc_inj)

lemma dec_total_on_image: "ok x \<Longrightarrow> is_ok (dec (enc x))"
  by (simp add: roundtrip)

end

end
