(* ===== verification/Page.thy ===== *)
theory Page
  imports Prelude
begin

text \<open>
  Model of \<open>storage/src/error.rs\<close> and \<open>storage/src/page.rs\<close>: the storage errors, the fixed-size
  page image and its checksummed encoding. The CRC-32 of the \<open>crc32fast\<close> crate is a parameter
  \<open>crc\<close> of the definitions: feeding a hasher several buffers and finalising it is \<open>crc\<close> of
  their concatenation.
\<close>

section \<open>Errors\<close>

datatype storage_error =
    Io
  | PageTooLarge nat nat
  | InvalidPageLength nat nat
  | CorruptPage u64 reason
  | CorruptDataFile reason
  | CorruptWal nat reason
  | PageNotFound u64
  | BufferPoolExhausted nat
  | AlreadyOpen string
  | Configuration reason
  | CommitCoordinatorStopped
  | GroupCommit reason
  | Poisoned

section \<open>Byte fields\<close>

definition write_u16 :: "bytes \<Rightarrow> nat \<Rightarrow> u16 \<Rightarrow> bytes" where
  "write_u16 bs offset value = patch bs offset (le_u16 value)"

definition write_u32 :: "bytes \<Rightarrow> nat \<Rightarrow> u32 \<Rightarrow> bytes" where
  "write_u32 bs offset value = patch bs offset (le_u32 value)"

definition write_u64 :: "bytes \<Rightarrow> nat \<Rightarrow> u64 \<Rightarrow> bytes" where
  "write_u64 bs offset value = patch bs offset (le_u64 value)"

definition read_u16 :: "bytes \<Rightarrow> nat \<Rightarrow> u16" where
  "read_u16 bs offset = of_le_u16 (slice bs offset (offset + 2))"

definition read_u32 :: "bytes \<Rightarrow> nat \<Rightarrow> u32" where
  "read_u32 bs offset = of_le_u32 (slice bs offset (offset + 4))"

definition read_u64 :: "bytes \<Rightarrow> nat \<Rightarrow> u64" where
  "read_u64 bs offset = of_le_u64 (slice bs offset (offset + 8))"

lemmas field_defs [byte_simps] =
  write_u16_def write_u32_def write_u64_def read_u16_def read_u32_def read_u64_def

lemma length_write [simp]:
  "offset + 2 \<le> length bs \<Longrightarrow> length (write_u16 bs offset a) = length bs"
  "offset + 4 \<le> length bs \<Longrightarrow> length (write_u32 bs offset b) = length bs"
  "offset + 8 \<le> length bs \<Longrightarrow> length (write_u64 bs offset c) = length bs"
  by (simp_all add: field_defs)

section \<open>Pages\<close>

definition PAGE_SIZE :: nat where "PAGE_SIZE = 8 * 1024"
definition PAGE_HEADER_SIZE :: nat where "PAGE_HEADER_SIZE = 64"
definition MAX_PAGE_PAYLOAD :: nat where "MAX_PAGE_PAYLOAD = PAGE_SIZE - PAGE_HEADER_SIZE"
definition PAGE_MAGIC :: bytes where "PAGE_MAGIC = [0x51, 0x4E, 0x50, 0x47]"
definition PAGE_FORMAT_VERSION :: u16 where "PAGE_FORMAT_VERSION = 1"
definition MAGIC_OFFSET :: nat where "MAGIC_OFFSET = 0"
definition VERSION_OFFSET :: nat where "VERSION_OFFSET = 4"
definition PAGE_ID_OFFSET :: nat where "PAGE_ID_OFFSET = 8"
definition LSN_OFFSET :: nat where "LSN_OFFSET = 16"
definition PAYLOAD_LENGTH_OFFSET :: nat where "PAYLOAD_LENGTH_OFFSET = 24"
definition PAGE_CHECKSUM_OFFSET :: nat where "PAGE_CHECKSUM_OFFSET = 28"

lemmas page_consts [byte_simps] =
  PAGE_SIZE_def PAGE_HEADER_SIZE_def MAX_PAGE_PAYLOAD_def PAGE_MAGIC_def
  PAGE_FORMAT_VERSION_def MAGIC_OFFSET_def VERSION_OFFSET_def PAGE_ID_OFFSET_def
  LSN_OFFSET_def PAYLOAD_LENGTH_OFFSET_def PAGE_CHECKSUM_OFFSET_def

record page =
  page_id :: u64
  page_lsn :: u64
  page_payload :: bytes

definition page_with_lsn :: "u64 \<Rightarrow> u64 \<Rightarrow> bytes \<Rightarrow> storage_error + page" where
  "page_with_lsn pid lsn payload =
    (if length payload > MAX_PAGE_PAYLOAD
     then Inl (PageTooLarge (length payload) MAX_PAGE_PAYLOAD)
     else Inr \<lparr>page_id = pid, page_lsn = lsn, page_payload = payload\<rparr>)"

definition page_new :: "u64 \<Rightarrow> bytes \<Rightarrow> storage_error + page" where
  "page_new pid payload = page_with_lsn pid 0 payload"

definition checksum_with_zeroed_field :: "(bytes \<Rightarrow> u32) \<Rightarrow> bytes \<Rightarrow> u32" where
  "checksum_with_zeroed_field crc bs =
     crc (slice bs 0 PAGE_CHECKSUM_OFFSET @ replicate 4 0 @
          slice bs (PAGE_CHECKSUM_OFFSET + 4) (length bs))"

definition page_encode :: "(bytes \<Rightarrow> u32) \<Rightarrow> page \<Rightarrow> bytes" where
  "page_encode crc p =
    (let bs = replicate PAGE_SIZE 0;
         bs = patch bs MAGIC_OFFSET PAGE_MAGIC;
         bs = write_u16 bs VERSION_OFFSET PAGE_FORMAT_VERSION;
         bs = write_u64 bs PAGE_ID_OFFSET (page_id p);
         bs = write_u64 bs LSN_OFFSET (page_lsn p);
         bs = write_u32 bs PAYLOAD_LENGTH_OFFSET (word_of_nat (length (page_payload p)));
         bs = patch bs PAGE_HEADER_SIZE (page_payload p)
     in write_u32 bs PAGE_CHECKSUM_OFFSET (checksum_with_zeroed_field crc bs))"

definition page_decode :: "(bytes \<Rightarrow> u32) \<Rightarrow> bytes \<Rightarrow> storage_error + page" where
  "page_decode crc bs =
    (if length bs \<noteq> PAGE_SIZE then Inl (InvalidPageLength (length bs) PAGE_SIZE)
     else
       let pid = read_u64 bs PAGE_ID_OFFSET in
       if slice bs MAGIC_OFFSET (MAGIC_OFFSET + 4) \<noteq> PAGE_MAGIC
       then Inl (CorruptPage pid (Reason ''invalid page magic'' []))
       else let version = read_u16 bs VERSION_OFFSET in
       if version \<noteq> PAGE_FORMAT_VERSION
       then Inl (CorruptPage pid (Reason ''unsupported page format version {version}'' [unat version]))
       else let expected = read_u32 bs PAGE_CHECKSUM_OFFSET;
                actual = checksum_with_zeroed_field crc bs in
       if expected \<noteq> actual
       then Inl (CorruptPage pid (Reason ''checksum mismatch: stored {expected}, computed {actual}''
              [unat expected, unat actual]))
       else let payload_length = unat (read_u32 bs PAYLOAD_LENGTH_OFFSET) in
       if payload_length > MAX_PAGE_PAYLOAD
       then Inl (CorruptPage pid (Reason ''payload length {payload_length} exceeds page capacity''
              [payload_length]))
       else Inr \<lparr>page_id = pid, page_lsn = read_u64 bs LSN_OFFSET,
                 page_payload = slice bs PAGE_HEADER_SIZE (PAGE_HEADER_SIZE + payload_length)\<rparr>)"

definition page_wf :: "page \<Rightarrow> bool" where
  "page_wf p \<longleftrightarrow> length (page_payload p) \<le> MAX_PAGE_PAYLOAD"

lemma page_with_lsn_wf: "page_with_lsn pid lsn payload = Inr p \<Longrightarrow> page_wf p"
  by (auto simp: page_with_lsn_def page_wf_def split: if_splits)

lemma page_with_lsn_Inr_iff:
  "page_with_lsn pid lsn payload = Inr p \<longleftrightarrow>
    length payload \<le> MAX_PAGE_PAYLOAD \<and> p = \<lparr>page_id = pid, page_lsn = lsn, page_payload = payload\<rparr>"
  by (auto simp: page_with_lsn_def)

text \<open>The image before its checksum is filled in, and the fields read back from it.\<close>

definition page_image :: "page \<Rightarrow> bytes" where
  "page_image p =
    patch (write_u32 (write_u64 (write_u64 (write_u16 (patch (replicate PAGE_SIZE 0)
      MAGIC_OFFSET PAGE_MAGIC) VERSION_OFFSET PAGE_FORMAT_VERSION) PAGE_ID_OFFSET (page_id p))
      LSN_OFFSET (page_lsn p)) PAYLOAD_LENGTH_OFFSET (word_of_nat (length (page_payload p))))
      PAGE_HEADER_SIZE (page_payload p)"

lemma page_encode_image:
  "page_encode crc p =
    write_u32 (page_image p) PAGE_CHECKSUM_OFFSET (checksum_with_zeroed_field crc (page_image p))"
  by (simp add: page_encode_def page_image_def Let_def)

lemma length_page_image: "page_wf p \<Longrightarrow> length (page_image p) = PAGE_SIZE"
  by (simp add: page_image_def page_wf_def byte_simps)

lemma length_page_encode: "page_wf p \<Longrightarrow> length (page_encode crc p) = PAGE_SIZE"
  by (simp add: page_encode_image length_page_image byte_simps)

lemma page_image_fields:
  assumes "page_wf p"
  shows "slice (page_image p) 0 4 = PAGE_MAGIC"
    and "slice (page_image p) 4 6 = le_u16 PAGE_FORMAT_VERSION"
    and "slice (page_image p) 8 16 = le_u64 (page_id p)"
    and "slice (page_image p) 16 24 = le_u64 (page_lsn p)"
    and "slice (page_image p) 24 28 = le_u32 (word_of_nat (length (page_payload p)))"
    and "slice (page_image p) 64 (64 + length (page_payload p)) = page_payload p"
  using assms by (simp_all add: page_image_def page_wf_def byte_simps)

lemma checksum_ignores_field:
  "length bs = PAGE_SIZE \<Longrightarrow> length v = 4 \<Longrightarrow>
    checksum_with_zeroed_field crc (patch bs PAGE_CHECKSUM_OFFSET v) =
    checksum_with_zeroed_field crc bs"
  by (simp add: checksum_with_zeroed_field_def byte_simps)

lemma page_roundtrip:
  assumes "page_wf p"
  shows "page_decode crc (page_encode crc p) = Inr p"
proof -
  let ?im = "page_image p" and ?c = "checksum_with_zeroed_field crc (page_image p)"
  let ?e = "patch ?im 28 (le_u32 ?c)"
  have len: "length ?im = 8192"
    using length_page_image [OF assms] by (simp add: PAGE_SIZE_def)
  have e: "page_encode crc p = ?e"
    by (simp add: page_encode_image write_u32_def PAGE_CHECKSUM_OFFSET_def)
  have sum: "checksum_with_zeroed_field crc ?e = ?c"
    using checksum_ignores_field [of ?im "le_u32 ?c" crc] len
    by (simp add: PAGE_SIZE_def PAGE_CHECKSUM_OFFSET_def)
  have small: "length (page_payload p) \<le> 8128"
    using assms by (simp add: page_wf_def byte_simps)
  then have pl: "unat (word_of_nat (length (page_payload p)) :: u32) = length (page_payload p)"
    by (simp add: unat_word_of_nat_u32)
  show ?thesis
    unfolding e page_decode_def
    using len sum small pl page_image_fields [OF assms]
    by (simp add: Let_def page_consts slice_patch_same slice_patch_before slice_patch_after
        read_u16_def read_u32_def read_u64_def)
qed

interpretation page_codec: codec "page_encode crc" "page_decode crc" page_wf for crc
  by unfold_locales (rule page_roundtrip)

lemma page_decode_accepts:
  "is_ok (page_decode crc bs) \<longleftrightarrow>
    length bs = PAGE_SIZE \<and> slice bs 0 4 = PAGE_MAGIC \<and> read_u16 bs VERSION_OFFSET = 1 \<and>
    read_u32 bs PAGE_CHECKSUM_OFFSET = checksum_with_zeroed_field crc bs \<and>
    unat (read_u32 bs PAYLOAD_LENGTH_OFFSET) \<le> MAX_PAGE_PAYLOAD"
  by (auto simp: page_decode_def Let_def MAGIC_OFFSET_def PAGE_FORMAT_VERSION_def)

lemma page_decode_wf: "page_decode crc bs = Inr p \<Longrightarrow> page_wf p"
  by (auto simp: page_decode_def Let_def page_wf_def byte_simps split: if_splits)

section \<open>Corruption is detected\<close>

text \<open>
  The guarantee the code takes from CRC-32: replacing one byte of the input by another changes
  the checksum (CRC-32 detects every burst of at most 32 bits).
\<close>

definition crc_detects_byte :: "(bytes \<Rightarrow> u32) \<Rightarrow> bool" where
  "crc_detects_byte crc \<longleftrightarrow>
    (\<forall>xs i b. i < length xs \<longrightarrow> b \<noteq> xs ! i \<longrightarrow> crc (xs[i := b]) \<noteq> crc xs)"

lemma zeroed_field_patch:
  "length bs = PAGE_SIZE \<Longrightarrow>
    checksum_with_zeroed_field crc bs = crc (patch bs PAGE_CHECKSUM_OFFSET (replicate 4 0))"
  by (simp add: checksum_with_zeroed_field_def patch_def slice_def byte_simps)

lemma patch_update_commute:
  assumes "off + length ys \<le> length xs" "i < length xs" "\<not> (off \<le> i \<and> i < off + length ys)"
  shows "patch (xs[i := b]) off ys = (patch xs off ys)[i := b]"
  using assms by (auto intro!: nth_equalityI simp: nth_patch nth_list_update)

lemma patch_update_absorb:
  assumes "off + length ys \<le> length xs" "off \<le> i" "i < off + length ys"
  shows "patch (xs[i := b]) off ys = patch xs off ys"
  using assms by (auto intro!: nth_equalityI simp: nth_patch nth_list_update)

lemma slice_update_outside:
  assumes "j \<le> length xs" "i < k \<or> j \<le> i"
  shows "slice (xs[i := b]) k j = slice xs k j"
  using assms by (auto intro!: nth_equalityI simp: nth_slice nth_list_update)

lemma page_decode_checksum_mismatch:
  assumes "length bs = PAGE_SIZE"
    and "read_u32 bs PAGE_CHECKSUM_OFFSET \<noteq> checksum_with_zeroed_field crc bs"
  shows "\<exists>pid r. page_decode crc bs = Inl (CorruptPage pid r)"
  using assms by (auto simp: page_decode_def Let_def)

lemma page_encode_checksum:
  assumes "page_wf p"
  shows "read_u32 (page_encode crc p) PAGE_CHECKSUM_OFFSET =
    checksum_with_zeroed_field crc (page_encode crc p)"
  using page_decode_accepts [of crc "page_encode crc p"] page_roundtrip [OF assms, of crc]
  by simp

lemma page_corruption_detected_aux:
  assumes crc: "crc_detects_byte crc" and wf: "page_wf p"
    and i: "i < PAGE_SIZE" and b: "b \<noteq> page_encode crc p ! i"
  shows "read_u32 ((page_encode crc p)[i := b]) PAGE_CHECKSUM_OFFSET \<noteq>
    checksum_with_zeroed_field crc ((page_encode crc p)[i := b])"
proof -
  let ?e = "page_encode crc p"
  have len: "length ?e = 8192"
    using length_page_encode [OF wf] by (simp add: PAGE_SIZE_def)
  note stored = page_encode_checksum [OF wf, of crc]
  show ?thesis
  proof (cases "28 \<le> i \<and> i < 32")
    case True
    then have sum: "checksum_with_zeroed_field crc (?e[i := b]) = checksum_with_zeroed_field crc ?e"
      using len by (simp add: zeroed_field_patch patch_update_absorb byte_simps)
    obtain k where k: "i = 28 + k" "k < 4"
      using True that [of "i - 28"] by auto
    have "slice (?e[i := b]) 28 32 ! k \<noteq> slice ?e 28 32 ! k"
      using k len b by (simp add: nth_slice)
    then have "slice (?e[i := b]) 28 32 \<noteq> slice ?e 28 32" by metis
    then have "of_le_u32 (slice (?e[i := b]) 28 32) \<noteq> of_le_u32 (slice ?e 28 32)"
      using len by (simp add: of_le_u32_inj)
    with stored sum show ?thesis by (simp add: read_u32_def page_consts)
  next
    case False
    let ?z = "patch ?e 28 (replicate 4 0)"
    have "patch (?e[i := b]) 28 (replicate 4 0) = ?z[i := b]"
      using False len i by (simp add: patch_update_commute byte_simps)
    moreover have "?z ! i \<noteq> b" "i < length ?z"
      using False len i b by (auto simp: nth_patch page_consts)
    ultimately have "crc (patch (?e[i := b]) 28 (replicate 4 0)) \<noteq> crc ?z"
      using crc by (auto simp: crc_detects_byte_def)
    moreover have "read_u32 (?e[i := b]) 28 = read_u32 ?e 28"
      using False len by (auto simp: read_u32_def slice_update_outside)
    ultimately show ?thesis
      using stored len by (simp add: zeroed_field_patch page_consts)
  qed
qed

section \<open>Properties\<close>

text \<open>A concrete checksum for the witnesses: the sum of the bytes.\<close>

definition byte_sum :: "bytes \<Rightarrow> u32" where
  "byte_sum bs = (\<Sum>b\<leftarrow>bs. ucast b)"

lemma ucast_u8_u32_inj: "(ucast a :: u32) = ucast b \<longleftrightarrow> a = (b :: u8)"
  by transfer (simp add: take_bit_eq_mod)

lemma byte_sum_update:
  "i < length xs \<Longrightarrow> byte_sum (xs[i := b]) = byte_sum xs - ucast (xs ! i) + ucast b"
  by (induction xs arbitrary: i) (auto simp: byte_sum_def algebra_simps split: nat.splits)

lemma byte_sum_detects: "crc_detects_byte byte_sum"
  by (auto simp: crc_detects_byte_def byte_sum_update ucast_u8_u32_inj algebra_simps)

text \<open>C13: encoding a page and decoding the image gives the page back, whatever the checksum
  function, and the image is exactly one page long.\<close>

theorem page_encode_decode:
  assumes "page_wf p"
  shows "page_decode crc (page_encode crc p) = Inr p \<and> length (page_encode crc p) = PAGE_SIZE"
  using page_codec.roundtrip [OF assms] length_page_encode [OF assms] by simp

theorem page_encode_decode_witness:
  "page_decode byte_sum (page_encode byte_sum \<lparr>page_id = 7, page_lsn = 3, page_payload = [1, 2, 3]\<rparr>) =
    Inr \<lparr>page_id = 7, page_lsn = 3, page_payload = [1, 2, 3]\<rparr>"
  using page_encode_decode [of "\<lparr>page_id = 7, page_lsn = 3, page_payload = [1, 2, 3]\<rparr>" byte_sum]
  by (simp add: page_wf_def page_consts)

text \<open>C14: a page image in which any one byte has been changed, in the header, the checksum field,
  the payload or the padding, is refused as a corrupt page, provided the checksum function
  tells apart inputs that differ in one byte.\<close>

theorem page_corruption_detected:
  assumes "crc_detects_byte crc" "page_wf p" "i < PAGE_SIZE" "b \<noteq> page_encode crc p ! i"
  shows "\<exists>pid r. page_decode crc ((page_encode crc p)[i := b]) = Inl (CorruptPage pid r)"
  using page_corruption_detected_aux [OF assms] length_page_encode [OF assms(2)]
  by (intro page_decode_checksum_mismatch) simp_all

lemma page_encode_byte0: "page_wf p \<Longrightarrow> page_encode crc p ! 0 = 0x51"
proof -
  assume wf: "page_wf p"
  have "slice (page_encode crc p) 0 4 ! 0 = PAGE_MAGIC ! 0"
    using page_decode_accepts [of crc "page_encode crc p"] page_roundtrip [OF wf, of crc] by simp
  then show ?thesis
    using length_page_encode [OF wf, of crc] by (simp add: nth_slice page_consts)
qed

theorem page_corruption_detected_witness:
  "\<exists>pid r. page_decode byte_sum
    ((page_encode byte_sum \<lparr>page_id = 7, page_lsn = 3, page_payload = [1]\<rparr>)[0 := 2]) =
      Inl (CorruptPage pid r)"
  by (rule page_corruption_detected)
    (simp_all add: byte_sum_detects page_wf_def page_encode_byte0 page_consts)

end
