(* ===== verification/Os_File.thy ===== *)
theory Os_File
  imports Page
begin

text \<open>
  The file of the Rust standard library as far as the storage code uses it: positional reads and
  writes, \<open>set_len\<close>, \<open>metadata().len()\<close>, \<open>sync_data\<close> and \<open>sync_all\<close>. A file is its length and its
  bytes. Offsets written since the last successful sync are remembered, because after a crash
  exactly those bytes can hold anything. The operating system decides which writes, resizes and
  syncs fail: the list \<open>outcomes\<close> is that script, one entry per such call, and an empty script
  succeeds for ever. A failing write may have transferred a prefix of its buffer. Reads and
  length queries are taken to succeed.
\<close>

datatype io_outcome = Io_done | Io_failed nat

record os_file =
  fdata :: "nat \<Rightarrow> u8"
  flen :: nat
  unsynced :: "nat set"
  synced_len :: nat
  outcomes :: "io_outcome list"

definition next_outcome :: "os_file \<Rightarrow> io_outcome" where
  "next_outcome f = (case outcomes f of [] \<Rightarrow> Io_done | x # _ \<Rightarrow> x)"

definition drop_outcome :: "os_file \<Rightarrow> os_file" where
  "drop_outcome f = f\<lparr>outcomes := tl (outcomes f)\<rparr>"

definition file_put :: "os_file \<Rightarrow> bytes \<Rightarrow> nat \<Rightarrow> os_file" where
  "file_put f buf off = f\<lparr>
     fdata := (\<lambda>i. if off \<le> i \<and> i < off + length buf then buf ! (i - off)
                   else if i < flen f then fdata f i else 0),
     flen := (if buf = [] then flen f else max (flen f) (off + length buf)),
     unsynced := unsynced f \<union> {off..<off + length buf}\<rparr>"

definition write_all_at :: "os_file \<Rightarrow> bytes \<Rightarrow> nat \<Rightarrow> (storage_error + unit) \<times> os_file" where
  "write_all_at f buf off =
    (case next_outcome f of
       Io_done \<Rightarrow> (Inr (), file_put (drop_outcome f) buf off)
     | Io_failed n \<Rightarrow> (Inl Io, file_put (drop_outcome f) (take n buf) off))"

definition set_len :: "os_file \<Rightarrow> nat \<Rightarrow> (storage_error + unit) \<times> os_file" where
  "set_len f n =
    (case next_outcome f of
       Io_done \<Rightarrow> (Inr (), (drop_outcome f)\<lparr>
          fdata := (\<lambda>i. if i < n \<and> i < flen f then fdata f i else 0),
          flen := n, unsynced := unsynced f \<union> {n..<flen f}\<rparr>)
     | Io_failed _ \<Rightarrow> (Inl Io, drop_outcome f))"

definition sync_data :: "os_file \<Rightarrow> (storage_error + unit) \<times> os_file" where
  "sync_data f =
    (case next_outcome f of
       Io_done \<Rightarrow> (Inr (), (drop_outcome f)\<lparr>unsynced := {}, synced_len := flen f\<rparr>)
     | Io_failed _ \<Rightarrow> (Inl Io, drop_outcome f))"

definition file_read :: "os_file \<Rightarrow> nat \<Rightarrow> nat \<Rightarrow> bytes" where
  "file_read f off n = map (fdata f) [off..<off + n]"

definition read_exact_at :: "os_file \<Rightarrow> nat \<Rightarrow> nat \<Rightarrow> bytes option" where
  "read_exact_at f n off =
    (if n = 0 \<or> off + n \<le> flen f then Some (file_read f off n) else None)"

definition healthy :: "os_file \<Rightarrow> bool" where
  "healthy f \<longleftrightarrow> outcomes f = []"

text \<open>
  What a crash may leave: bytes that were synced and not written since are intact, every other
  byte is arbitrary, and an unsynced change of the length may or may not have happened. The
  script of outcomes starts afresh with the next process.
\<close>

definition crash_image :: "os_file \<Rightarrow> os_file \<Rightarrow> bool" where
  "crash_image f g \<longleftrightarrow>
    (\<forall>i. i \<notin> unsynced f \<longrightarrow> i < flen f \<longrightarrow> i < flen g \<longrightarrow> fdata g i = fdata f i) \<and>
    min (synced_len f) (flen f) \<le> flen g \<and> flen g \<le> max (synced_len f) (flen f)"

lemma length_file_read [simp]: "length (file_read f off n) = n"
  by (simp add: file_read_def)

lemma nth_file_read [simp]: "i < n \<Longrightarrow> file_read f off n ! i = fdata f (off + i)"
  by (simp add: file_read_def)

lemma file_read_cong:
  "(\<And>i. off \<le> i \<Longrightarrow> i < off + n \<Longrightarrow> fdata f i = fdata g i) \<Longrightarrow>
    file_read f off n = file_read g off n"
  by (simp add: file_read_def)

lemma file_read_append:
  "file_read f off (m + n) = file_read f off m @ file_read f (off + m) n"
  by (auto intro!: nth_equalityI simp: nth_append)

lemma slice_file_read: "j \<le> n \<Longrightarrow> slice (file_read f off n) i j = file_read f (off + i) (j - i)"
  by (auto intro!: nth_equalityI simp: nth_slice add.assoc)

lemma file_put_sel [simp]:
  "flen (file_put f buf off) = (if buf = [] then flen f else max (flen f) (off + length buf))"
  "outcomes (file_put f buf off) = outcomes f"
  "synced_len (file_put f buf off) = synced_len f"
  "unsynced (file_put f buf off) = unsynced f \<union> {off..<off + length buf}"
  by (simp_all add: file_put_def)

lemma fdata_file_put:
  "fdata (file_put f buf off) i =
    (if off \<le> i \<and> i < off + length buf then buf ! (i - off)
     else if i < flen f then fdata f i else 0)"
  by (simp add: file_put_def)

lemma file_read_put_same: "n = length buf \<Longrightarrow> file_read (file_put f buf off) off n = buf"
  by (auto intro!: nth_equalityI simp: fdata_file_put)

lemma file_read_put_other:
  "o' + n \<le> flen f \<Longrightarrow> o' + n \<le> off \<or> off + length buf \<le> o' \<Longrightarrow>
    file_read (file_put f buf off) o' n = file_read f o' n"
  by (rule file_read_cong) (auto simp: fdata_file_put)

lemma drop_outcome_sel [simp]:
  "fdata (drop_outcome f) = fdata f" "flen (drop_outcome f) = flen f"
  "unsynced (drop_outcome f) = unsynced f" "synced_len (drop_outcome f) = synced_len f"
  "outcomes (drop_outcome f) = tl (outcomes f)"
  by (simp_all add: drop_outcome_def)

lemma file_read_drop_outcome [simp]: "file_read (drop_outcome f) = file_read f"
  by (rule ext)+ (simp add: file_read_def)

lemma write_all_at_okD:
  "write_all_at f buf off = (Inr u, f') \<Longrightarrow> f' = file_put (drop_outcome f) buf off"
  by (auto simp: write_all_at_def split: io_outcome.splits)

lemma set_len_okD:
  "set_len f n = (Inr u, f') \<Longrightarrow>
    flen f' = n \<and> (\<forall>i. fdata f' i = (if i < n \<and> i < flen f then fdata f i else 0)) \<and>
    unsynced f' = unsynced f \<union> {n..<flen f} \<and> synced_len f' = synced_len f"
  by (auto simp: set_len_def split: io_outcome.splits)

lemma sync_data_okD:
  "sync_data f = (Inr u, f') \<Longrightarrow>
    flen f' = flen f \<and> fdata f' = fdata f \<and> unsynced f' = {} \<and> synced_len f' = flen f"
  by (auto simp: sync_data_def split: io_outcome.splits)

lemma sync_data_data: "fdata (snd (sync_data f)) = fdata f" "flen (snd (sync_data f)) = flen f"
  by (auto simp: sync_data_def split: io_outcome.splits)

lemma healthy_drop_outcome: "healthy f \<Longrightarrow> drop_outcome f = f"
  by (cases f) (simp add: healthy_def drop_outcome_def)

lemma healthy_ops:
  assumes "healthy f"
  shows "write_all_at f buf off = (Inr (), file_put f buf off)"
    and "sync_data f = (Inr (), f\<lparr>unsynced := {}, synced_len := flen f\<rparr>)"
  using assms
  by (simp_all add: healthy_drop_outcome write_all_at_def sync_data_def next_outcome_def
      healthy_def [THEN iffD1])

end
