(* ===== verification/Data_File.thy ===== *)
theory Data_File
  imports Os_File
begin

text \<open>
  Model of \<open>storage/src/data_file.rs\<close>: the data file as an array of page images. The struct
  \<open>DataFile\<close> has the open file as its only field, so the model's state is that file; a handle
  made by \<open>share\<close> names the same file. \<open>write_shared\<close> and \<open>read_shared\<close> are the operations on
  such a handle.
\<close>

definition page_offset :: "u64 \<Rightarrow> storage_error + nat" where
  "page_offset pid =
    (if unat pid * PAGE_SIZE < 2 ^ 64 then Inr (unat pid * PAGE_SIZE)
     else Inl (CorruptDataFile (Reason ''page offset overflow'' [])))"

definition data_open :: "os_file \<Rightarrow> (storage_error + unit) \<times> os_file" where
  "data_open f =
    (let complete_length = flen f - flen f mod PAGE_SIZE in
     if complete_length \<noteq> flen f then set_len f complete_length else (Inr (), f))"

definition read_shared :: "(bytes \<Rightarrow> u32) \<Rightarrow> os_file \<Rightarrow> u64 \<Rightarrow> storage_error + page option" where
  "read_shared crc f pid =
    (case page_offset pid of
       Inl e \<Rightarrow> Inl e
     | Inr offset \<Rightarrow>
         if offset + PAGE_SIZE > flen f then Inr None
         else let bs = file_read f offset PAGE_SIZE in
           if list_all (\<lambda>b. b = 0) bs then Inr None
           else (case page_decode crc bs of
               Inl e \<Rightarrow> Inl e
             | Inr p \<Rightarrow>
                 if page_id p \<noteq> pid
                 then Inl (CorruptPage pid (Reason ''page header contains ID {}'' [unat (page_id p)]))
                 else Inr (Some p)))"

definition data_read :: "(bytes \<Rightarrow> u32) \<Rightarrow> os_file \<Rightarrow> u64 \<Rightarrow> storage_error + page option" where
  "data_read crc f pid = read_shared crc f pid"

definition write_shared :: "(bytes \<Rightarrow> u32) \<Rightarrow> os_file \<Rightarrow> page \<Rightarrow> (storage_error + unit) \<times> os_file" where
  "write_shared crc f p =
    (case page_offset (page_id p) of
       Inl e \<Rightarrow> (Inl e, f)
     | Inr offset \<Rightarrow> write_all_at f (page_encode crc p) offset)"

definition data_write :: "(bytes \<Rightarrow> u32) \<Rightarrow> os_file \<Rightarrow> page \<Rightarrow> (storage_error + unit) \<times> os_file" where
  "data_write crc f p =
    (case page_offset (page_id p) of
       Inl e \<Rightarrow> (Inl e, f)
     | Inr offset \<Rightarrow> write_all_at f (page_encode crc p) offset)"

definition data_sync :: "os_file \<Rightarrow> (storage_error + unit) \<times> os_file" where
  "data_sync f = sync_data f"

definition page_count :: "os_file \<Rightarrow> nat" where
  "page_count f = flen f div PAGE_SIZE"

fun max_lsn_from :: "(bytes \<Rightarrow> u32) \<Rightarrow> os_file \<Rightarrow> nat list \<Rightarrow> u64 \<Rightarrow> storage_error + u64" where
  "max_lsn_from crc f [] maximum = Inr maximum"
| "max_lsn_from crc f (raw # raws) maximum =
    (case data_read crc f (word_of_nat raw) of
       Inl e \<Rightarrow> Inl e
     | Inr None \<Rightarrow> max_lsn_from crc f raws maximum
     | Inr (Some p) \<Rightarrow> max_lsn_from crc f raws (max maximum (page_lsn p)))"

definition max_lsn :: "(bytes \<Rightarrow> u32) \<Rightarrow> os_file \<Rightarrow> storage_error + u64" where
  "max_lsn crc f = max_lsn_from crc f [0..<page_count f] 0"

section \<open>The page array\<close>

definition page_aligned :: "os_file \<Rightarrow> bool" where
  "page_aligned f \<longleftrightarrow> flen f mod PAGE_SIZE = 0"

lemma page_encode_not_zero: "page_wf p \<Longrightarrow> \<not> list_all (\<lambda>b. b = 0) (page_encode crc p)"
proof -
  assume wf: "page_wf p"
  have "slice (page_encode crc p) 0 4 = PAGE_MAGIC"
    using page_decode_accepts [of crc "page_encode crc p"] page_roundtrip [OF wf, of crc] by simp
  then have "set PAGE_MAGIC \<subseteq> set (page_encode crc p)"
    by (metis slice_def set_take_subset drop0)
  then show ?thesis by (auto simp: PAGE_MAGIC_def list_all_iff intro!: bexI [of _ "0x51"])
qed

lemma page_offset_inj:
  "page_offset a = Inr x \<Longrightarrow> page_offset b = Inr y \<Longrightarrow> a \<noteq> b \<Longrightarrow>
    x + PAGE_SIZE \<le> y \<or> y + PAGE_SIZE \<le> x"
proof -
  assume a: "page_offset a = Inr x" and b: "page_offset b = Inr y" and "a \<noteq> b"
  then have "unat a \<noteq> unat b" using unsigned_word_eqI by blast
  then have "unat a + 1 \<le> unat b \<or> unat b + 1 \<le> unat a" by linarith
  then have "(unat a + 1) * PAGE_SIZE \<le> unat b * PAGE_SIZE \<or>
      (unat b + 1) * PAGE_SIZE \<le> unat a * PAGE_SIZE"
    using mult_le_mono1 by blast
  with a b show ?thesis by (auto simp: page_offset_def split: if_splits)
qed

lemma aligned_block:
  assumes "page_aligned f" "page_offset pid = Inr x"
  shows "x + PAGE_SIZE \<le> flen f \<or> flen f \<le> x"
proof -
  obtain k where k: "flen f = k * PAGE_SIZE"
    using assms(1) by (auto simp: page_aligned_def mod_eq_0_iff_dvd dvd_def mult.commute)
  have x: "x = unat pid * PAGE_SIZE"
    using assms(2) by (auto simp: page_offset_def split: if_splits)
  have "unat pid + 1 \<le> k \<or> k \<le> unat pid" by linarith
  then show ?thesis
    unfolding k x using mult_le_mono1 [of "unat pid + 1" k PAGE_SIZE] mult_le_mono1 [of k "unat pid" PAGE_SIZE]
    by auto
qed

lemma data_write_okD:
  assumes "data_write crc f p = (Inr u, f')"
  obtains x where "page_offset (page_id p) = Inr x"
    "f' = file_put (drop_outcome f) (page_encode crc p) x"
  using assms by (auto simp: data_write_def split: sum.splits dest: write_all_at_okD)

lemma data_write_aligned:
  assumes "page_aligned f" "page_wf p" "data_write crc f p = (Inr u, f')"
  shows "page_aligned f'"
proof -
  from assms(3) obtain x where x: "page_offset (page_id p) = Inr x"
    "f' = file_put (drop_outcome f) (page_encode crc p) x" by (rule data_write_okD)
  then have "x mod PAGE_SIZE = 0" by (auto simp: page_offset_def split: if_splits)
  then show ?thesis
    using assms x length_page_encode [OF assms(2), of crc]
    by (auto simp: page_aligned_def max_def)
qed

lemma data_read_write_same:
  assumes "page_wf p" "data_write crc f p = (Inr u, f')"
  shows "data_read crc f' (page_id p) = Inr (Some p)"
proof -
  from assms(2) obtain x where x: "page_offset (page_id p) = Inr x"
    "f' = file_put (drop_outcome f) (page_encode crc p) x" by (rule data_write_okD)
  have len: "length (page_encode crc p) = PAGE_SIZE" by (rule length_page_encode [OF assms(1)])
  then have "file_read f' x PAGE_SIZE = page_encode crc p"
    unfolding x by (simp add: file_read_put_same)
  moreover have "flen f' \<ge> x + PAGE_SIZE"
    using len x by (auto simp: PAGE_SIZE_def)
  ultimately show ?thesis
    using x page_encode_not_zero [OF assms(1), of crc] page_roundtrip [OF assms(1), of crc]
    by (simp add: data_read_def read_shared_def)
qed

lemma data_read_write_other:
  assumes al: "page_aligned f" and wf: "page_wf p"
    and w: "data_write crc f p = (Inr u, f')" and ne: "pid \<noteq> page_id p"
  shows "data_read crc f' pid = data_read crc f pid"
proof (cases "page_offset pid")
  case (Inl e)
  then show ?thesis by (simp add: data_read_def read_shared_def)
next
  case (Inr y)
  from w obtain x where x: "page_offset (page_id p) = Inr x"
    "f' = file_put (drop_outcome f) (page_encode crc p) x" by (rule data_write_okD)
  have len: "length (page_encode crc p) = PAGE_SIZE" by (rule length_page_encode [OF wf])
  have disj: "x + PAGE_SIZE \<le> y \<or> y + PAGE_SIZE \<le> x"
    using page_offset_inj [OF x(1) Inr] ne by simp
  show ?thesis
  proof (cases "y + PAGE_SIZE \<le> flen f")
    case True
    then have "file_read f' y PAGE_SIZE = file_read f y PAGE_SIZE"
      unfolding x using disj len by (subst file_read_put_other) auto
    then show ?thesis
      using True Inr x len by (simp add: data_read_def read_shared_def)
  next
    case False
    with aligned_block [OF al Inr] have beyond: "flen f \<le> y" by simp
    have "list_all (\<lambda>b. b = 0) (file_read f' y PAGE_SIZE)"
      using beyond disj len by (auto simp: list_all_iff file_read_def x fdata_file_put)
    then show ?thesis
      using False Inr by (simp add: data_read_def read_shared_def)
  qed
qed

text \<open>The contract of a page array, and what its clients derive for a whole list of writes.\<close>

locale paged_file =
  fixes rd :: "'f \<Rightarrow> u64 \<Rightarrow> storage_error + page option"
    and wr :: "'f \<Rightarrow> page \<Rightarrow> (storage_error + unit) \<times> 'f"
    and invar :: "'f \<Rightarrow> bool"
  assumes write_read: "invar f \<Longrightarrow> page_wf p \<Longrightarrow> wr f p = (Inr u, f') \<Longrightarrow>
      rd f' pid = (if pid = page_id p then Inr (Some p) else rd f pid)"
    and write_invar: "invar f \<Longrightarrow> page_wf p \<Longrightarrow> wr f p = (Inr u, f') \<Longrightarrow> invar f'"
begin

fun write_all :: "'f \<Rightarrow> page list \<Rightarrow> (storage_error + unit) \<times> 'f" where
  "write_all f [] = (Inr (), f)"
| "write_all f (p # ps) =
    (case wr f p of (Inl e, f') \<Rightarrow> (Inl e, f') | (Inr _, f') \<Rightarrow> write_all f' ps)"

lemma write_all_spec:
  assumes "invar f" "\<forall>p\<in>set ps. page_wf p" "write_all f ps = (Inr u, f')"
  shows "invar f' \<and> (\<forall>pid. rd f' pid =
    (case find (\<lambda>p. page_id p = pid) (rev ps) of Some p \<Rightarrow> Inr (Some p) | None \<Rightarrow> rd f pid))"
  using assms
proof (induction ps arbitrary: f)
  case Nil
  then show ?case by simp
next
  case (Cons p ps)
  obtain r g where g: "wr f p = (r, g)" by force
  with Cons.prems(3) obtain v where r: "r = Inr v" and rest: "write_all g ps = (Inr u, f')"
    by (cases r) auto
  have inv: "invar g" using Cons.prems g r by (auto intro: write_invar)
  have g': "rd g pid = (if pid = page_id p then Inr (Some p) else rd f pid)" for pid
    using Cons.prems g r write_read by auto
  have ih: "invar f' \<and> (\<forall>pid. rd f' pid =
    (case find (\<lambda>p. page_id p = pid) (rev ps) of Some p \<Rightarrow> Inr (Some p) | None \<Rightarrow> rd g pid))"
    using Cons.IH [OF inv _ rest] Cons.prems by simp
  have "find P (xs @ [y]) = (case find P xs of Some z \<Rightarrow> Some z | None \<Rightarrow> if P y then Some y else None)"
    for P and xs :: "page list" and y
    by (induction xs) auto
  then show ?case using ih g' by (auto split: option.splits)
qed

end

interpretation data_pages: paged_file "data_read crc" "data_write crc" page_aligned for crc
proof unfold_locales
  fix f p u f' pid
  assume a: "page_aligned f" "page_wf p" "data_write crc f p = (Inr u, f')"
  show "data_read crc f' pid = (if pid = page_id p then Inr (Some p) else data_read crc f pid)"
    using data_read_write_same [OF a(2,3)] data_read_write_other [OF a, of pid] by simp
qed (rule data_write_aligned)

end
