(* ===== verification/Wal.thy ===== *)
theory Wal
  imports Os_File
begin

text \<open>
  Model of \<open>storage/src/wal.rs\<close>: log records and their checksummed encoding, the segment file
  with its preallocation and stop marker, the scan that finds the end of a log after a crash,
  and the pair of alternating segments. File offsets are natural numbers; the code's saturating
  additions on them are plain additions, since a file is far shorter than \<open>2 ^ 64\<close> bytes.
\<close>

section \<open>Records\<close>

definition WAL_MAGIC :: bytes where "WAL_MAGIC = [0x51, 0x4E, 0x57, 0x4C]"
definition WAL_FORMAT_VERSION :: u16 where "WAL_FORMAT_VERSION = 1"
definition WAL_HEADER_SIZE :: nat where "WAL_HEADER_SIZE = 40"
definition WAL_CHECKSUM_OFFSET :: nat where "WAL_CHECKSUM_OFFSET = 32"
definition NO_PAGE_ID :: u64 where "NO_PAGE_ID = - 1"
definition WAL_PREALLOCATE_BYTES :: nat where "WAL_PREALLOCATE_BYTES = 64 * 2 ^ 20"
definition WAL_ZERO_FILL_AHEAD :: nat where "WAL_ZERO_FILL_AHEAD = 4 * 2 ^ 20"
definition STOP_MARKER :: bytes where "STOP_MARKER = [0, 0, 0, 0]"

datatype wal_kind =
    PageImage u64 bytes
  | PageAppend u64 u32 bytes
  | BatchCommit u32
  | Checkpoint

record wal_record =
  rec_lsn :: u64
  rec_kind :: wal_kind

fun kind_fields :: "wal_kind \<Rightarrow> u8 \<times> u64 \<times> bytes" where
  "kind_fields (PageImage pid payload) = (1, pid, payload)"
| "kind_fields (PageAppend pid offset payload) = (4, pid, le_u32 offset @ payload)"
| "kind_fields (BatchCommit page_count) = (2, NO_PAGE_ID, le_u32 page_count)"
| "kind_fields Checkpoint = (3, NO_PAGE_ID, [])"

definition record_checksum :: "(bytes \<Rightarrow> u32) \<Rightarrow> bytes \<Rightarrow> bytes \<Rightarrow> u32" where
  "record_checksum crc header payload =
     crc (slice header 0 WAL_CHECKSUM_OFFSET @ replicate 4 0 @
          slice header (WAL_CHECKSUM_OFFSET + 4) (length header) @ payload)"

definition record_header :: "(bytes \<Rightarrow> u32) \<Rightarrow> u64 \<Rightarrow> u8 \<Rightarrow> u64 \<Rightarrow> bytes \<Rightarrow> bytes" where
  "record_header crc lsn record_type pid payload =
    (let header = replicate WAL_HEADER_SIZE 0;
         header = patch header 0 WAL_MAGIC;
         header = write_u16 header 4 WAL_FORMAT_VERSION;
         header = header[6 := record_type];
         header = write_u32 header 8 (word_of_nat (WAL_HEADER_SIZE + length payload));
         header = write_u32 header 12 (word_of_nat (length payload));
         header = write_u64 header 16 lsn;
         header = write_u64 header 24 pid
     in write_u32 header WAL_CHECKSUM_OFFSET (record_checksum crc header payload))"

section \<open>Scanning a segment\<close>

definition scan_kind :: "u8 \<Rightarrow> u64 \<Rightarrow> bytes \<Rightarrow> wal_kind option" where
  "scan_kind record_type pid payload =
    (if record_type = 1 \<and> pid \<noteq> NO_PAGE_ID then Some (PageImage pid payload)
     else if record_type = 2 \<and> pid = NO_PAGE_ID \<and> length payload = 4 then
       (let page_count = read_u32 payload 0 in
        if page_count = 0 then None else Some (BatchCommit page_count))
     else if record_type = 3 \<and> pid = NO_PAGE_ID \<and> payload = [] then Some Checkpoint
     else if record_type = 4 \<and> pid \<noteq> NO_PAGE_ID \<and> length payload \<ge> 4 then
       Some (PageAppend pid (read_u32 payload 0) (drop 4 payload))
     else None)"

definition scan_record ::
    "(bytes \<Rightarrow> u32) \<Rightarrow> os_file \<Rightarrow> nat \<Rightarrow> u64 \<Rightarrow> (wal_record \<times> nat) option" where
  "scan_record crc f offset previous_lsn =
    (if offset + WAL_HEADER_SIZE > flen f then None else
     case read_exact_at f WAL_HEADER_SIZE offset of None \<Rightarrow> None | Some header \<Rightarrow>
     if slice header 0 4 \<noteq> WAL_MAGIC then None else
     if read_u16 header 4 \<noteq> WAL_FORMAT_VERSION then None else
     let record_length = unat (read_u32 header 8);
         payload_length = unat (read_u32 header 12) in
     if record_length \<noteq> WAL_HEADER_SIZE + payload_length \<or> payload_length > MAX_PAGE_PAYLOAD
     then None else
     if offset + record_length > flen f then None else
     case read_exact_at f payload_length (offset + WAL_HEADER_SIZE) of
       None \<Rightarrow> None
     | Some payload \<Rightarrow>
     if read_u32 header WAL_CHECKSUM_OFFSET \<noteq> record_checksum crc header payload then None else
     let lsn = read_u64 header 16 in
     if lsn = 0 \<or> lsn \<le> previous_lsn then None else
     case scan_kind (header ! 6) (read_u64 header 24) payload of
       None \<Rightarrow> None
     | Some kind \<Rightarrow> Some (\<lparr>rec_lsn = lsn, rec_kind = kind\<rparr>, record_length))"

lemma scan_record_Some:
  "scan_record crc f offset previous_lsn = Some (r, n) \<Longrightarrow>
    WAL_HEADER_SIZE \<le> n \<and> offset + n \<le> flen f \<and> previous_lsn < rec_lsn r"
  by (auto simp: scan_record_def Let_def split: option.splits if_splits)

function scan_loop ::
    "(bytes \<Rightarrow> u32) \<Rightarrow> os_file \<Rightarrow> nat \<Rightarrow> u64 \<Rightarrow> wal_record list \<times> nat" where
  "scan_loop crc f offset previous_lsn =
    (case scan_record crc f offset previous_lsn of
       None \<Rightarrow> ([], offset)
     | Some (r, n) \<Rightarrow> (case scan_loop crc f (offset + n) (rec_lsn r) of (rs, e) \<Rightarrow> (r # rs, e)))"
  by pat_completeness auto
termination
proof (relation "measure (\<lambda>(crc, f, offset, previous_lsn). flen f - offset)")
  fix crc :: "bytes \<Rightarrow> u32" and f offset previous_lsn x r n
  assume "scan_record crc f offset previous_lsn = Some x" "(r, n) = x"
  then have "WAL_HEADER_SIZE \<le> n \<and> offset + n \<le> flen f"
    using scan_record_Some by metis
  then show "((crc, f, offset + n, rec_lsn r), crc, f, offset, previous_lsn)
      \<in> measure (\<lambda>(crc, f, offset, previous_lsn). flen f - offset)"
    by (auto simp: WAL_HEADER_SIZE_def)
qed simp

declare scan_loop.simps [simp del]

definition scan_and_repair ::
    "(bytes \<Rightarrow> u32) \<Rightarrow> os_file \<Rightarrow> (storage_error + (wal_record list \<times> nat)) \<times> os_file" where
  "scan_and_repair crc f =
    (case scan_loop crc f 0 0 of (records, offset) \<Rightarrow>
     if offset + length STOP_MARKER \<le> flen f then
       try_then (write_all_at f STOP_MARKER offset) (\<lambda>_ f.
       try_then (sync_data f) (\<lambda>_ f.
       (Inr (records, offset), f)))
     else (Inr (records, offset), f))"

section \<open>Segments\<close>

record segment =
  seg_file :: os_file
  end_offset :: nat
  file_length :: nat
  allocated_offset :: nat

definition on_file ::
    "(os_file \<Rightarrow> (storage_error + 'a) \<times> os_file) \<Rightarrow> segment \<Rightarrow> (storage_error + 'a) \<times> segment" where
  "on_file op seg = (case op (seg_file seg) of (r, f) \<Rightarrow> (r, seg\<lparr>seg_file := f\<rparr>))"

definition ZERO_FILL_CHUNK :: nat where "ZERO_FILL_CHUNK = 64 * 1024"

function zero_fill :: "os_file \<Rightarrow> nat \<Rightarrow> nat \<Rightarrow> (storage_error + unit) \<times> os_file" where
  "zero_fill f offset to =
    (if offset < to then
       let step = min (to - offset) ZERO_FILL_CHUNK in
       (case write_all_at f (replicate step 0) offset of
          (Inl e, f) \<Rightarrow> (Inl e, f)
        | (Inr _, f) \<Rightarrow> zero_fill f (offset + step) to)
     else (Inr (), f))"
  by pat_completeness auto
termination
  by (relation "measure (\<lambda>(f, offset, to). to - offset)") (auto simp: ZERO_FILL_CHUNK_def)

declare zero_fill.simps [simp del]

definition segment_open ::
    "(bytes \<Rightarrow> u32) \<Rightarrow> os_file \<Rightarrow> (storage_error + (segment \<times> wal_record list)) \<times> os_file" where
  "segment_open crc f =
    try_then (scan_and_repair crc f) (\<lambda>(records, end_off) f.
    if flen f < WAL_PREALLOCATE_BYTES then
      try_then (set_len f WAL_PREALLOCATE_BYTES) (\<lambda>_ f.
      try_then (sync_data f) (\<lambda>_ f.
      (Inr (\<lparr>seg_file = f, end_offset = end_off, file_length = WAL_PREALLOCATE_BYTES,
             allocated_offset = end_off\<rparr>, records), f)))
    else
      (Inr (\<lparr>seg_file = f, end_offset = end_off, file_length = flen f,
             allocated_offset = end_off\<rparr>, records), f))"

definition grow_file :: "nat \<Rightarrow> segment \<Rightarrow> (storage_error + unit) \<times> segment" where
  "grow_file needed seg =
    (if needed > file_length seg then
       (if needed + WAL_PREALLOCATE_BYTES < 2 ^ 64 then
          let grown = needed + WAL_PREALLOCATE_BYTES in
          try_then (on_file (\<lambda>f. set_len f grown) seg) (\<lambda>_ seg.
          (Inr (), seg\<lparr>file_length := grown\<rparr>))
        else (Inl (CorruptWal (end_offset seg) (Reason ''log size overflow'' [])), seg))
     else (Inr (), seg))"

definition fill_ahead :: "nat \<Rightarrow> segment \<Rightarrow> (storage_error + unit) \<times> segment" where
  "fill_ahead needed seg =
    (if needed > allocated_offset seg then
       let target = min (needed + WAL_ZERO_FILL_AHEAD) (file_length seg) in
       try_then (on_file (\<lambda>f. zero_fill f (allocated_offset seg) target) seg) (\<lambda>_ seg.
       (Inr (), seg\<lparr>allocated_offset := target\<rparr>))
     else (Inr (), seg))"

definition append_record :: "segment \<Rightarrow> bytes \<Rightarrow> bytes \<Rightarrow> (storage_error + unit) \<times> segment" where
  "append_record seg header payload =
    (let record_length = WAL_HEADER_SIZE + length payload in
     if end_offset seg + record_length < 2 ^ 64 then
       let record_end = end_offset seg + record_length;
           needed = record_end + length STOP_MARKER in
       try_then (grow_file needed seg) (\<lambda>_ seg.
       try_then (fill_ahead needed seg) (\<lambda>_ seg.
       try_then (on_file (\<lambda>f. write_all_at f header (end_offset seg)) seg) (\<lambda>_ seg.
       try_then (on_file (\<lambda>f. write_all_at f payload (end_offset seg + WAL_HEADER_SIZE)) seg) (\<lambda>_ seg.
       try_then (on_file (\<lambda>f. write_all_at f STOP_MARKER record_end) seg) (\<lambda>_ seg.
       (Inr (), seg\<lparr>end_offset := record_end\<rparr>))))))
     else (Inl (CorruptWal (end_offset seg) (Reason ''log offset overflow'' [])), seg))"

definition seal_file :: "os_file \<Rightarrow> (storage_error + unit) \<times> os_file" where
  "seal_file f =
    try_then (write_all_at f STOP_MARKER 0) (\<lambda>_ f.
    try_then (sync_data f) (\<lambda>_ f. (Inr (), f)))"

definition seal_and_sync :: "segment \<Rightarrow> (storage_error + unit) \<times> segment" where
  "seal_and_sync seg =
    try_then (on_file seal_file seg) (\<lambda>_ seg. (Inr (), seg\<lparr>end_offset := 0\<rparr>))"

section \<open>The two-segment log\<close>

record wal =
  seg0 :: segment
  seg1 :: segment
  active :: nat
  retired :: "nat option"
  wal_records :: "wal_record list"
  next_lsn :: u64

definition segment_at :: "wal \<Rightarrow> nat \<Rightarrow> segment" where
  "segment_at w i = (if i = 0 then seg0 w else seg1 w)"

definition set_segment :: "nat \<Rightarrow> segment \<Rightarrow> wal \<Rightarrow> wal" where
  "set_segment i seg w = (if i = 0 then w\<lparr>seg0 := seg\<rparr> else w\<lparr>seg1 := seg\<rparr>)"

definition on_segment ::
    "nat \<Rightarrow> (segment \<Rightarrow> (storage_error + 'a) \<times> segment) \<Rightarrow> wal \<Rightarrow> (storage_error + 'a) \<times> wal" where
  "on_segment i op w = (case op (segment_at w i) of (r, seg) \<Rightarrow> (r, set_segment i seg w))"

definition choose_records ::
    "wal_record list \<Rightarrow> wal_record list \<Rightarrow> wal_record list \<times> nat \<times> nat option" where
  "choose_records records_a records_b =
    (if records_b = [] then (records_a, 0, None)
     else if records_a = [] then (records_b, 1, None)
     else
       let (earlier, later, later_index) =
             (if rec_lsn (hd records_a) < rec_lsn (hd records_b)
              then (records_a, records_b, 1) else (records_b, records_a, 0)) in
       if rec_lsn (hd later) > rec_lsn (last earlier) then (earlier @ later, later_index, None)
       else (earlier, 1 - later_index, Some later_index))"

definition wal_open ::
    "(bytes \<Rightarrow> u32) \<Rightarrow> os_file \<Rightarrow> os_file \<Rightarrow> storage_error + wal" where
  "wal_open crc primary secondary =
    (case segment_open crc primary of
       (Inl e, _) \<Rightarrow> Inl e
     | (Inr (segment_a, records_a), _) \<Rightarrow>
    (case segment_open crc secondary of
       (Inl e, _) \<Rightarrow> Inl e
     | (Inr (segment_b, records_b), _) \<Rightarrow>
    (case choose_records records_a records_b of (records, act, seal_garbage) \<Rightarrow>
       let next = (if records = [] then 1 else saturating_add_u64 (rec_lsn (last records)) 1);
           w = \<lparr>seg0 = segment_a, seg1 = segment_b, active = act, retired = None,
                wal_records = records, next_lsn = next\<rparr> in
       (case seal_garbage of
          None \<Rightarrow> Inr w
        | Some index \<Rightarrow>
            (case on_segment index seal_and_sync w of
               (Inl e, _) \<Rightarrow> Inl e
             | (Inr _, w) \<Rightarrow> Inr w)))))"

definition both_segments_live :: "wal \<Rightarrow> bool" where
  "both_segments_live w \<longleftrightarrow> end_offset (seg0 w) > 0 \<and> end_offset (seg1 w) > 0"

definition can_rotate :: "wal \<Rightarrow> bool" where
  "can_rotate w \<longleftrightarrow> retired w = None \<and> end_offset (segment_at w (1 - active w)) = 0"

definition rotate :: "wal \<Rightarrow> (storage_error + u64) \<times> wal" where
  "rotate w =
    (if \<not> can_rotate w
     then (Inl (CorruptWal 0 (Reason ''log rotation needs an empty spare segment'' [])), w)
     else let w = w\<lparr>retired := Some (active w)\<rparr>;
              w = w\<lparr>active := 1 - active w\<rparr>
          in (Inr (next_lsn w), w))"

definition retired_file :: "wal \<Rightarrow> storage_error + nat" where
  "retired_file w =
    (case retired w of
       None \<Rightarrow> Inl (CorruptWal 0 (Reason ''no retired segment to recycle'' []))
     | Some i \<Rightarrow> Inr i)"

definition finish_recycle :: "u64 \<Rightarrow> wal \<Rightarrow> (storage_error + unit) \<times> wal" where
  "finish_recycle boundary_lsn w =
    (case retired w of
       None \<Rightarrow> (Inl (CorruptWal 0 (Reason ''no retired segment to recycle'' [])), w)
     | Some i \<Rightarrow>
         let w = w\<lparr>retired := None\<rparr>;
             w = set_segment i ((segment_at w i)\<lparr>end_offset := 0\<rparr>) w
         in (Inr (), w\<lparr>wal_records := filter (\<lambda>r. rec_lsn r \<ge> boundary_lsn) (wal_records w)\<rparr>))"

definition wal_append :: "(bytes \<Rightarrow> u32) \<Rightarrow> wal_kind \<Rightarrow> wal \<Rightarrow> (storage_error + u64) \<times> wal" where
  "wal_append crc kind w =
    (let lsn = next_lsn w; offset = end_offset (segment_at w (active w)) in
     case checked_add_u64 (next_lsn w) 1 of
       None \<Rightarrow> (Inl (CorruptWal offset (Reason ''LSN space exhausted'' [])), w)
     | Some next \<Rightarrow>
         let w = w\<lparr>next_lsn := next\<rparr>;
             (record_type, pid, payload) = kind_fields kind in
         (case checked_add_usize WAL_HEADER_SIZE (length payload) of
            None \<Rightarrow> (Inl (CorruptWal offset (Reason ''record length overflow'' [])), w)
          | Some record_length \<Rightarrow>
              if record_length \<ge> 2 ^ 32
              then (Inl (CorruptWal offset (Reason ''record is too large'' [])), w)
              else
                let header = record_header crc lsn record_type pid payload in
                try_then (on_segment (active w) (\<lambda>seg. append_record seg header payload) w) (\<lambda>_ w.
                (Inr lsn, w\<lparr>wal_records := wal_records w @ [\<lparr>rec_lsn = lsn, rec_kind = kind\<rparr>]\<rparr>))))"

definition append_page :: "(bytes \<Rightarrow> u32) \<Rightarrow> u64 \<Rightarrow> bytes \<Rightarrow> wal \<Rightarrow> (storage_error + u64) \<times> wal" where
  "append_page crc pid payload w =
    (if length payload > MAX_PAGE_PAYLOAD
     then (Inl (PageTooLarge (length payload) MAX_PAGE_PAYLOAD), w)
     else wal_append crc (PageImage pid payload) w)"

definition append_page_tail ::
    "(bytes \<Rightarrow> u32) \<Rightarrow> u64 \<Rightarrow> u32 \<Rightarrow> bytes \<Rightarrow> wal \<Rightarrow> (storage_error + u64) \<times> wal" where
  "append_page_tail crc pid offset payload w =
    (if length payload > MAX_PAGE_PAYLOAD
     then (Inl (PageTooLarge (length payload) MAX_PAGE_PAYLOAD), w)
     else wal_append crc (PageAppend pid offset payload) w)"

definition append_checkpoint :: "(bytes \<Rightarrow> u32) \<Rightarrow> wal \<Rightarrow> (storage_error + u64) \<times> wal" where
  "append_checkpoint crc w = wal_append crc Checkpoint w"

definition append_batch_commit :: "(bytes \<Rightarrow> u32) \<Rightarrow> nat \<Rightarrow> wal \<Rightarrow> (storage_error + u64) \<times> wal" where
  "append_batch_commit crc page_count w =
    (let offset = end_offset (segment_at w (active w)) in
     if page_count = 0 then (Inl (CorruptWal offset (Reason ''batch commit cannot be empty'' [])), w)
     else if page_count \<ge> 2 ^ 32
     then (Inl (CorruptWal offset (Reason ''batch page count exceeds u32'' [])), w)
     else wal_append crc (BatchCommit (word_of_nat page_count)) w)"

definition wal_sync :: "wal \<Rightarrow> (storage_error + unit) \<times> wal" where
  "wal_sync w = on_segment (active w) (on_file sync_data) w"

definition size_bytes :: "wal \<Rightarrow> nat" where
  "size_bytes w = end_offset (segment_at w (active w))"

definition reset_segment :: "nat \<Rightarrow> wal \<Rightarrow> (storage_error + unit) \<times> wal" where
  "reset_segment i w =
    (if end_offset (segment_at w i) > 0 then on_segment i seal_and_sync w else (Inr (), w))"

definition reset_after_checkpoint :: "wal \<Rightarrow> (storage_error + unit) \<times> wal" where
  "reset_after_checkpoint w =
    try_then (reset_segment 0 w) (\<lambda>_ w.
    try_then (reset_segment 1 w) (\<lambda>_ w.
    (Inr (), w\<lparr>retired := None, wal_records := []\<rparr>)))"

definition is_checkpoint :: "wal_record \<Rightarrow> bool" where
  "is_checkpoint r \<longleftrightarrow> rec_kind r = Checkpoint"

definition trim_records_to_last_checkpoint :: "wal \<Rightarrow> wal" where
  "trim_records_to_last_checkpoint w =
    (case rposition is_checkpoint (wal_records w) of
       None \<Rightarrow> w
     | Some position \<Rightarrow> w\<lparr>wal_records := drop (Suc position) (wal_records w)\<rparr>)"

definition ensure_next_lsn_after :: "u64 \<Rightarrow> wal \<Rightarrow> (storage_error + unit) \<times> wal" where
  "ensure_next_lsn_after durable_lsn w =
    (case checked_add_u64 durable_lsn 1 of
       None \<Rightarrow> (Inl (CorruptWal (end_offset (segment_at w (active w)))
                 (Reason ''LSN space exhausted'' [])), w)
     | Some n \<Rightarrow> (Inr (), w\<lparr>next_lsn := max (next_lsn w) n\<rparr>))"

end
