(* ===== verification/Store.thy ===== *)
theory Store
  imports Data_File Wal "HOL-Library.AList"
begin

text \<open>
  Model of \<open>storage/src/store.rs\<close>: the page allocator, the table of dirty pages, and the durable
  store over the data file and the log. A \<open>HashMap\<close> is an association list in insertion order
  and a \<open>HashSet\<close> a duplicate-free list; the order in which the code iterates over them is not
  specified by the language, and the model takes this one. A \<open>BTreeSet\<close> is a sorted list. Locks
  are not part of the state: every method of the model runs while its lock is held. The
  directory lock and the creation of the directory (\<open>open_lock_file\<close>) are not modelled.
\<close>

section \<open>Page allocation\<close>

record page_allocator =
  next_page_id :: u64
  free_pages :: "u64 list"

definition reserve :: "nat \<Rightarrow> page_allocator \<Rightarrow> (storage_error + u64 list) \<times> page_allocator" where
  "reserve count st =
    (let page_ids = take count (free_pages st);
         st = st\<lparr>free_pages := drop count (free_pages st)\<rparr>;
         fresh = count - length page_ids in
     if fresh \<ge> 2 ^ 64
     then (Inl (Configuration (Reason ''page reservation count exceeds u64'' [])), st)
     else case checked_add_u64 (next_page_id st) (word_of_nat fresh) of
       None \<Rightarrow> (Inl (Configuration (Reason ''page ID space exhausted'' [])), st)
     | Some e \<Rightarrow>
         (Inr (page_ids @ map word_of_nat [unat (next_page_id st)..<unat e]),
          st\<lparr>next_page_id := e\<rparr>))"

fun release :: "u64 list \<Rightarrow> page_allocator \<Rightarrow> page_allocator" where
  "release [] st = st"
| "release (pid # pids) st =
    release pids (if pid < next_page_id st
      then st\<lparr>free_pages := insort_insert pid (free_pages st)\<rparr> else st)"

definition free_page_count :: "page_allocator \<Rightarrow> nat" where
  "free_page_count st = length (free_pages st)"

definition note_written :: "u64 \<Rightarrow> page_allocator \<Rightarrow> page_allocator" where
  "note_written pid st = st\<lparr>next_page_id := max (next_page_id st) (saturating_add_u64 pid 1)\<rparr>"

section \<open>The store\<close>

record page_write =
  pw_page_id :: u64
  pw_payload :: bytes

record page_append =
  pa_page_id :: u64
  pa_offset :: u32
  pa_payload :: bytes
  pa_sealed :: bool

record store =
  st_data :: os_file
  st_wal :: wal
  dirty :: "(u64 \<times> page) list"
  flushed :: "(u64 \<times> u64) list"
  flush_queue :: "u64 list"
  allocator :: page_allocator
  open_pages :: "u64 list"
  checkpoint_in_flight :: bool
  poisoned :: bool

definition on_wal ::
    "(wal \<Rightarrow> (storage_error + 'a) \<times> wal) \<Rightarrow> store \<Rightarrow> (storage_error + 'a) \<times> store" where
  "on_wal op s = (case op (st_wal s) of (r, w) \<Rightarrow> (r, s\<lparr>st_wal := w\<rparr>))"

definition on_data ::
    "(os_file \<Rightarrow> (storage_error + 'a) \<times> os_file) \<Rightarrow> store \<Rightarrow> (storage_error + 'a) \<times> store" where
  "on_data op s = (case op (st_data s) of (r, f) \<Rightarrow> (r, s\<lparr>st_data := f\<rparr>))"

text \<open>A public method that runs an inner one and poisons the store when it fails.\<close>

definition poisoning ::
    "(store \<Rightarrow> (storage_error + 'a) \<times> store) \<Rightarrow> store \<Rightarrow> (storage_error + 'a) \<times> store" where
  "poisoning op s =
    (case op s of
       (Inl e, s) \<Rightarrow> (Inl e, s\<lparr>poisoned := True\<rparr>)
     | (Inr a, s) \<Rightarrow> (Inr a, s))"

definition dirty_get :: "u64 \<Rightarrow> store \<Rightarrow> page option" where
  "dirty_get pid s = map_of (dirty s) pid"

definition read_page :: "(bytes \<Rightarrow> u32) \<Rightarrow> u64 \<Rightarrow> store \<Rightarrow> storage_error + page option" where
  "read_page crc pid s =
    (case dirty_get pid s of
       Some p \<Rightarrow> Inr (Some p)
     | None \<Rightarrow> data_read crc (st_data s) pid)"

definition shared_read_page :: "(bytes \<Rightarrow> u32) \<Rightarrow> u64 \<Rightarrow> store \<Rightarrow> storage_error + page option" where
  "shared_read_page crc pid s =
    (case dirty_get pid s of
       Some p \<Rightarrow> Inr (Some p)
     | None \<Rightarrow> read_shared crc (st_data s) pid)"

definition store_page_count :: "store \<Rightarrow> nat" where
  "store_page_count s =
    max (page_count (st_data s))
        (fold (\<lambda>(pid, p). max (unat (saturating_add_u64 pid 1))) (dirty s) 0)"

definition reserve_page_ids :: "nat \<Rightarrow> store \<Rightarrow> (storage_error + u64 list) \<times> store" where
  "reserve_page_ids count s =
    (if poisoned s then (Inl Poisoned, s)
     else case reserve count (allocator s) of (r, a) \<Rightarrow> (r, s\<lparr>allocator := a\<rparr>))"

definition release_pages :: "u64 list \<Rightarrow> store \<Rightarrow> store" where
  "release_pages pids s = s\<lparr>allocator := release pids (allocator s)\<rparr>"

section \<open>Writing whole pages\<close>

fun append_writes ::
    "(bytes \<Rightarrow> u32) \<Rightarrow> page_write list \<Rightarrow> wal \<Rightarrow> (storage_error + u64 list) \<times> wal" where
  "append_writes crc [] w = (Inr [], w)"
| "append_writes crc (x # xs) w =
    try_then (append_page crc (pw_page_id x) (pw_payload x) w) (\<lambda>lsn w.
    try_then (append_writes crc xs w) (\<lambda>lsns w.
    (Inr (lsn # lsns), w)))"

fun install_writes :: "(page_write \<times> u64) list \<Rightarrow> store \<Rightarrow> (storage_error + unit) \<times> store" where
  "install_writes [] s = (Inr (), s)"
| "install_writes ((x, lsn) # xs) s =
    (case page_with_lsn (pw_page_id x) lsn (pw_payload x) of
       Inl e \<Rightarrow> (Inl e, s)
     | Inr p \<Rightarrow>
         install_writes xs
           (s\<lparr>dirty := AList.update (pw_page_id x) p (dirty s),
              flush_queue := flush_queue s @ [pw_page_id x],
              allocator := note_written (pw_page_id x) (allocator s)\<rparr>))"

definition write_pages_inner ::
    "(bytes \<Rightarrow> u32) \<Rightarrow> page_write list \<Rightarrow> bool \<Rightarrow> store \<Rightarrow> (storage_error + u64 list) \<times> store" where
  "write_pages_inner crc writes durable s =
    try_then (on_wal (append_writes crc writes) s) (\<lambda>lsns s.
    try_then (on_wal (append_batch_commit crc (length writes)) s) (\<lambda>_ s.
    try_then (if durable then on_wal wal_sync s else (Inr (), s)) (\<lambda>_ s.
    try_then (install_writes (zip writes lsns) s) (\<lambda>_ s.
    (Inr lsns, s)))))"

fun validate_writes :: "page_write list \<Rightarrow> storage_error + unit" where
  "validate_writes [] = Inr ()"
| "validate_writes (x # xs) =
    (case page_new (pw_page_id x) (pw_payload x) of
       Inl e \<Rightarrow> Inl e
     | Inr _ \<Rightarrow> validate_writes xs)"

definition write_pages_with ::
    "(bytes \<Rightarrow> u32) \<Rightarrow> page_write list \<Rightarrow> bool \<Rightarrow> store \<Rightarrow> (storage_error + u64 list) \<times> store" where
  "write_pages_with crc writes durable s =
    (if poisoned s then (Inl Poisoned, s)
     else case validate_writes writes of
       Inl e \<Rightarrow> (Inl e, s)
     | Inr _ \<Rightarrow>
         if writes = [] then (Inr [], s)
         else poisoning (write_pages_inner crc writes durable) s)"

definition write_pages ::
    "(bytes \<Rightarrow> u32) \<Rightarrow> page_write list \<Rightarrow> store \<Rightarrow> (storage_error + u64 list) \<times> store" where
  "write_pages crc writes s = write_pages_with crc writes True s"

definition write_page ::
    "(bytes \<Rightarrow> u32) \<Rightarrow> u64 \<Rightarrow> bytes \<Rightarrow> store \<Rightarrow> (storage_error + u64) \<times> store" where
  "write_page crc pid payload s =
    try_then (write_pages crc [\<lparr>pw_page_id = pid, pw_payload = payload\<rparr>] s) (\<lambda>lsns s.
    if lsns = [] then (Inl (Configuration (Reason ''single-page write produced no LSN'' [])), s)
    else (Inr (last lsns), s))"

definition allocate_page ::
    "(bytes \<Rightarrow> u32) \<Rightarrow> bytes \<Rightarrow> store \<Rightarrow> (storage_error + u64) \<times> store" where
  "allocate_page crc payload s =
    (case reserve 1 (allocator s) of
       (Inl e, a) \<Rightarrow> (Inl e, s\<lparr>allocator := a\<rparr>)
     | (Inr page_ids, a) \<Rightarrow>
         let s = s\<lparr>allocator := a\<rparr> in
         (case page_ids of
            [] \<Rightarrow> (Inl (Configuration (Reason ''page ID space exhausted'' [])), s)
          | pid # _ \<Rightarrow> try_then (write_page crc pid payload s) (\<lambda>_ s. (Inr pid, s))))"

section \<open>Appending inside pages\<close>

definition splice :: "bytes \<Rightarrow> nat \<Rightarrow> bytes \<Rightarrow> bytes" where
  "splice base offset bs =
    (let e = offset + length bs;
         base = (if length base < e then base @ replicate (e - length base) 0 else base)
     in patch base offset bs)"

definition append_base :: "(bytes \<Rightarrow> u32) \<Rightarrow> u64 \<Rightarrow> store \<Rightarrow> storage_error + bytes" where
  "append_base crc pid s =
    (case dirty_get pid s of
       Some p \<Rightarrow> Inr (page_payload p)
     | None \<Rightarrow>
         (case data_read crc (st_data s) pid of
            Inl e \<Rightarrow> Inl e
          | Inr None \<Rightarrow> Inr []
          | Inr (Some p) \<Rightarrow> Inr (page_payload p)))"

text \<open>The images the appends result in, built before anything is logged.\<close>

fun grow_pages ::
    "(bytes \<Rightarrow> u32) \<Rightarrow> store \<Rightarrow> page_append list \<Rightarrow> (u64 \<times> bytes) list \<Rightarrow>
     storage_error + (u64 \<times> bytes) list" where
  "grow_pages crc s [] grown = Inr grown"
| "grow_pages crc s (x # xs) grown =
    (case (case map_of grown (pa_page_id x) of
             Some b \<Rightarrow> Inr b
           | None \<Rightarrow> append_base crc (pa_page_id x) s) of
       Inl e \<Rightarrow> Inl e
     | Inr target \<Rightarrow>
         (case checked_add_usize (unat (pa_offset x)) (length (pa_payload x)) of
            None \<Rightarrow> Inl (PageTooLarge usize_max MAX_PAGE_PAYLOAD)
          | Some e \<Rightarrow>
              if e > MAX_PAGE_PAYLOAD then Inl (PageTooLarge e MAX_PAGE_PAYLOAD)
              else grow_pages crc s xs
                (AList.update (pa_page_id x) (splice target (unat (pa_offset x)) (pa_payload x)) grown)))"

fun append_tails ::
    "(bytes \<Rightarrow> u32) \<Rightarrow> page_append list \<Rightarrow> wal \<Rightarrow> (storage_error + u64 list) \<times> wal" where
  "append_tails crc [] w = (Inr [], w)"
| "append_tails crc (x # xs) w =
    try_then (append_page_tail crc (pa_page_id x) (pa_offset x) (pa_payload x) w) (\<lambda>lsn w.
    try_then (append_tails crc xs w) (\<lambda>lsns w.
    (Inr (lsn # lsns), w)))"

fun newest_lsns :: "(page_append \<times> u64) list \<Rightarrow> (u64 \<times> u64) list \<Rightarrow> (u64 \<times> u64) list" where
  "newest_lsns [] newest = newest"
| "newest_lsns ((x, lsn) # xs) newest = newest_lsns xs (AList.update (pa_page_id x) lsn newest)"

fun install_grown ::
    "(u64 \<times> bytes) list \<Rightarrow> (u64 \<times> u64) list \<Rightarrow> u64 list \<Rightarrow> store \<Rightarrow>
     (storage_error + unit) \<times> store" where
  "install_grown [] newest sealed s = (Inr (), s)"
| "install_grown ((pid, payload) # grown) newest sealed s =
    (case page_with_lsn pid (the (map_of newest pid)) payload of
       Inl e \<Rightarrow> (Inl e, s)
     | Inr p \<Rightarrow>
         let s = s\<lparr>dirty := AList.update pid p (dirty s)\<rparr>;
             s = (if pid \<in> set sealed
                  then s\<lparr>open_pages := removeAll pid (open_pages s), flush_queue := flush_queue s @ [pid]\<rparr>
                  else s\<lparr>open_pages := List.insert pid (open_pages s)\<rparr>)
         in install_grown grown newest sealed (s\<lparr>allocator := note_written pid (allocator s)\<rparr>))"

definition append_pages_inner ::
    "(bytes \<Rightarrow> u32) \<Rightarrow> page_append list \<Rightarrow> bool \<Rightarrow> store \<Rightarrow> (storage_error + u64 list) \<times> store" where
  "append_pages_inner crc appends durable s =
    (case grow_pages crc s appends [] of
       Inl e \<Rightarrow> (Inl e, s)
     | Inr grown \<Rightarrow>
         try_then (on_wal (append_tails crc appends) s) (\<lambda>lsns s.
         try_then (on_wal (append_batch_commit crc (length appends)) s) (\<lambda>_ s.
         try_then (if durable then on_wal wal_sync s else (Inr (), s)) (\<lambda>_ s.
         try_then (install_grown grown (newest_lsns (zip appends lsns) [])
             (map pa_page_id (filter pa_sealed appends)) s) (\<lambda>_ s.
         (Inr lsns, s))))))"

definition append_pages ::
    "(bytes \<Rightarrow> u32) \<Rightarrow> page_append list \<Rightarrow> store \<Rightarrow> (storage_error + u64 list) \<times> store" where
  "append_pages crc appends s =
    (if appends = [] then (Inr [], s)
     else if poisoned s then (Inl Poisoned, s)
     else poisoning (append_pages_inner crc appends True) s)"

definition apply_batch_inner ::
    "(bytes \<Rightarrow> u32) \<Rightarrow> page_write list \<Rightarrow> page_append list \<Rightarrow> bool \<Rightarrow> store \<Rightarrow>
     (storage_error + (u64 list \<times> u64 list)) \<times> store" where
  "apply_batch_inner crc writes appends durable s =
    try_then (if writes = [] then (Inr [], s) else write_pages_inner crc writes False s) (\<lambda>write_lsns s.
    try_then (if appends = [] then (Inr [], s) else append_pages_inner crc appends False s) (\<lambda>append_lsns s.
    try_then (if durable then on_wal wal_sync s else (Inr (), s)) (\<lambda>_ s.
    (Inr (write_lsns, append_lsns), s))))"

definition apply_batch ::
    "(bytes \<Rightarrow> u32) \<Rightarrow> page_write list \<Rightarrow> page_append list \<Rightarrow> bool \<Rightarrow> store \<Rightarrow>
     (storage_error + (u64 list \<times> u64 list)) \<times> store" where
  "apply_batch crc writes appends durable s =
    (if poisoned s then (Inl Poisoned, s)
     else poisoning (apply_batch_inner crc writes appends durable) s)"

section \<open>Flushing and checkpoints\<close>

text \<open>The pages a paced flush takes off the queue, and the queue it leaves.\<close>

fun take_pending ::
    "(u64 \<times> page) list \<Rightarrow> (u64 \<times> u64) list \<Rightarrow> nat \<Rightarrow> u64 list \<Rightarrow> page list \<times> u64 list" where
  "take_pending d fl budget [] = ([], [])"
| "take_pending d fl budget (pid # queue) =
    (if budget = 0 then ([], pid # queue)
     else case map_of d pid of
       None \<Rightarrow> take_pending d fl budget queue
     | Some p \<Rightarrow>
         if map_of fl pid = Some (page_lsn p) then take_pending d fl budget queue
         else case take_pending d fl (budget - 1) queue of (ps, rest) \<Rightarrow> (p # ps, rest))"

fun write_pending :: "(bytes \<Rightarrow> u32) \<Rightarrow> page list \<Rightarrow> store \<Rightarrow> (storage_error + unit) \<times> store" where
  "write_pending crc [] s = (Inr (), s)"
| "write_pending crc (p # ps) s =
    try_then (on_data (\<lambda>f. data_write crc f p) s) (\<lambda>_ s.
    write_pending crc ps (s\<lparr>flushed := AList.update (page_id p) (page_lsn p) (flushed s)\<rparr>))"

definition flush_some_dirty :: "(bytes \<Rightarrow> u32) \<Rightarrow> nat \<Rightarrow> store \<Rightarrow> (storage_error + nat) \<times> store" where
  "flush_some_dirty crc budget s =
    (if checkpoint_in_flight s then (Inr 0, s)
     else case take_pending (dirty s) (flushed s) budget (flush_queue s) of (pending, queue) \<Rightarrow>
       try_then (write_pending crc pending (s\<lparr>flush_queue := queue\<rparr>)) (\<lambda>_ s.
       (Inr (length pending), s)))"

lemma take_pending_length:
  "take_pending d fl budget queue = (ps, rest) \<Longrightarrow> length ps + length rest \<le> length queue"
  by (induction d fl budget queue arbitrary: ps rest rule: take_pending.induct)
    (fastforce split: if_splits option.splits prod.splits)+

lemma write_pending_queue:
  "write_pending crc ps s = (r, t) \<Longrightarrow> flush_queue t = flush_queue s"
  by (induction crc ps s arbitrary: r t rule: write_pending.induct)
    (auto simp: try_then_def on_data_def split: prod.splits sum.splits)

lemma flush_some_dirty_queue:
  assumes "flush_some_dirty crc budget s = (Inr n, t)" "n > 0"
  shows "length (flush_queue t) < length (flush_queue s)"
proof -
  obtain pending queue where q: "take_pending (dirty s) (flushed s) budget (flush_queue s) = (pending, queue)"
    by force
  from assms q have "length pending = n" "flush_queue t = queue"
    by (auto simp: flush_some_dirty_def try_then_def split: if_splits prod.splits sum.splits
        dest: write_pending_queue)
  with take_pending_length [OF q] assms(2) show ?thesis by simp
qed

function flush_all :: "(bytes \<Rightarrow> u32) \<Rightarrow> store \<Rightarrow> (storage_error + unit) \<times> store" where
  "flush_all crc s =
    (case flush_some_dirty crc usize_max s of
       (Inl e, s) \<Rightarrow> (Inl e, s)
     | (Inr n, t) \<Rightarrow> if n > 0 then flush_all crc t else (Inr (), t))"
  by pat_completeness auto
termination
  by (relation "measure (\<lambda>(crc, s). length (flush_queue s))")
    (auto dest: sym intro: flush_some_dirty_queue)

declare flush_all.simps [simp del]

definition checkpoint_inner :: "(bytes \<Rightarrow> u32) \<Rightarrow> store \<Rightarrow> (storage_error + u64) \<times> store" where
  "checkpoint_inner crc s =
    (let s = s\<lparr>flush_queue := flush_queue s @ open_pages s, open_pages := []\<rparr> in
     try_then (flush_all crc s) (\<lambda>_ s.
     try_then (on_data data_sync s) (\<lambda>_ s.
     try_then (on_wal (append_checkpoint crc) s) (\<lambda>lsn s.
     try_then (on_wal wal_sync s) (\<lambda>_ s.
     try_then (on_wal reset_after_checkpoint s) (\<lambda>_ s.
     (Inr lsn,
      s\<lparr>dirty := filter (\<lambda>(pid, p). map_of (flushed s) pid \<noteq> Some (page_lsn p)) (dirty s),
        flushed := []\<rparr>)))))))"

definition checkpoint :: "(bytes \<Rightarrow> u32) \<Rightarrow> store \<Rightarrow> (storage_error + u64) \<times> store" where
  "checkpoint crc s =
    (if poisoned s then (Inl Poisoned, s)
     else if checkpoint_in_flight s then
       (Inl (Configuration (Reason
         ''cannot run a full checkpoint while a background checkpoint is in flight'' [])), s)
     else poisoning (checkpoint_inner crc) s)"

definition wal_size_bytes :: "store \<Rightarrow> nat" where
  "wal_size_bytes s = size_bytes (st_wal s)"

section \<open>Background checkpoints\<close>

record background_checkpoint =
  bg_manifest :: "(u64 \<times> u64) list"
  bg_retired :: nat
  bg_boundary_lsn :: u64

definition can_begin_background_checkpoint :: "store \<Rightarrow> bool" where
  "can_begin_background_checkpoint s \<longleftrightarrow>
    \<not> checkpoint_in_flight s \<and> \<not> poisoned s \<and> can_rotate (st_wal s)"

definition begin_background_checkpoint ::
    "store \<Rightarrow> (storage_error + background_checkpoint) \<times> store" where
  "begin_background_checkpoint s =
    (if poisoned s then (Inl Poisoned, s)
     else if checkpoint_in_flight s then
       (Inl (Configuration (Reason ''a background checkpoint is already in flight'' [])), s)
     else try_then (on_wal rotate s) (\<lambda>boundary_lsn s.
       let manifest = map (\<lambda>(pid, p). (pid, page_lsn p)) (dirty s);
           s = s\<lparr>checkpoint_in_flight := True\<rparr> in
       (case retired_file (st_wal s) of
          Inl e \<Rightarrow> (Inl e, s)
        | Inr i \<Rightarrow>
            (Inr \<lparr>bg_manifest = manifest, bg_retired = i, bg_boundary_lsn = boundary_lsn\<rparr>, s))))"

text \<open>
  \<open>BackgroundCheckpoint::run\<close> holds no store lock, so other methods of the store may run between
  its chunks; \<open>run_chunk\<close> is the part of one chunk, whose reads of the dirty table happen under
  one read lock.
\<close>

fun write_chunk ::
    "(bytes \<Rightarrow> u32) \<Rightarrow> page list \<Rightarrow> store \<Rightarrow> (storage_error + (u64 \<times> u64) list) \<times> store" where
  "write_chunk crc [] s = (Inr [], s)"
| "write_chunk crc (p # ps) s =
    try_then (on_data (\<lambda>f. write_shared crc f p) s) (\<lambda>_ s.
    try_then (write_chunk crc ps s) (\<lambda>written s.
    (Inr ((page_id p, page_lsn p) # written), s)))"

definition unchanged_pages :: "(u64 \<times> u64) list \<Rightarrow> store \<Rightarrow> page list" where
  "unchanged_pages manifest_chunk s =
    List.map_filter (\<lambda>(pid, lsn).
      case dirty_get pid s of
        Some p \<Rightarrow> if page_lsn p = lsn then Some p else None
      | None \<Rightarrow> None) manifest_chunk"

definition run_chunk ::
    "(bytes \<Rightarrow> u32) \<Rightarrow> (u64 \<times> u64) list \<Rightarrow> store \<Rightarrow> (storage_error + (u64 \<times> u64) list) \<times> store" where
  "run_chunk crc manifest_chunk s = write_chunk crc (unchanged_pages manifest_chunk s) s"

definition CHUNK :: nat where "CHUNK = 64"

function chunks :: "nat \<Rightarrow> 'a list \<Rightarrow> 'a list list" where
  "chunks n xs = (if xs = [] \<or> n = 0 then [] else take n xs # chunks n (drop n xs))"
  by pat_completeness auto
termination
  by (relation "measure (\<lambda>(n, xs). length xs)") auto

declare chunks.simps [simp del]

fun run_chunks ::
    "(bytes \<Rightarrow> u32) \<Rightarrow> (u64 \<times> u64) list list \<Rightarrow> store \<Rightarrow>
     (storage_error + (u64 \<times> u64) list) \<times> store" where
  "run_chunks crc [] s = (Inr [], s)"
| "run_chunks crc (c # cs) s =
    try_then (run_chunk crc c s) (\<lambda>written s.
    try_then (run_chunks crc cs s) (\<lambda>more_written s.
    (Inr (written @ more_written), s)))"

definition seal_retired :: "background_checkpoint \<Rightarrow> store \<Rightarrow> (storage_error + unit) \<times> store" where
  "seal_retired job s = on_wal (on_segment (bg_retired job) (on_file seal_file)) s"

definition background_run ::
    "(bytes \<Rightarrow> u32) \<Rightarrow> background_checkpoint \<Rightarrow> store \<Rightarrow>
     (storage_error + (u64 \<times> u64) list) \<times> store" where
  "background_run crc job s =
    try_then (run_chunks crc (chunks CHUNK (bg_manifest job)) s) (\<lambda>written s.
    try_then (on_data data_sync s) (\<lambda>_ s.
    try_then (seal_retired job s) (\<lambda>_ s.
    (Inr written, s))))"

fun drop_written :: "(u64 \<times> u64) list \<Rightarrow> store \<Rightarrow> store" where
  "drop_written [] s = s"
| "drop_written ((pid, lsn) # written) s =
    (let s = (case dirty_get pid s of
                Some p \<Rightarrow> if page_lsn p = lsn then s\<lparr>dirty := AList.delete pid (dirty s)\<rparr> else s
              | None \<Rightarrow> s);
         s = (if map_of (flushed s) pid = Some lsn
              then s\<lparr>flushed := AList.delete pid (flushed s)\<rparr> else s)
     in drop_written written s)"

definition complete_background_checkpoint_inner ::
    "background_checkpoint \<Rightarrow> (u64 \<times> u64) list \<Rightarrow> store \<Rightarrow> (storage_error + unit) \<times> store" where
  "complete_background_checkpoint_inner job written s =
    try_then (on_wal (finish_recycle (bg_boundary_lsn job)) s) (\<lambda>_ s.
    (Inr (), drop_written written s))"

definition complete_background_checkpoint ::
    "background_checkpoint \<Rightarrow> (u64 \<times> u64) list \<Rightarrow> store \<Rightarrow> (storage_error + unit) \<times> store" where
  "complete_background_checkpoint job written s =
    (case complete_background_checkpoint_inner job written s of
       (r, s) \<Rightarrow>
         let s = s\<lparr>checkpoint_in_flight := False\<rparr> in
         (r, if is_ok r then s else s\<lparr>poisoned := True\<rparr>))"

definition abort_background_checkpoint :: "store \<Rightarrow> store" where
  "abort_background_checkpoint s = s\<lparr>checkpoint_in_flight := False\<rparr>"

section \<open>Recovery\<close>

record committed_write =
  cw_lsn :: u64
  cw_page_id :: u64
  cw_payload :: bytes
  cw_append_at :: "u32 option"

fun collect_committed ::
    "wal_record list \<Rightarrow> committed_write list \<Rightarrow> committed_write list \<Rightarrow>
     storage_error + committed_write list" where
  "collect_committed [] pending committed = Inr committed"
| "collect_committed (r # rs) pending committed =
    (case rec_kind r of
       PageImage pid payload \<Rightarrow>
         collect_committed rs
           (pending @ [\<lparr>cw_lsn = rec_lsn r, cw_page_id = pid, cw_payload = payload,
                        cw_append_at = None\<rparr>]) committed
     | PageAppend pid offset payload \<Rightarrow>
         collect_committed rs
           (pending @ [\<lparr>cw_lsn = rec_lsn r, cw_page_id = pid, cw_payload = payload,
                        cw_append_at = Some offset\<rparr>]) committed
     | BatchCommit n \<Rightarrow>
         if length pending < unat n
         then Inl (CorruptWal 0 (Reason
           ''batch commit declares {page_count} pages but only {} are pending''
           [unat n, length pending]))
         else collect_committed rs [] (committed @ drop (length pending - unat n) pending)
     | Checkpoint \<Rightarrow>
         Inl (CorruptWal 0 (Reason ''unexpected checkpoint after recovery boundary'' [])))"

definition committed_page_images :: "wal_record list \<Rightarrow> storage_error + committed_write list" where
  "committed_page_images records =
    (let start = (case rposition is_checkpoint records of None \<Rightarrow> 0 | Some position \<Rightarrow> position + 1)
     in collect_committed (drop start records) [] [])"

definition recover_write ::
    "(bytes \<Rightarrow> u32) \<Rightarrow> committed_write \<Rightarrow> os_file \<Rightarrow> (storage_error + bool) \<times> os_file" where
  "recover_write crc x f =
    (case (case data_read crc f (cw_page_id x) of
             Inr p \<Rightarrow> Inr p
           | Inl (CorruptPage pid reason) \<Rightarrow> Inr None
           | Inl e \<Rightarrow> Inl e) of
       Inl e \<Rightarrow> (Inl e, f)
     | Inr current \<Rightarrow>
         if (case current of None \<Rightarrow> False | Some p \<Rightarrow> page_lsn p \<ge> cw_lsn x) then (Inr False, f)
         else
           let payload = (case cw_append_at x of
                 Some offset \<Rightarrow>
                   splice (case current of None \<Rightarrow> [] | Some p \<Rightarrow> page_payload p)
                     (unat offset) (cw_payload x)
               | None \<Rightarrow> cw_payload x) in
           (case page_with_lsn (cw_page_id x) (cw_lsn x) payload of
              Inl e \<Rightarrow> (Inl e, f)
            | Inr p \<Rightarrow> try_then (data_write crc f p) (\<lambda>_ f. (Inr True, f))))"

fun recover_writes ::
    "(bytes \<Rightarrow> u32) \<Rightarrow> committed_write list \<Rightarrow> bool \<Rightarrow> os_file \<Rightarrow> (storage_error + bool) \<times> os_file" where
  "recover_writes crc [] wrote_page f = (Inr wrote_page, f)"
| "recover_writes crc (x # xs) wrote_page f =
    try_then (recover_write crc x f) (\<lambda>wrote f. recover_writes crc xs (wrote_page \<or> wrote) f)"

definition recover :: "(bytes \<Rightarrow> u32) \<Rightarrow> store \<Rightarrow> (storage_error + unit) \<times> store" where
  "recover crc s =
    (case committed_page_images (wal_records (st_wal s)) of
       Inl e \<Rightarrow> (Inl e, s)
     | Inr records \<Rightarrow>
         try_then (on_data (recover_writes crc records False) s) (\<lambda>wrote_page s.
         if wrote_page then on_data data_sync s else (Inr (), s)))"

definition calculate_next_page_id :: "store \<Rightarrow> storage_error + nat" where
  "calculate_next_page_id s =
    (case committed_page_images (wal_records (st_wal s)) of
       Inl e \<Rightarrow> Inl e
     | Inr records \<Rightarrow>
         Inr (max (page_count (st_data s))
           (fold (\<lambda>x. max (unat (saturating_add_u64 (cw_page_id x) 1))) records 0)))"

definition store_open ::
    "(bytes \<Rightarrow> u32) \<Rightarrow> os_file \<Rightarrow> os_file \<Rightarrow> os_file \<Rightarrow> storage_error + store" where
  "store_open crc data_f wal_f spare_f =
    (case data_open data_f of
       (Inl e, _) \<Rightarrow> Inl e
     | (Inr _, f) \<Rightarrow>
    (case wal_open crc wal_f spare_f of
       Inl e \<Rightarrow> Inl e
     | Inr w \<Rightarrow>
       let s = \<lparr>st_data = f, st_wal = w, dirty = [], flushed = [], flush_queue = [],
                allocator = \<lparr>next_page_id = 0, free_pages = []\<rparr>, open_pages = [],
                checkpoint_in_flight = False, poisoned = False\<rparr> in
       (case try_then (recover crc s) (\<lambda>_ s.
          case max_lsn crc (st_data s) of
            Inl e \<Rightarrow> (Inl e, s)
          | Inr maximum_page_lsn \<Rightarrow>
              try_then (on_wal (ensure_next_lsn_after maximum_page_lsn) s) (\<lambda>_ s.
              case calculate_next_page_id s of
                Inl e \<Rightarrow> (Inl e, s)
              | Inr n \<Rightarrow>
                  let s = s\<lparr>allocator := (allocator s)\<lparr>next_page_id := word_of_nat n\<rparr>\<rparr>;
                      s = s\<lparr>st_wal := trim_records_to_last_checkpoint (st_wal s)\<rparr> in
                  if both_segments_live (st_wal s)
                  then try_then (checkpoint crc s) (\<lambda>_ s. (Inr (), s))
                  else (Inr (), s))) of
          (Inl e, _) \<Rightarrow> Inl e
        | (Inr _, s) \<Rightarrow> Inr s)))"

end
