(* ===== verification/Wal_Log.thy ===== *)
theory Wal_Log
  imports Wal
begin

text \<open>
  What a segment holds, as a list of records: the encoding of a record, the round trip through
  the scan, the effect of appending, and what a crash leaves of a synced log.
\<close>

section \<open>The encoding of one record\<close>

definition record_bytes :: "(bytes \<Rightarrow> u32) \<Rightarrow> wal_record \<Rightarrow> bytes" where
  "record_bytes crc r =
    (case kind_fields (rec_kind r) of (record_type, pid, payload) \<Rightarrow>
       record_header crc (rec_lsn r) record_type pid payload @ payload)"

text \<open>The kinds the scan gives back: everything the log can hold and recover.\<close>

definition scannable :: "wal_kind \<Rightarrow> bool" where
  "scannable kind \<longleftrightarrow>
    (case kind_fields kind of (record_type, pid, payload) \<Rightarrow>
       length payload \<le> MAX_PAGE_PAYLOAD \<and> scan_kind record_type pid payload = Some kind)"

lemma scannable_simps [simp]:
  "scannable (PageImage pid payload) \<longleftrightarrow> pid \<noteq> NO_PAGE_ID \<and> length payload \<le> MAX_PAGE_PAYLOAD"
  "scannable (PageAppend pid offset payload) \<longleftrightarrow>
     pid \<noteq> NO_PAGE_ID \<and> length payload + 4 \<le> MAX_PAGE_PAYLOAD"
  "scannable (BatchCommit n) \<longleftrightarrow> n \<noteq> 0"
  "scannable Checkpoint"
  by (auto simp: scannable_def scan_kind_def Let_def read_u32_def slice_def MAX_PAGE_PAYLOAD_def
      PAGE_SIZE_def PAGE_HEADER_SIZE_def)

definition header_image :: "u64 \<Rightarrow> u8 \<Rightarrow> u64 \<Rightarrow> nat \<Rightarrow> bytes" where
  "header_image lsn record_type pid n =
     write_u64 (write_u64 (write_u32 (write_u32 ((write_u16 (patch (replicate WAL_HEADER_SIZE 0)
       0 WAL_MAGIC) 4 WAL_FORMAT_VERSION)[6 := record_type])
       8 (word_of_nat (WAL_HEADER_SIZE + n))) 12 (word_of_nat n)) 16 lsn) 24 pid"

lemmas wal_consts =
  WAL_MAGIC_def WAL_FORMAT_VERSION_def WAL_HEADER_SIZE_def WAL_CHECKSUM_OFFSET_def STOP_MARKER_def

lemma record_header_image:
  "record_header crc lsn ty pid payload =
    (let h = header_image lsn ty pid (length payload) in
     write_u32 h WAL_CHECKSUM_OFFSET (record_checksum crc h payload))"
  by (simp add: record_header_def header_image_def Let_def)

lemma slice_list_update_other:
  "i < a \<or> b \<le> i \<Longrightarrow> b \<le> length xs \<Longrightarrow> slice (xs[i := x]) a b = slice xs a b"
  by (auto intro!: nth_equalityI simp: nth_slice nth_list_update)

lemma length_header_image [simp]: "length (header_image lsn ty pid n) = 40"
  by (simp add: header_image_def field_defs wal_consts)

lemma length_record_header [simp]: "length (record_header crc lsn ty pid payload) = 40"
  by (simp add: record_header_image Let_def field_defs wal_consts)

lemma header_image_fields:
  "slice (header_image lsn ty pid n) 0 4 = WAL_MAGIC"
  "slice (header_image lsn ty pid n) 4 6 = le_u16 WAL_FORMAT_VERSION"
  "slice (header_image lsn ty pid n) 8 12 = le_u32 (word_of_nat (WAL_HEADER_SIZE + n))"
  "slice (header_image lsn ty pid n) 12 16 = le_u32 (word_of_nat n)"
  "slice (header_image lsn ty pid n) 16 24 = le_u64 lsn"
  "slice (header_image lsn ty pid n) 24 32 = le_u64 pid"
  "header_image lsn ty pid n ! 6 = ty"
  by (simp_all add: header_image_def field_defs wal_consts patch_simps slice_list_update_other nth_patch)

lemma record_checksum_ignores_field:
  "length h = 40 \<Longrightarrow> length v = 4 \<Longrightarrow>
    record_checksum crc (patch h 32 v) payload = record_checksum crc h payload"
  by (simp add: record_checksum_def wal_consts patch_simps)

lemma record_header_fields:
  fixes crc lsn ty pid payload
  defines "h \<equiv> record_header crc lsn ty pid payload"
  shows "slice h 0 4 = WAL_MAGIC" "read_u16 h 4 = WAL_FORMAT_VERSION"
    "read_u32 h 8 = word_of_nat (WAL_HEADER_SIZE + length payload)"
    "read_u32 h 12 = word_of_nat (length payload)"
    "read_u64 h 16 = lsn" "read_u64 h 24 = pid" "h ! 6 = ty"
    "read_u32 h WAL_CHECKSUM_OFFSET = record_checksum crc h payload"
  unfolding h_def record_header_image Let_def
  by (simp_all add: field_defs patch_simps header_image_fields record_checksum_ignores_field
      WAL_CHECKSUM_OFFSET_def nth_patch)

lemma length_record_bytes:
  "length (record_bytes crc r) = 40 + length (snd (snd (kind_fields (rec_kind r))))"
  by (simp add: record_bytes_def split: prod.splits)

lemma length_record_bytes_ge: "40 \<le> length (record_bytes crc r)"
  by (simp add: length_record_bytes)

section \<open>The scan reads records back\<close>

lemma scan_record_roundtrip:
  assumes img: "file_read f off (length (record_bytes crc r)) = record_bytes crc r"
    and room: "off + length (record_bytes crc r) \<le> flen f"
    and ok: "scannable (rec_kind r)" and mono: "previous < rec_lsn r"
  shows "scan_record crc f off previous = Some (r, length (record_bytes crc r))"
proof -
  obtain ty pid payload where k: "kind_fields (rec_kind r) = (ty, pid, payload)"
    by (cases "kind_fields (rec_kind r)") auto
  let ?h = "record_header crc (rec_lsn r) ty pid payload"
  have b: "record_bytes crc r = ?h @ payload" by (simp add: record_bytes_def k)
  have small: "length payload \<le> 8128" and sk: "scan_kind ty pid payload = Some (rec_kind r)"
    using ok by (simp_all add: scannable_def k page_consts)
  have split: "file_read f off 40 @ file_read f (off + 40) (length payload) = ?h @ payload"
    using img by (simp add: b file_read_append)
  then have h: "file_read f off 40 = ?h" and p: "file_read f (off + 40) (length payload) = payload"
    by (simp_all add: append_eq_append_conv)
  have n: "unat (word_of_nat (length payload) :: u32) = length payload"
    "unat (word_of_nat (40 + length payload) :: u32) = 40 + length payload"
    using small by (auto intro!: unat_word_of_nat_u32 simp del: of_nat_add)
  have nz: "rec_lsn r \<noteq> 0" using mono by auto
  show ?thesis
    using room mono nz small n sk
    by (simp add: scan_record_def read_exact_at_def h p b record_header_fields Let_def
        WAL_HEADER_SIZE_def page_consts not_le)
qed

text \<open>The records of a scan have rising LSNs, and each is found again in any file that agrees
  with the scanned one on the bytes of the log.\<close>

fun lsns_rise :: "u64 \<Rightarrow> wal_record list \<Rightarrow> bool" where
  "lsns_rise previous [] = True"
| "lsns_rise previous (r # rs) = (previous < rec_lsn r \<and> lsns_rise (rec_lsn r) rs)"

definition last_lsn :: "u64 \<Rightarrow> wal_record list \<Rightarrow> u64" where
  "last_lsn previous rs = (if rs = [] then previous else rec_lsn (last rs))"

lemma last_lsn_simps [simp]:
  "last_lsn previous [] = previous"
  "last_lsn previous (r # rs) = last_lsn (rec_lsn r) rs"
  "last_lsn previous (rs @ [r]) = rec_lsn r"
  by (simp_all add: last_lsn_def)

lemma lsns_rise_append:
  "lsns_rise previous (rs @ rs') \<longleftrightarrow> lsns_rise previous rs \<and> lsns_rise (last_lsn previous rs) rs'"
  by (induction rs arbitrary: previous) auto

lemma lsns_rise_last: "lsns_rise previous rs \<Longrightarrow> previous \<le> last_lsn previous rs"
  by (induction rs arbitrary: previous) (auto dest: order.strict_implies_order order.trans)

lemma lsns_rise_bounds:
  "lsns_rise previous rs \<Longrightarrow> r \<in> set rs \<Longrightarrow> previous < rec_lsn r \<and> rec_lsn r \<le> last_lsn previous rs"
  by (induction rs arbitrary: previous) (auto dest: lsns_rise_last order.strict_trans)

text \<open>What the scan checks of a header and its payload.\<close>

definition valid_record :: "(bytes \<Rightarrow> u32) \<Rightarrow> bytes \<Rightarrow> bytes \<Rightarrow> u64 \<Rightarrow> wal_record \<Rightarrow> bool" where
  "valid_record crc header payload previous r \<longleftrightarrow>
    slice header 0 4 = WAL_MAGIC \<and> read_u16 header 4 = WAL_FORMAT_VERSION \<and>
    unat (read_u32 header 8) = 40 + length payload \<and> length payload \<le> MAX_PAGE_PAYLOAD \<and>
    unat (read_u32 header 12) = length payload \<and>
    read_u32 header WAL_CHECKSUM_OFFSET = record_checksum crc header payload \<and>
    rec_lsn r = read_u64 header 16 \<and> rec_lsn r \<noteq> 0 \<and> previous < rec_lsn r \<and>
    scan_kind (header ! 6) (read_u64 header 24) payload = Some (rec_kind r)"

lemma scan_record_iff:
  "scan_record crc f off previous = Some (r, n) \<longleftrightarrow>
    40 \<le> n \<and> off + n \<le> flen f \<and>
    valid_record crc (file_read f off 40) (file_read f (off + 40) (n - 40)) previous r"
  (is "?l \<longleftrightarrow> ?r")
proof
  assume l: ?l
  let ?m = "unat (read_u32 (file_read f off 40) 12)"
  have n: "n = 40 + ?m"
    using l by (simp add: scan_record_def read_exact_at_def Let_def WAL_HEADER_SIZE_def
        split: option.split_asm if_split_asm)
  show ?r
    using l unfolding n
    by (simp add: scan_record_def read_exact_at_def Let_def WAL_HEADER_SIZE_def valid_record_def not_le
        split: option.split_asm if_split_asm) auto
next
  assume r: ?r
  then obtain m where n: "n = 40 + m" by (metis le_Suc_ex)
  let ?h = "file_read f off 40"
  have "read_exact_at f 40 off = Some ?h" "read_exact_at f m (off + 40) = Some (file_read f (off + 40) m)"
    using r n by (simp_all add: read_exact_at_def)
  moreover have "\<not> read_u64 ?h 16 \<le> previous" "read_u64 ?h 16 \<noteq> 0"
    using r by (auto simp: valid_record_def)
  ultimately show ?l
    using r n by (auto simp: scan_record_def Let_def WAL_HEADER_SIZE_def valid_record_def)
qed

lemma scan_record_local:
  assumes "scan_record crc f off previous = Some (r, n)"
    and "\<And>i. off \<le> i \<Longrightarrow> i < off + n \<Longrightarrow> fdata g i = fdata f i" and "off + n \<le> flen g"
  shows "scan_record crc g off previous = Some (r, n)"
proof -
  have "40 \<le> n" using assms(1) by (simp add: scan_record_iff)
  then have "file_read g off 40 = file_read f off 40"
    "file_read g (off + 40) (n - 40) = file_read f (off + 40) (n - 40)"
    by (auto intro!: file_read_cong assms(2))
  then show ?thesis using assms(1,3) by (simp add: scan_record_iff)
qed

lemma scan_record_cong:
  assumes "\<And>i. i < flen f \<Longrightarrow> fdata g i = fdata f i" "flen g = flen f"
  shows "scan_record crc g off previous = scan_record crc f off previous"
proof -
  have "scan_record crc g off previous = Some (r, n) \<longleftrightarrow> scan_record crc f off previous = Some (r, n)" for r n
  proof
    assume a: "scan_record crc g off previous = Some (r, n)"
    then have n: "off + n \<le> flen f" using assms(2) by (simp add: scan_record_iff)
    then show "scan_record crc f off previous = Some (r, n)"
      by (intro scan_record_local [OF a]) (simp_all add: assms(1))
  next
    assume a: "scan_record crc f off previous = Some (r, n)"
    then have n: "off + n \<le> flen f" by (simp add: scan_record_iff)
    then show "scan_record crc g off previous = Some (r, n)"
      by (intro scan_record_local [OF a]) (simp_all add: assms)
  qed
  then show ?thesis by (metis option.exhaust surj_pair)
qed

lemma scan_loop_unfold:
  "scan_record crc f off previous = None \<Longrightarrow> scan_loop crc f off previous = ([], off)"
  "scan_record crc f off previous = Some (r, n) \<Longrightarrow>
    scan_loop crc f (off + n) (rec_lsn r) = (rs, e) \<Longrightarrow> scan_loop crc f off previous = (r # rs, e)"
  by (simp_all add: scan_loop.simps [of crc f off previous])

lemma scan_loop_induct [consumes 1, case_names stop more]:
  assumes "scan_loop crc f off previous = (rs, e)"
    and "\<And>off previous. scan_record crc f off previous = None \<Longrightarrow> P off previous [] off"
    and "\<And>off previous r n rs e. scan_record crc f off previous = Some (r, n) \<Longrightarrow>
      scan_loop crc f (off + n) (rec_lsn r) = (rs, e) \<Longrightarrow> P (off + n) (rec_lsn r) rs e \<Longrightarrow>
      P off previous (r # rs) e"
  shows "P off previous rs e"
  using assms
proof (induction crc f off previous arbitrary: rs e rule: scan_loop.induct)
  case (1 crc f off previous)
  show ?case
  proof (cases "scan_record crc f off previous")
    case None
    then show ?thesis using "1.prems" by (simp add: scan_loop_unfold(1))
  next
    case (Some x)
    obtain r n where x: "x = (r, n)" by force
    obtain rs' e' where rest: "scan_loop crc f (off + n) (rec_lsn r) = (rs', e')" by force
    have "rs = r # rs'" "e = e'"
      using scan_loop_unfold(2) [of crc f off previous r n] Some x rest "1.prems"(1) by simp_all
    moreover have "P (off + n) (rec_lsn r) rs' e'"
      using "1.IH" [OF Some _ rest] x "1.prems"(2,3) by blast
    ultimately show ?thesis using "1.prems"(3) Some x rest by blast
  qed
qed

lemma scan_loop_rise: "scan_loop crc f off previous = (rs, e) \<Longrightarrow> lsns_rise previous rs"
  by (induction rule: scan_loop_induct) (auto simp: scan_record_iff valid_record_def)

lemma scan_loop_end:
  "scan_loop crc f off previous = (rs, e) \<Longrightarrow> off \<le> flen f \<Longrightarrow> off \<le> e \<and> e \<le> flen f"
  by (induction rule: scan_loop_induct) (auto simp: scan_record_iff)

lemma scan_loop_stops:
  "scan_loop crc f off previous = (rs, e) \<Longrightarrow> scan_record crc f e (last_lsn previous rs) = None"
  by (induction rule: scan_loop_induct) auto

lemma scan_loop_local:
  assumes "scan_loop crc f off previous = (rs, e)" "e \<le> flen g"
    "\<And>i. off \<le> i \<Longrightarrow> i < e \<Longrightarrow> fdata g i = fdata f i" "off \<le> flen f"
    "scan_loop crc g e (last_lsn previous rs) = (extra, e')"
  shows "scan_loop crc g off previous = (rs @ extra, e')"
  using assms
proof (induction rule: scan_loop_induct)
  case (stop off previous)
  from stop.prems(4) show ?case by simp
next
  case (more off previous r n rs e)
  have n: "off + n \<le> flen f" using more.hyps(1) by (simp add: scan_record_iff)
  then have e: "off + n \<le> e" using scan_loop_end [OF more.hyps(2)] by simp
  have sr: "scan_record crc g off previous = Some (r, n)"
  proof (rule scan_record_local [OF more.hyps(1)])
    show "fdata g i = fdata f i" if "off \<le> i" "i < off + n" for i
      using more.prems(2) [of i] that e by simp
    show "off + n \<le> flen g" using e more.prems(1) by simp
  qed
  have "scan_loop crc g (off + n) (rec_lsn r) = (rs @ extra, e')"
  proof (rule more.IH)
    show "fdata g i = fdata f i" if "off + n \<le> i" "i < e" for i
      using more.prems(2) [of i] that by simp
    show "scan_loop crc g e (last_lsn (rec_lsn r) rs) = (extra, e')" using more.prems(4) by simp
  qed (use more.prems(1) n in simp_all)
  then show ?case by (simp add: scan_loop_unfold(2) [OF sr])
qed

lemma scan_loop_extend:
  assumes "scan_loop crc f 0 0 = (rs, e)" "e \<le> flen g" "\<And>i. i < e \<Longrightarrow> fdata g i = fdata f i"
    "scan_loop crc g e (last_lsn 0 rs) = (extra, e')"
  shows "scan_loop crc g 0 0 = (rs @ extra, e')"
  by (rule scan_loop_local [OF assms(1,2) _ _ assms(4)]) (simp_all add: assms(3))

lemma scan_loop_cong:
  assumes eq: "\<And>i. i < flen f \<Longrightarrow> fdata g i = fdata f i" "flen g = flen f"
  shows "scan_loop crc g 0 0 = scan_loop crc f 0 0"
proof -
  obtain rs e where rs: "scan_loop crc f 0 0 = (rs, e)" by force
  have "scan_loop crc g e (last_lsn 0 rs) = ([], e)"
    using scan_loop_stops [OF rs] by (simp add: scan_loop_unfold(1) scan_record_cong [OF eq])
  then have "scan_loop crc g 0 0 = (rs @ [], e)"
    by (rule scan_loop_extend [OF rs, rotated 2]) (use scan_loop_end [OF rs] eq in simp_all)
  then show ?thesis using rs by simp
qed

lemma scan_record_stop:
  assumes "off + 4 \<le> flen f \<Longrightarrow> file_read f off 4 = STOP_MARKER"
  shows "scan_record crc f off previous = None"
proof (cases "off + 40 \<le> flen f")
  case True
  then have "slice (file_read f off 40) 0 4 \<noteq> WAL_MAGIC"
    using assms by (simp add: slice_file_read wal_consts)
  with True show ?thesis by (simp add: scan_record_def read_exact_at_def WAL_HEADER_SIZE_def)
qed (simp add: scan_record_def WAL_HEADER_SIZE_def)

section \<open>What a segment holds\<close>

definition seg_ok :: "segment \<Rightarrow> bool" where
  "seg_ok seg \<longleftrightarrow> file_length seg = flen (seg_file seg) \<and> end_offset seg \<le> allocated_offset seg"

definition seg_log :: "(bytes \<Rightarrow> u32) \<Rightarrow> segment \<Rightarrow> wal_record list \<Rightarrow> bool" where
  "seg_log crc seg rs \<longleftrightarrow>
    scan_loop crc (seg_file seg) 0 0 = (rs, end_offset seg) \<and> seg_ok seg"

lemma seg_logD:
  assumes "seg_log crc seg rs"
  shows "scan_loop crc (seg_file seg) 0 0 = (rs, end_offset seg)" "seg_ok seg"
    "file_length seg = flen (seg_file seg)" "end_offset seg \<le> allocated_offset seg"
    "end_offset seg \<le> flen (seg_file seg)" "lsns_rise 0 rs"
  using assms scan_loop_end [of crc "seg_file seg" 0 0 rs "end_offset seg"]
    scan_loop_rise [of crc "seg_file seg" 0 0 rs "end_offset seg"]
  by (auto simp: seg_log_def seg_ok_def)

text \<open>Bytes below an offset that are on stable storage and have not been written since.\<close>

definition durable_to :: "nat \<Rightarrow> os_file \<Rightarrow> bool" where
  "durable_to n f \<longleftrightarrow> n \<le> flen f \<and> n \<le> synced_len f \<and> unsynced f \<inter> {..<n} = {}"

lemma crash_keeps_durable:
  assumes "durable_to n f" "crash_image f g"
  shows "n \<le> flen g" and "i < n \<Longrightarrow> fdata g i = fdata f i"
  using assms by (auto simp: durable_to_def crash_image_def)

section \<open>Appending writes only behind the log\<close>

definition kept :: "nat \<Rightarrow> os_file \<Rightarrow> os_file \<Rightarrow> bool" where
  "kept n f g \<longleftrightarrow> flen f \<le> flen g \<and> (\<forall>i. i < n \<longrightarrow> i < flen f \<longrightarrow> fdata g i = fdata f i) \<and>
    unsynced g \<subseteq> unsynced f \<union> {n..} \<and> synced_len g = synced_len f"

lemma kept_refl [simp]: "kept n f f"
  by (simp add: kept_def)

lemma kept_trans: "kept n f g \<Longrightarrow> kept n g h \<Longrightarrow> kept n f h"
  by (fastforce simp: kept_def)

lemma kept_mono: "kept n f g \<Longrightarrow> m \<le> n \<Longrightarrow> kept m f g"
  by (fastforce simp: kept_def)

lemma kept_drop_outcome [simp]: "kept n f (drop_outcome g) = kept n f g"
  "kept n (drop_outcome f) g = kept n f g"
  by (simp_all add: kept_def)

lemma kept_file_put: "n \<le> off \<Longrightarrow> kept n f (file_put f buf off)"
  by (auto simp: kept_def fdata_file_put)

lemma kept_write: "n \<le> off \<Longrightarrow> kept n f (snd (write_all_at f buf off))"
  using kept_file_put [of n off "drop_outcome f"]
  by (auto simp: write_all_at_def split: io_outcome.splits)

lemma kept_set_len: "flen f \<le> m \<Longrightarrow> kept n f (snd (set_len f m))"
  by (auto simp: set_len_def kept_def split: io_outcome.splits)

lemma kept_zero_fill: "n \<le> off \<Longrightarrow> kept n f (snd (zero_fill f off to))"
proof (induction f off to rule: zero_fill.induct)
  case (1 f off to)
  let ?step = "min (to - off) ZERO_FILL_CHUNK"
  obtain r g where w: "write_all_at f (replicate ?step 0) off = (r, g)" by force
  have g: "kept n f g" using kept_write [OF "1.prems", of f "replicate ?step 0"] w by simp
  show ?case
  proof (cases "off < to")
    case True
    show ?thesis
    proof (cases r)
      case (Inl e)
      then show ?thesis
        by (subst zero_fill.simps) (simp add: True w g Let_def)
    next
      case (Inr u)
      have "kept n g (snd (zero_fill g (off + ?step) to))"
        using "1.IH" [OF True refl _ _ ] w Inr "1.prems" by (metis trans_le_add1)
      then show ?thesis
        by (subst zero_fill.simps) (simp add: True w Inr Let_def kept_trans [OF g])
    qed
  next
    case False
    then show ?thesis by (subst zero_fill.simps) simp
  qed
qed

lemma zero_fill_len:
  "to \<le> flen f \<Longrightarrow> flen (snd (zero_fill f off to)) = flen f"
proof (induction f off to rule: zero_fill.induct)
  case (1 f off to)
  let ?step = "min (to - off) ZERO_FILL_CHUNK"
  obtain r g where w: "write_all_at f (replicate ?step 0) off = (r, g)" by force
  have "flen g = flen f" if "off < to"
    using w that "1.prems" by (auto simp: write_all_at_def split: io_outcome.splits)
  then show ?case
    using "1.IH" [OF _ refl] w "1.prems"
    by (subst zero_fill.simps) (auto simp: Let_def split: sum.splits)
qed

lemma durable_kept: "durable_to n f \<Longrightarrow> kept m f g \<Longrightarrow> n \<le> m \<Longrightarrow> durable_to n g"
  by (fastforce simp: durable_to_def kept_def)

lemma on_file_sel [simp]:
  "seg_file (snd (on_file op seg)) = snd (op (seg_file seg))"
  "end_offset (snd (on_file op seg)) = end_offset seg"
  "file_length (snd (on_file op seg)) = file_length seg"
  "allocated_offset (snd (on_file op seg)) = allocated_offset seg"
  "fst (on_file op seg) = fst (op (seg_file seg))"
  by (simp_all add: on_file_def split: prod.splits)

lemma on_file_okE:
  assumes "on_file op seg = (Inr a, seg')"
  obtains f where "op (seg_file seg) = (Inr a, f)" "seg' = seg\<lparr>seg_file := f\<rparr>"
  using assms by (auto simp: on_file_def split: prod.splits)

text \<open>A step of a segment writes nothing below \<open>n\<close>, whether it succeeds or fails.\<close>

definition seg_kept :: "nat \<Rightarrow> segment \<Rightarrow> segment \<Rightarrow> bool" where
  "seg_kept n seg seg' \<longleftrightarrow> kept n (seg_file seg) (seg_file seg')"

lemma seg_kept_simps [simp]:
  "seg_kept n s s"
  "seg_kept n s (t\<lparr>file_length := a\<rparr>) = seg_kept n s t"
  "seg_kept n s (t\<lparr>allocated_offset := a\<rparr>) = seg_kept n s t"
  "seg_kept n s (t\<lparr>end_offset := a\<rparr>) = seg_kept n s t"
  by (simp_all add: seg_kept_def)

lemma seg_kept_try:
  assumes "seg_kept n s (snd m)" "\<And>a t. m = (Inr a, t) \<Longrightarrow> seg_kept n t (snd (k a t))"
  shows "seg_kept n s (snd (try_then m k))"
proof (cases m)
  case (Pair r t)
  with assms show ?thesis
    by (cases r) (auto simp: seg_kept_def intro: kept_trans)
qed

lemma seg_kept_on_file:
  "kept n (seg_file s) (snd (op (seg_file s))) \<Longrightarrow> seg_kept n s (snd (on_file op s))"
  by (simp add: seg_kept_def)

lemma grow_file_kept:
  assumes "file_length seg = flen (seg_file seg)"
  shows "seg_kept n seg (snd (grow_file needed seg))"
  unfolding grow_file_def Let_def
  using assms kept_set_len [of "seg_file seg" "needed + WAL_PREALLOCATE_BYTES" n]
  by (auto intro!: seg_kept_try seg_kept_on_file)

lemma fill_ahead_kept:
  assumes "n \<le> allocated_offset seg"
  shows "seg_kept n seg (snd (fill_ahead needed seg))"
  unfolding fill_ahead_def Let_def
  using assms by (auto intro!: seg_kept_try seg_kept_on_file kept_zero_fill)

lemma grow_file_selD:
  "grow_file needed seg = (r, t) \<Longrightarrow>
    end_offset t = end_offset seg \<and> allocated_offset t = allocated_offset seg"
  by (auto simp: grow_file_def Let_def on_file_def try_then_def split: prod.splits sum.splits if_splits)

lemma fill_ahead_selD: "fill_ahead needed seg = (r, t) \<Longrightarrow> end_offset t = end_offset seg"
  by (auto simp: fill_ahead_def Let_def on_file_def try_then_def split: prod.splits sum.splits if_splits)

lemma on_file_selD: "on_file op seg = (r, t) \<Longrightarrow> end_offset t = end_offset seg"
  by (auto simp: on_file_def split: prod.splits)

lemmas seg_selDs = grow_file_selD fill_ahead_selD on_file_selD

lemma append_record_kept:
  assumes "file_length seg = flen (seg_file seg)" "end_offset seg \<le> allocated_offset seg"
  shows "kept (end_offset seg) (seg_file seg) (seg_file (snd (append_record seg header payload)))"
proof -
  let ?n = "end_offset seg"
  have "seg_kept ?n seg (snd (append_record seg header payload))"
    unfolding append_record_def Let_def
    using assms
    by (auto intro!: seg_kept_try seg_kept_on_file kept_write grow_file_kept fill_ahead_kept
        dest!: seg_selDs)
  then show ?thesis by (simp add: seg_kept_def)
qed

section \<open>Appending extends the log\<close>

lemma grow_file_ok:
  assumes "grow_file needed seg = (Inr u, t)" "file_length seg = flen (seg_file seg)"
  shows "file_length t = flen (seg_file t)" "needed \<le> file_length t"
  using assms
  by (auto simp: grow_file_def Let_def on_file_def try_then_def
      split: prod.splits sum.splits if_splits dest: set_len_okD)

lemma fill_ahead_ok:
  assumes "fill_ahead needed seg = (Inr u, t)" "file_length seg = flen (seg_file seg)"
    "needed \<le> file_length seg"
  shows "file_length t = flen (seg_file t)" "needed \<le> allocated_offset t" "needed \<le> file_length t"
proof -
  have "flen (snd (zero_fill (seg_file seg) (allocated_offset seg)
     (min (needed + WAL_ZERO_FILL_AHEAD) (file_length seg)))) = flen (seg_file seg)"
    using assms by (intro zero_fill_len) simp
  then show "file_length t = flen (seg_file t)" "needed \<le> allocated_offset t" "needed \<le> file_length t"
    using assms
    by (auto simp: fill_ahead_def Let_def on_file_def try_then_def
        split: prod.splits sum.splits if_splits)
qed

text \<open>The shape of a successful append: the file holds the header, the payload and the stop marker.\<close>

lemma append_record_okE:
  assumes ok: "append_record seg header payload = (Inr u, seg')"
    and inv: "file_length seg = flen (seg_file seg)" "end_offset seg \<le> allocated_offset seg"
    and hl: "length header = 40"
  obtains g where "flen g = file_length seg'" "end_offset seg + 40 + length payload + 4 \<le> flen g"
    "seg_file seg' = file_put (drop_outcome (file_put (drop_outcome (file_put (drop_outcome g) header
        (end_offset seg))) payload (end_offset seg + 40))) STOP_MARKER (end_offset seg + (40 + length payload))"
    "kept (end_offset seg) (seg_file seg) g"
    "end_offset seg' = end_offset seg + (40 + length payload)"
    "end_offset seg' \<le> allocated_offset seg'"
proof -
  let ?needed = "end_offset seg + (WAL_HEADER_SIZE + length payload) + length STOP_MARKER"
  from ok obtain a s b t c u' d v x w where
    g: "grow_file ?needed seg = (Inr a, s)" and f: "fill_ahead ?needed s = (Inr b, t)" and
    h: "on_file (\<lambda>f. write_all_at f header (end_offset t)) t = (Inr c, u')" and
    p: "on_file (\<lambda>f. write_all_at f payload (end_offset u' + WAL_HEADER_SIZE)) u' = (Inr d, v)" and
    m: "on_file (\<lambda>f. write_all_at f STOP_MARKER (end_offset seg + (WAL_HEADER_SIZE + length payload))) v
        = (Inr x, w)" and
    fin: "seg' = w\<lparr>end_offset := end_offset seg + (WAL_HEADER_SIZE + length payload)\<rparr>"
    by (auto simp: append_record_def Let_def elim!: try_then_okE split: if_splits)
  note sel = g [THEN grow_file_selD] f [THEN fill_ahead_selD]
  note okg = grow_file_ok [OF g inv(1)]
  note okf = fill_ahead_ok [OF f okg]
  have ends: "end_offset t = end_offset seg" using sel by simp
  from h obtain u1 where u1: "u' = t\<lparr>seg_file := file_put (drop_outcome (seg_file t)) header (end_offset seg)\<rparr>"
    by (auto elim!: on_file_okE dest!: write_all_at_okD simp: ends)
  from p u1 have v1: "v = u'\<lparr>seg_file := file_put (drop_outcome (seg_file u')) payload (end_offset seg + 40)\<rparr>"
    by (auto elim!: on_file_okE dest!: write_all_at_okD simp: ends WAL_HEADER_SIZE_def)
  from m have w1: "w = v\<lparr>seg_file := file_put (drop_outcome (seg_file v)) STOP_MARKER
       (end_offset seg + (40 + length payload))\<rparr>"
    by (auto elim!: on_file_okE dest!: write_all_at_okD simp: WAL_HEADER_SIZE_def)
  have "kept (end_offset seg) (seg_file seg) (seg_file s)"
    using grow_file_kept [OF inv(1), of "end_offset seg" ?needed] g by (simp add: seg_kept_def)
  moreover have "kept (end_offset seg) (seg_file s) (seg_file t)"
    using fill_ahead_kept [of "end_offset seg" s ?needed] f sel inv(2) by (simp add: seg_kept_def)
  ultimately have "kept (end_offset seg) (seg_file seg) (seg_file t)" by (rule kept_trans)
  then show thesis
    using that [of "seg_file t"] okf u1 v1 w1 fin by (simp add: wal_consts)
qed

lemma append_record_reads:
  assumes inv: "seg_log crc seg rs"
    and ok: "append_record seg (record_header crc lsn ty pid payload) payload = (Inr u, seg')"
    and k: "kind_fields kind = (ty, pid, payload)"
  defines "n \<equiv> end_offset seg" and "f \<equiv> seg_file seg'"
    and "r \<equiv> \<lparr>rec_lsn = lsn, rec_kind = kind\<rparr>"
  shows "\<And>i. i < n \<Longrightarrow> fdata f i = fdata (seg_file seg) i"
    and "file_read f n (length (record_bytes crc r)) = record_bytes crc r"
    and "file_read f (end_offset seg') 4 = STOP_MARKER"
    and "end_offset seg' = n + length (record_bytes crc r)" "end_offset seg' + 4 \<le> flen f"
    and "seg_ok seg'"
proof -
  let ?h = "record_header crc lsn ty pid payload"
  note sl = seg_logD [OF inv]
  from append_record_okE [OF ok sl(3,4) length_record_header] obtain g where
    g: "flen g = file_length seg'" "n + 40 + length payload + 4 \<le> flen g"
    "f = file_put (drop_outcome (file_put (drop_outcome (file_put (drop_outcome g) ?h n))
        payload (n + 40))) STOP_MARKER (n + (40 + length payload))"
    "kept n (seg_file seg) g" "end_offset seg' = n + (40 + length payload)"
    "end_offset seg' \<le> allocated_offset seg'"
    unfolding n_def f_def by blast
  have b: "record_bytes crc r = ?h @ payload" by (simp add: record_bytes_def k r_def)
  show "fdata f i = fdata (seg_file seg) i" if "i < n" for i
    using that g(4) sl(5) unfolding g(3) n_def by (auto simp: fdata_file_put kept_def)
  have "file_read f n 40 = ?h" "file_read f (n + 40) (length payload) = payload"
    using g(2) unfolding g(3) by (auto intro!: nth_equalityI simp: fdata_file_put STOP_MARKER_def)
  then show "file_read f n (length (record_bytes crc r)) = record_bytes crc r"
    by (simp add: b file_read_append)
  show "file_read f (end_offset seg') 4 = STOP_MARKER"
    unfolding g(3) g(5) by (auto intro!: nth_equalityI simp: fdata_file_put STOP_MARKER_def)
  show "end_offset seg' = n + length (record_bytes crc r)" using g(5) by (simp add: b)
  have len: "flen f = flen g" using g(2) unfolding g(3) by (auto simp: STOP_MARKER_def)
  then show "end_offset seg' + 4 \<le> flen f" using g(2,5) by simp
  show "seg_ok seg'" using g(1,6) len by (simp add: seg_ok_def f_def)
qed

lemma append_record_log:
  assumes log: "seg_log crc seg rs" and r: "scannable kind" "last_lsn 0 rs < lsn"
    and k: "kind_fields kind = (ty, pid, payload)"
    and ok: "append_record seg (record_header crc lsn ty pid payload) payload = (Inr u, seg')"
  shows "seg_log crc seg' (rs @ [\<lparr>rec_lsn = lsn, rec_kind = kind\<rparr>])"
proof -
  let ?r = "\<lparr>rec_lsn = lsn, rec_kind = kind\<rparr>" and ?f = "seg_file seg'"
  note rd = append_record_reads [OF log ok k] and sl = seg_logD [OF log]
  have "scan_record crc ?f (end_offset seg) (last_lsn 0 rs) = Some (?r, length (record_bytes crc ?r))"
    using r rd(2,4,5) by (intro scan_record_roundtrip) auto
  moreover have "scan_loop crc ?f (end_offset seg') lsn = ([], end_offset seg')"
    using rd(3) by (intro scan_loop_unfold(1) scan_record_stop) simp
  ultimately have "scan_loop crc ?f (end_offset seg) (last_lsn 0 rs) = ([?r], end_offset seg')"
    using rd(4) by (simp add: scan_loop_unfold(2))
  then have "scan_loop crc ?f 0 0 = (rs @ [?r], end_offset seg')"
    using rd(1,4,5) by (intro scan_loop_extend [OF sl(1)]) auto
  then show ?thesis using rd(6) by (simp add: seg_log_def)
qed

section \<open>The two-segment log\<close>

text \<open>
  \<open>wal_logs crc w L\<close>: segment \<open>i\<close> holds the log \<open>L i\<close>, and the next LSN is above every logged one.
\<close>

definition wal_logs :: "(bytes \<Rightarrow> u32) \<Rightarrow> wal \<Rightarrow> (nat \<Rightarrow> wal_record list) \<Rightarrow> bool" where
  "wal_logs crc w L \<longleftrightarrow>
    active w < 2 \<and> 0 < next_lsn w \<and>
    (\<forall>i<2. seg_log crc (segment_at w i) (L i) \<and> last_lsn 0 (L i) < next_lsn w)"

lemma segment_at_simps [simp]:
  "segment_at (w\<lparr>next_lsn := a\<rparr>) i = segment_at w i"
  "segment_at (w\<lparr>wal_records := b\<rparr>) i = segment_at w i"
  "segment_at (w\<lparr>active := c\<rparr>) i = segment_at w i"
  "segment_at (w\<lparr>retired := d\<rparr>) i = segment_at w i"
  "i < 2 \<Longrightarrow> j < 2 \<Longrightarrow> segment_at (set_segment i seg w) j = (if i = j then seg else segment_at w j)"
  by (auto simp: segment_at_def set_segment_def)

lemma set_segment_sel [simp]:
  "active (set_segment i seg w) = active w" "retired (set_segment i seg w) = retired w"
  "wal_records (set_segment i seg w) = wal_records w" "next_lsn (set_segment i seg w) = next_lsn w"
  by (simp_all add: set_segment_def)

lemma on_segment_okE:
  assumes "on_segment i op w = (Inr a, w')"
  obtains seg where "op (segment_at w i) = (Inr a, seg)" "w' = set_segment i seg w"
  using assms by (auto simp: on_segment_def split: prod.splits)

lemma wal_append_okE:
  assumes ok: "wal_append crc kind w = (Inr lsn, w')"
  obtains nxt ty pid payload seg where
    "lsn = next_lsn w" "checked_add_u64 (next_lsn w) 1 = Some nxt"
    "kind_fields kind = (ty, pid, payload)" "40 + length payload < 2 ^ 32"
    "append_record (segment_at w (active w)) (record_header crc lsn ty pid payload) payload = (Inr (), seg)"
    "w' = (set_segment (active w) seg (w\<lparr>next_lsn := nxt\<rparr>))
       \<lparr>wal_records := wal_records w @ [\<lparr>rec_lsn = lsn, rec_kind = kind\<rparr>]\<rparr>"
  using assms
  by (auto simp: wal_append_def Let_def WAL_HEADER_SIZE_def
      elim!: try_then_okE on_segment_okE split: option.splits prod.splits if_splits)

lemma wal_append_logs:
  assumes logs: "wal_logs crc w L" and sc: "scannable kind"
    and ok: "wal_append crc kind w = (Inr lsn, w')"
  shows "lsn = next_lsn w" "active w' = active w" "retired w' = retired w" "next_lsn w < next_lsn w'"
    "wal_records w' = wal_records w @ [\<lparr>rec_lsn = lsn, rec_kind = kind\<rparr>]"
    "wal_logs crc w' (L(active w := L (active w) @ [\<lparr>rec_lsn = lsn, rec_kind = kind\<rparr>]))"
proof -
  from ok obtain nxt ty pid payload seg where
    a: "lsn = next_lsn w" and n: "checked_add_u64 (next_lsn w) 1 = Some nxt"
    and k: "kind_fields kind = (ty, pid, payload)"
    and ar: "append_record (segment_at w (active w)) (record_header crc lsn ty pid payload) payload = (Inr (), seg)"
    and w': "w' = (set_segment (active w) seg (w\<lparr>next_lsn := nxt\<rparr>))
       \<lparr>wal_records := wal_records w @ [\<lparr>rec_lsn = lsn, rec_kind = kind\<rparr>]\<rparr>"
    by (rule wal_append_okE)
  let ?r = "\<lparr>rec_lsn = lsn, rec_kind = kind\<rparr>"
  have act: "active w < 2" using logs by (simp add: wal_logs_def)
  have less: "next_lsn w < nxt" using n by (rule checked_add_u64_less)
  have "seg_log crc (segment_at w (active w)) (L (active w))" "last_lsn 0 (L (active w)) < lsn"
    using logs act a by (simp_all add: wal_logs_def)
  then have "seg_log crc seg (L (active w) @ [?r])"
    using append_record_log [of crc "segment_at w (active w)" "L (active w)" kind lsn ty pid payload "()" seg]
      ar sc k by simp
  then show "wal_logs crc w' (L(active w := L (active w) @ [?r]))"
    using logs act less a unfolding w' by (auto simp: wal_logs_def)
  show "lsn = next_lsn w" "active w' = active w" "retired w' = retired w" "next_lsn w < next_lsn w'"
    "wal_records w' = wal_records w @ [?r]"
    using a less unfolding w' by simp_all
qed

text \<open>A record the scan refuses is written and acknowledged all the same, and then hides itself and
  whatever is appended behind it.\<close>

lemma scan_record_oversized:
  assumes img: "file_read f off (length (record_bytes crc r)) = record_bytes crc r"
    and k: "kind_fields (rec_kind r) = (ty, pid, payload)"
    and big: "length payload > MAX_PAGE_PAYLOAD" "40 + length payload < 2 ^ 32"
  shows "scan_record crc f off previous = None"
proof -
  let ?h = "record_header crc (rec_lsn r) ty pid payload"
  have "file_read f off 40 @ file_read f (off + 40) (length payload) = ?h @ payload"
    using img by (simp add: record_bytes_def k file_read_append)
  then have h: "file_read f off 40 = ?h" by (simp add: append_eq_append_conv)
  have n: "unat (word_of_nat (length payload) :: u32) = length payload"
    using big by (intro unat_word_of_nat_u32) simp
  show ?thesis
    using big n
    by (simp add: scan_record_def read_exact_at_def h record_header_fields Let_def WAL_HEADER_SIZE_def)
qed

lemma append_record_oversized_lost:
  assumes log: "seg_log crc seg rs"
    and k: "kind_fields kind = (ty, pid, payload)"
    and big: "length payload > MAX_PAGE_PAYLOAD" "40 + length payload < 2 ^ 32"
    and ok: "append_record seg (record_header crc lsn ty pid payload) payload = (Inr u, seg')"
  shows "scan_loop crc (seg_file seg') 0 0 = (rs, end_offset seg)"
proof -
  let ?r = "\<lparr>rec_lsn = lsn, rec_kind = kind\<rparr>" and ?f = "seg_file seg'"
  note rd = append_record_reads [OF log ok k] and sl = seg_logD [OF log]
  have "scan_record crc ?f (end_offset seg) (last_lsn 0 rs) = None"
    using big k rd(2) by (intro scan_record_oversized [where r = ?r]) simp_all
  then have "scan_loop crc ?f (end_offset seg) (last_lsn 0 rs) = ([], end_offset seg)"
    by (rule scan_loop_unfold(1))
  then have "scan_loop crc ?f 0 0 = (rs @ [], end_offset seg)"
    using rd(1,4,5) by (intro scan_loop_extend [OF sl(1)]) auto
  then show ?thesis by simp
qed

section \<open>Crash safety of the log\<close>

lemma sync_makes_durable:
  assumes "seg_log crc seg rs" "on_file sync_data seg = (Inr u, seg')"
  shows "seg_log crc seg' rs \<and> durable_to (end_offset seg') (seg_file seg')"
proof -
  from assms(2) obtain f where f: "sync_data (seg_file seg) = (Inr u, f)" "seg' = seg\<lparr>seg_file := f\<rparr>"
    by (rule on_file_okE)
  note sl = seg_logD [OF assms(1)] and sf = sync_data_okD [OF f(1)]
  have "scan_loop crc f 0 0 = scan_loop crc (seg_file seg) 0 0"
    using sf by (intro scan_loop_cong) auto
  then show ?thesis
    using sl sf f(2) by (auto simp: seg_log_def seg_ok_def durable_to_def)
qed

text \<open>
  What the running system does to a segment between two crashes: appends, which may succeed or
  fail at any of their file operations, and syncs.
\<close>

inductive seg_step :: "segment \<Rightarrow> segment \<Rightarrow> bool" where
  append: "length header = 40 \<Longrightarrow> seg_step seg (snd (append_record seg header payload))"
| sync: "seg_step seg (snd (on_file sync_data seg))"

lemma length_STOP_MARKER: "length STOP_MARKER = 4"
  by (simp add: STOP_MARKER_def)

lemma seg_log_ok: "seg_log crc seg rs \<Longrightarrow> seg_ok seg"
  by (simp add: seg_log_def seg_ok_def)

lemma write_inside_len:
  "off + length buf \<le> flen f \<Longrightarrow> flen (snd (write_all_at f buf off)) = flen f"
  by (auto simp: write_all_at_def split: io_outcome.splits)

lemma grow_file_seg_ok: "seg_ok seg \<Longrightarrow> grow_file needed seg = (r, t) \<Longrightarrow> seg_ok t"
  by (auto simp: grow_file_def Let_def on_file_def try_then_def seg_ok_def set_len_def
      split: prod.splits sum.splits if_splits io_outcome.splits)

lemma fill_ahead_seg_ok:
  assumes "seg_ok seg" "needed \<le> file_length seg" "end_offset seg \<le> needed"
    "fill_ahead needed seg = (r, t)"
  shows "seg_ok t"
proof -
  have "flen (snd (zero_fill (seg_file seg) (allocated_offset seg)
     (min (needed + WAL_ZERO_FILL_AHEAD) (file_length seg)))) = flen (seg_file seg)"
    using assms by (intro zero_fill_len) (simp add: seg_ok_def)
  then show ?thesis
    using assms
    by (auto simp: fill_ahead_def Let_def on_file_def try_then_def seg_ok_def
        split: prod.splits sum.splits if_splits)
qed

lemma on_file_write_seg_ok:
  assumes "seg_ok seg" "off + length buf \<le> file_length seg"
    "on_file (\<lambda>f. write_all_at f buf off) seg = (r, t)"
  shows "seg_ok t \<and> file_length t = file_length seg \<and> end_offset t = end_offset seg \<and>
    allocated_offset t = allocated_offset seg"
  using assms write_inside_len [of off buf "seg_file seg"]
  by (auto simp: on_file_def seg_ok_def split: prod.splits)

lemma fill_ahead_file_length: "fill_ahead needed seg = (r, t) \<Longrightarrow> file_length t = file_length seg"
  by (auto simp: fill_ahead_def Let_def on_file_def try_then_def split: prod.splits sum.splits if_splits)

lemma fill_ahead_allocated:
  "fill_ahead needed seg = (Inr u, t) \<Longrightarrow> needed \<le> file_length seg \<Longrightarrow> needed \<le> allocated_offset t"
  by (auto simp: fill_ahead_def Let_def on_file_def try_then_def split: prod.splits sum.splits if_splits)

lemma append_record_seg_ok:
  assumes ok: "seg_ok seg" and hl: "length header = 40"
  shows "seg_ok (snd (append_record seg header payload)) \<and>
    end_offset seg \<le> end_offset (snd (append_record seg header payload))"
proof -
  let ?fin = "end_offset seg + (WAL_HEADER_SIZE + length payload)"
  let ?P = "\<lambda>s. seg_ok s \<and> end_offset seg \<le> end_offset s"
  let ?Q = "\<lambda>s. seg_ok s \<and> end_offset s = end_offset seg \<and> ?fin + 4 \<le> file_length s \<and>
     ?fin + 4 \<le> allocated_offset s"
  have tr: "?P (snd (try_then m k))" if "?P (snd m)" "\<And>a t. m = (Inr a, t) \<Longrightarrow> ?P (snd (k a t))"
    for m :: "(storage_error + unit) \<times> segment" and k :: "unit \<Rightarrow> segment \<Rightarrow> (storage_error + unit) \<times> segment"
    using that by (cases m; cases "fst m") auto
  have wr: "?P (snd (try_then (on_file (\<lambda>f. write_all_at f buf off) t) k))"
    if "?Q t" "off + length buf \<le> ?fin + 4" "\<And>a t'. ?Q t' \<Longrightarrow> ?P (snd (k a t'))"
    for t buf off and k :: "unit \<Rightarrow> segment \<Rightarrow> (storage_error + unit) \<times> segment"
  proof (rule tr)
    obtain r t' where e: "on_file (\<lambda>f. write_all_at f buf off) t = (r, t')" by force
    with that on_file_write_seg_ok [of t off buf r t'] have q: "?Q t'" by auto
    then show "?P (snd (on_file (\<lambda>f. write_all_at f buf off) t))" using e by simp
    fix a s assume "on_file (\<lambda>f. write_all_at f buf off) t = (Inr a, s)"
    then show "?P (snd (k a s))" using e q that(3) by simp
  qed
  have fill: "?Q t" if g: "grow_file (?fin + 4) seg = (Inr a, s)" and f: "fill_ahead (?fin + 4) s = (Inr b, t)"
    for a s b t
  proof -
    have s: "seg_ok s" "end_offset s = end_offset seg" "?fin + 4 \<le> file_length s"
      using grow_file_seg_ok [OF ok g] grow_file_selD [OF g] grow_file_ok [OF g] ok by (auto simp: seg_ok_def)
    then show ?thesis
      using fill_ahead_seg_ok [OF s(1) s(3) _ f] fill_ahead_selD [OF f] fill_ahead_file_length [OF f]
        fill_ahead_allocated [OF f s(3)] by simp
  qed
  show ?thesis
  proof (cases "?fin < 2 ^ 64")
    case False
    then show ?thesis using ok by (simp add: append_record_def Let_def)
  next
    case True
    have "?P (snd (append_record seg header payload)) \<longleftrightarrow> ?P (snd (
       try_then (grow_file (?fin + 4) seg) (\<lambda>_ s.
       try_then (fill_ahead (?fin + 4) s) (\<lambda>_ t.
       try_then (on_file (\<lambda>f. write_all_at f header (end_offset t)) t) (\<lambda>_ u.
       try_then (on_file (\<lambda>f. write_all_at f payload (end_offset u + WAL_HEADER_SIZE)) u) (\<lambda>_ v.
       try_then (on_file (\<lambda>f. write_all_at f STOP_MARKER ?fin) v) (\<lambda>_ w.
       (Inr (), w\<lparr>end_offset := ?fin\<rparr>))))))))"
      using True by (simp add: append_record_def Let_def length_STOP_MARKER)
    also have \<dots>
    proof (rule tr)
      show "?P (snd (grow_file (?fin + 4) seg))"
        using grow_file_seg_ok [OF ok] grow_file_selD by (metis order_refl prod.collapse)
      fix a s assume g: "grow_file (?fin + 4) seg = (Inr a, s)"
      have s: "seg_ok s" "end_offset s = end_offset seg" "?fin + 4 \<le> file_length s"
        using grow_file_seg_ok [OF ok g] grow_file_selD [OF g] grow_file_ok [OF g] ok
        by (auto simp: seg_ok_def)
      obtain r t' where e: "fill_ahead (?fin + 4) s = (r, t')" by force
      let ?rest = "\<lambda>(_ :: unit) t. try_then (on_file (\<lambda>f. write_all_at f header (end_offset t)) t) (\<lambda>_ u.
         try_then (on_file (\<lambda>f. write_all_at f payload (end_offset u + WAL_HEADER_SIZE)) u) (\<lambda>_ v.
         try_then (on_file (\<lambda>f. write_all_at f STOP_MARKER ?fin) v) (\<lambda>_ w.
         (Inr (), w\<lparr>end_offset := ?fin\<rparr>))))"
      show "?P (snd (try_then (fill_ahead (?fin + 4) s) ?rest))"
      proof (rule tr)
        show "?P (snd (fill_ahead (?fin + 4) s))"
          using e fill_ahead_seg_ok [OF s(1) s(3) _ e] fill_ahead_selD [OF e] s by simp
        fix b t assume f: "fill_ahead (?fin + 4) s = (Inr b, t)"
        show "?P (snd (?rest b t))"
          using fill [OF g f] hl by (intro wr) (auto simp: wal_consts seg_ok_def)
      qed
    qed
    finally show ?thesis .
  qed
qed

lemma seg_step_inv:
  assumes "seg_step seg seg'" "seg_ok seg" "n \<le> end_offset seg" "durable_to n (seg_file seg)"
  shows "seg_ok seg' \<and> n \<le> end_offset seg' \<and> durable_to n (seg_file seg') \<and>
    (\<forall>i<n. fdata (seg_file seg') i = fdata (seg_file seg) i)"
  using assms
proof (cases rule: seg_step.cases)
  case (append header payload)
  have k: "kept n (seg_file seg) (seg_file seg')"
    using append_record_kept [of seg header payload] assms(2,3) append
    by (auto simp: seg_ok_def intro: kept_mono)
  then show ?thesis
    using append_record_seg_ok [OF assms(2) append(2), of payload] append durable_kept [OF assms(4) k]
      assms(3,4) by (fastforce simp: kept_def durable_to_def)
next
  case sync
  then show ?thesis
    using assms
    by (auto simp: seg_ok_def durable_to_def sync_data_def split: io_outcome.splits)
qed

lemma seg_steps_inv:
  assumes "seg_step\<^sup>*\<^sup>* seg seg'" "seg_ok seg" "n \<le> end_offset seg" "durable_to n (seg_file seg)"
  shows "seg_ok seg' \<and> n \<le> end_offset seg' \<and> durable_to n (seg_file seg') \<and>
    (\<forall>i<n. fdata (seg_file seg') i = fdata (seg_file seg) i)"
  using assms
proof (induction rule: rtranclp_induct)
  case (step s t)
  then show ?case using seg_step_inv [of s t n] by simp
qed simp

lemma synced_records_survive:
  assumes "seg_log crc seg rs" "durable_to (end_offset seg) (seg_file seg)"
    "seg_step\<^sup>*\<^sup>* seg seg'" "crash_image (seg_file seg') g"
  shows "\<exists>extra. fst (scan_loop crc g 0 0) = rs @ extra"
proof -
  note sl = seg_logD [OF assms(1)]
  have d: "durable_to (end_offset seg) (seg_file seg')"
    "\<forall>i<end_offset seg. fdata (seg_file seg') i = fdata (seg_file seg) i"
    using seg_steps_inv [OF assms(3) sl(2) order_refl assms(2)] by simp_all
  have "end_offset seg \<le> flen g" "\<And>i. i < end_offset seg \<Longrightarrow> fdata g i = fdata (seg_file seg) i"
    using crash_keeps_durable [OF d(1) assms(4)] d(2) by simp_all
  then have "scan_loop crc g 0 0 = (rs @ extra, e)"
    if "scan_loop crc g (end_offset seg) (last_lsn 0 rs) = (extra, e)" for extra e
    using scan_loop_extend [OF sl(1) _ _ that] by blast
  then show ?thesis by (metis fst_conv prod.collapse)
qed

end
