(* ===== verification/Wal_Open.thy ===== *)
theory Wal_Open
  imports Wal_Log
begin

text \<open>
  Opening, syncing, rotating and recycling the log: what \<open>Wal::open\<close> makes of two arbitrary
  files, and the invariant that ties the records kept in memory to the two segments on disk.
\<close>

section \<open>Sealed and repaired segments\<close>

lemma scan_record_no_magic:
  assumes "off + 4 \<le> flen f \<Longrightarrow> file_read f off 4 \<noteq> WAL_MAGIC"
  shows "scan_record crc f off previous = None"
proof (cases "off + 40 \<le> flen f")
  case True
  then have "slice (file_read f off 40) 0 4 \<noteq> WAL_MAGIC"
    using assms by (simp add: slice_file_read)
  with True show ?thesis by (simp add: scan_record_def read_exact_at_def WAL_HEADER_SIZE_def)
qed (simp add: scan_record_def WAL_HEADER_SIZE_def)

lemma stop_not_magic: "STOP_MARKER \<noteq> WAL_MAGIC"
  by (simp add: wal_consts)

lemma sealed_empty:
  assumes "file_read f 0 4 = STOP_MARKER" shows "scan_loop crc f 0 0 = ([], 0)"
  by (rule scan_loop_unfold(1), rule scan_record_no_magic) (simp add: assms stop_not_magic)

lemma seal_file_okD:
  assumes "seal_file f = (Inr u, g)"
  shows "file_read g 0 4 = STOP_MARKER" "unsynced g = {}" "synced_len g = flen g"
    "flen g = max (flen f) 4"
proof -
  from assms obtain h where h: "write_all_at f STOP_MARKER 0 = (Inr (), h)" "sync_data h = (Inr (), g)"
    by (auto simp: seal_file_def elim!: try_then_okE)
  have w: "h = file_put (drop_outcome f) STOP_MARKER 0" using h(1) by (rule write_all_at_okD)
  note g = sync_data_okD [OF h(2)]
  have "file_read h 0 4 = STOP_MARKER"
    unfolding w by (rule file_read_put_same) (simp add: length_STOP_MARKER)
  then show "file_read g 0 4 = STOP_MARKER" using g by (simp add: file_read_def)
  show "unsynced g = {}" "synced_len g = flen g" using g by simp_all
  show "flen g = max (flen f) 4" using g w by (simp add: STOP_MARKER_def)
qed

lemma seal_and_sync_log:
  assumes "seal_and_sync seg = (Inr u, seg')" "seg_ok seg" "4 \<le> flen (seg_file seg)"
  shows "seg_log crc seg' []" "4 \<le> flen (seg_file seg')"
proof -
  from assms(1) obtain f where f: "seal_file (seg_file seg) = (Inr (), f)"
    and s: "seg' = seg\<lparr>seg_file := f, end_offset := 0\<rparr>"
    by (auto simp: seal_and_sync_def elim!: try_then_okE on_file_okE)
  note sf = seal_file_okD [OF f]
  show "seg_log crc seg' []" "4 \<le> flen (seg_file seg')"
    using sealed_empty [OF sf(1), of crc] assms(2,3) sf(4) by (simp_all add: s seg_log_def seg_ok_def)
qed

text \<open>The repaired file scans to the same records and ends with a stop marker, if one fits.\<close>

lemma scan_and_repair_ok:
  assumes "scan_and_repair crc f = (Inr (rs, e), g)"
  shows "scan_loop crc f 0 0 = (rs, e)" "scan_loop crc g 0 0 = (rs, e)" "flen g = flen f"
    "e + 4 \<le> flen g \<Longrightarrow> file_read g e 4 \<noteq> WAL_MAGIC"
proof -
  obtain rs' e' where l: "scan_loop crc f 0 0 = (rs', e')" by force
  have e': "e' \<le> flen f" using scan_loop_end [OF l] by simp
  have "scan_loop crc f 0 0 = (rs, e) \<and> scan_loop crc g 0 0 = (rs, e) \<and> flen g = flen f \<and>
      (e + 4 \<le> flen g \<longrightarrow> file_read g e 4 \<noteq> WAL_MAGIC)"
  proof (cases "e' + 4 \<le> flen f")
    case False
    then show ?thesis
      using assms l by (auto simp: scan_and_repair_def length_STOP_MARKER)
  next
    case True
    from assms l True obtain h where h: "write_all_at f STOP_MARKER e' = (Inr (), h)"
      "sync_data h = (Inr (), g)" and re: "rs = rs'" "e = e'"
      by (auto simp: scan_and_repair_def length_STOP_MARKER elim!: try_then_okE)
    have w: "h = file_put (drop_outcome f) STOP_MARKER e'" using h(1) by (rule write_all_at_okD)
    note g = sync_data_okD [OF h(2)]
    have "file_read h e' 4 = STOP_MARKER"
      unfolding w by (rule file_read_put_same) (simp add: length_STOP_MARKER)
    then have m: "file_read g e' 4 = STOP_MARKER" using g by (simp add: file_read_def)
    have len: "flen g = flen f" using g w True by (simp add: STOP_MARKER_def)
    have "scan_loop crc g e' (last_lsn 0 rs') = ([], e')"
      by (intro scan_loop_unfold(1) scan_record_no_magic) (simp add: m stop_not_magic)
    then have "scan_loop crc g 0 0 = (rs' @ [], e')"
    proof (rule scan_loop_extend [OF l, rotated 2])
      show "e' \<le> flen g" using e' len by simp
      show "fdata g i = fdata f i" if "i < e'" for i
        using that e' g w by (simp add: fdata_file_put)
    qed
    then show ?thesis using l re len m stop_not_magic by simp
  qed
  then show "scan_loop crc f 0 0 = (rs, e)" "scan_loop crc g 0 0 = (rs, e)" "flen g = flen f"
    "e + 4 \<le> flen g \<Longrightarrow> file_read g e 4 \<noteq> WAL_MAGIC" by simp_all
qed

text \<open>Extending the file behind the log with zeros adds no record.\<close>

lemma extend_scan:
  assumes l: "scan_loop crc f 0 0 = (rs, e)" and m: "e + 4 \<le> flen f \<Longrightarrow> file_read f e 4 \<noteq> WAL_MAGIC"
    and g: "\<And>i. fdata g i = (if i < flen f then fdata f i else 0)" "flen f \<le> flen g"
  shows "scan_loop crc g 0 0 = (rs, e)"
proof -
  have e: "e \<le> flen f" using scan_loop_end [OF l] by simp
  have nomagic: "file_read g e 4 \<noteq> WAL_MAGIC"
  proof (cases "e + 4 \<le> flen f")
    case True
    then have "file_read g e 4 = file_read f e 4" by (intro file_read_cong) (simp add: g)
    with m True show ?thesis by simp
  next
    case False
    then have "file_read g e 4 ! 3 \<noteq> WAL_MAGIC ! 3" by (simp add: g WAL_MAGIC_def)
    then show ?thesis by metis
  qed
  have "scan_loop crc g e (last_lsn 0 rs) = ([], e)"
    by (intro scan_loop_unfold(1) scan_record_no_magic) (simp add: nomagic)
  then have "scan_loop crc g 0 0 = (rs @ [], e)"
    using e g by (intro scan_loop_extend [OF l]) auto
  then show ?thesis by simp
qed

lemma segment_open_log:
  assumes "segment_open crc f = (Inr (seg, rs), g)"
  shows "seg_log crc seg rs" "rs = fst (scan_loop crc f 0 0)" "WAL_PREALLOCATE_BYTES \<le> flen (seg_file seg)"
proof -
  from assms obtain e h where r: "scan_and_repair crc f = (Inr (rs, e), h)"
    by (auto simp: segment_open_def elim!: try_then_okE split: if_splits prod.splits)
  note rep = scan_and_repair_ok [OF r]
  have "seg_log crc seg rs \<and> WAL_PREALLOCATE_BYTES \<le> flen (seg_file seg)"
  proof (cases "flen h < WAL_PREALLOCATE_BYTES")
    case False
    with assms r rep show ?thesis by (auto simp: segment_open_def seg_log_def seg_ok_def)
  next
    case True
    with assms r obtain k where k: "set_len h WAL_PREALLOCATE_BYTES = (Inr (), k)"
      "sync_data k = (Inr (), g)"
      and seg: "seg = \<lparr>seg_file = g, end_offset = e, file_length = WAL_PREALLOCATE_BYTES, allocated_offset = e\<rparr>"
      by (auto simp: segment_open_def elim!: try_then_okE)
    note sl = set_len_okD [OF k(1)] and sy = sync_data_okD [OF k(2)]
    have "scan_loop crc g 0 0 = (rs, e)"
      using sl sy True by (intro extend_scan [OF rep(2,4)]) auto
    then show ?thesis using seg sl sy by (simp add: seg_log_def seg_ok_def)
  qed
  then show "seg_log crc seg rs" "WAL_PREALLOCATE_BYTES \<le> flen (seg_file seg)" by simp_all
  show "rs = fst (scan_loop crc f 0 0)" using rep(1) by simp
qed

section \<open>The invariant of the log\<close>

text \<open>
  The log on disk is the spare segment's records followed by the active segment's. The records
  kept in memory are a suffix of it that starts at the beginning or behind a checkpoint record.
\<close>

definition disk_records :: "wal \<Rightarrow> (nat \<Rightarrow> wal_record list) \<Rightarrow> wal_record list" where
  "disk_records w L = L (1 - active w) @ L (active w)"

definition checkpoint_suffix :: "wal_record list \<Rightarrow> wal_record list \<Rightarrow> bool" where
  "checkpoint_suffix disk recs \<longleftrightarrow>
    (\<exists>pre. disk = pre @ recs \<and> (pre \<noteq> [] \<longrightarrow> is_checkpoint (last pre)))"

definition wal_inv :: "(bytes \<Rightarrow> u32) \<Rightarrow> wal \<Rightarrow> (nat \<Rightarrow> wal_record list) \<Rightarrow> bool" where
  "wal_inv crc w L \<longleftrightarrow>
    wal_logs crc w L \<and> lsns_rise 0 (disk_records w L) \<and>
    (\<forall>i<2. 4 \<le> flen (seg_file (segment_at w i))) \<and>
    checkpoint_suffix (disk_records w L) (wal_records w)"

lemma lsns_rise_hd:
  assumes "lsns_rise previous xs" "xs \<noteq> []"
  shows "previous < rec_lsn (hd xs)" "rec_lsn (hd xs) \<le> rec_lsn (last xs)"
  using lsns_rise_bounds [OF assms(1), of "hd xs"] assms by (auto simp: last_lsn_def)

lemma lsns_rise_weaken:
  "lsns_rise previous xs \<Longrightarrow> (xs \<noteq> [] \<Longrightarrow> previous' < rec_lsn (hd xs)) \<Longrightarrow> lsns_rise previous' xs"
  by (cases xs) auto

lemma choose_records_cases:
  assumes rise: "lsns_rise 0 ra" "lsns_rise 0 rb"
    and c: "choose_records ra rb = (recs, act, garbage)"
    and L_def: "L = (\<lambda>i. if garbage = Some i then [] else if i = 0 then ra else rb)"
  shows "act < 2" "recs = L (1 - act) @ L act" "lsns_rise 0 recs"
    "garbage \<noteq> None \<Longrightarrow> garbage = Some (1 - act)"
proof -
  have join: "lsns_rise 0 (xs @ ys)"
    if "lsns_rise 0 xs" "lsns_rise 0 ys" "xs \<noteq> []" "rec_lsn (last xs) < rec_lsn (hd ys)" for xs ys
    using that by (auto simp: lsns_rise_append last_lsn_def intro: lsns_rise_weaken)
  have "act < 2 \<and> recs = L (1 - act) @ L act \<and> lsns_rise 0 recs \<and>
    (garbage \<noteq> None \<longrightarrow> garbage = Some (1 - act))"
    using c rise join
    by (auto simp: choose_records_def Let_def L_def split: if_splits)
  then show "act < 2" "recs = L (1 - act) @ L act" "lsns_rise 0 recs"
    "garbage \<noteq> None \<Longrightarrow> garbage = Some (1 - act)" by auto
qed

text \<open>Reopening the segments of a running log finds its records in order.\<close>

lemma choose_records_disk:
  assumes "lsns_rise 0 (L (1 - a) @ L a)" "a < (2 :: nat)"
  shows "fst (choose_records (L 0) (L 1)) = L (1 - a) @ L a"
    "snd (snd (choose_records (L 0) (L 1))) = None"
proof -
  have order: "L a \<noteq> [] \<longrightarrow> L (1 - a) \<noteq> [] \<longrightarrow> rec_lsn (last (L (1 - a))) < rec_lsn (hd (L a)) \<and>
      rec_lsn (hd (L (1 - a))) < rec_lsn (hd (L a))"
    using assms(1) lsns_rise_hd [of "last_lsn 0 (L (1 - a))" "L a"] lsns_rise_hd [of 0 "L (1 - a)"]
    by (auto simp: lsns_rise_append last_lsn_def)
  have a: "a = 0 \<or> a = 1" using assms(2) by auto
  then show "fst (choose_records (L 0) (L 1)) = L (1 - a) @ L a"
    "snd (snd (choose_records (L 0) (L 1))) = None"
    using order by (auto simp: choose_records_def Let_def)
qed

lemma checkpoint_suffix_refl [simp]: "checkpoint_suffix xs xs"
  by (simp add: checkpoint_suffix_def)

lemma checkpoint_suffix_append: "checkpoint_suffix disk recs \<Longrightarrow> checkpoint_suffix (disk @ xs) (recs @ xs)"
  by (auto simp: checkpoint_suffix_def)

lemma saturating_next_less: "l \<noteq> - 1 \<Longrightarrow> l < saturating_add_u64 l 1"
proof -
  assume "l \<noteq> - 1"
  then have "unat l \<noteq> unat (- 1 :: u64)" using unsigned_word_eqI by blast
  then have "unat l + 1 < 2 ^ 64" using unat_u64_less [of l] by (simp add: unsigned_minus_1_eq_mask mask_eq_exp_minus_1)
  then show ?thesis
    by (simp add: saturating_add_u64_def word_less_nat_alt unat_word_ariths)
qed

section \<open>Opening\<close>

text \<open>The segments, the records and the LSN that \<open>Wal::open\<close> starts with.\<close>

lemma wal_open_okE:
  assumes "wal_open crc a b = Inr w"
  obtains sa sb fa fb act garbage where
    "segment_open crc a = (Inr (sa, fst (scan_loop crc a 0 0)), fa)"
    "segment_open crc b = (Inr (sb, fst (scan_loop crc b 0 0)), fb)"
    "choose_records (fst (scan_loop crc a 0 0)) (fst (scan_loop crc b 0 0)) = (wal_records w, act, garbage)"
    "active w = act" "retired w = None"
    "next_lsn w = (if wal_records w = [] then 1 else saturating_add_u64 (rec_lsn (last (wal_records w))) 1)"
    "\<And>i. i < 2 \<Longrightarrow> garbage \<noteq> Some i \<Longrightarrow> segment_at w i = (if i = 0 then sa else sb)"
    "\<And>i. i < 2 \<Longrightarrow> garbage = Some i \<Longrightarrow> seal_and_sync (if i = 0 then sa else sb) = (Inr (), segment_at w i)"
proof -
  from assms obtain sa ra fa sb rb fb recs act garbage where
    a: "segment_open crc a = (Inr (sa, ra), fa)" and b: "segment_open crc b = (Inr (sb, rb), fb)"
    and c: "choose_records ra rb = (recs, act, garbage)"
    by (auto simp: wal_open_def Let_def split: prod.splits sum.splits option.splits)
  note ra = segment_open_log(2) [OF a] and rb = segment_open_log(2) [OF b]
  have "garbage = Some i \<Longrightarrow> i < 2" for i
    using c by (auto simp: choose_records_def Let_def split: if_splits)
  with assms a b c show thesis
    using that [of sa fa sb fb act garbage] unfolding ra [symmetric] rb [symmetric]
    by (auto simp: wal_open_def Let_def on_segment_def segment_at_def set_segment_def
        split: prod.splits sum.splits option.splits if_splits)
qed

lemma wal_open_inv:
  assumes "wal_open crc a b = Inr w" "wal_records w \<noteq> [] \<Longrightarrow> rec_lsn (last (wal_records w)) \<noteq> - 1"
  shows "\<exists>L. wal_inv crc w L \<and> disk_records w L = wal_records w"
    "wal_records w = fst (choose_records (fst (scan_loop crc a 0 0)) (fst (scan_loop crc b 0 0)))"
proof -
  let ?ra = "fst (scan_loop crc a 0 0)" and ?rb = "fst (scan_loop crc b 0 0)"
  from assms(1) obtain sa sb fa fb garbage where
    so: "segment_open crc a = (Inr (sa, ?ra), fa)" "segment_open crc b = (Inr (sb, ?rb), fb)"
    and c: "choose_records ?ra ?rb = (wal_records w, active w, garbage)"
    and nx: "next_lsn w = (if wal_records w = [] then 1 else saturating_add_u64 (rec_lsn (last (wal_records w))) 1)"
    and keep: "\<And>i. i < 2 \<Longrightarrow> garbage \<noteq> Some i \<Longrightarrow> segment_at w i = (if i = 0 then sa else sb)"
    and sealed: "\<And>i. i < 2 \<Longrightarrow> garbage = Some i \<Longrightarrow>
      seal_and_sync (if i = 0 then sa else sb) = (Inr (), segment_at w i)"
    by (rule wal_open_okE) blast
  show "wal_records w = fst (choose_records ?ra ?rb)" using c by simp
  define L where "L = (\<lambda>i. if garbage = Some i then [] else if i = 0 then ?ra else ?rb)"
  note la = segment_open_log [OF so(1)] and lb = segment_open_log [OF so(2)]
  have big: "4 \<le> WAL_PREALLOCATE_BYTES" by (simp add: WAL_PREALLOCATE_BYTES_def)
  note ch = choose_records_cases [OF seg_logD(6) [OF la(1)] seg_logD(6) [OF lb(1)] c L_def]
  have seg: "seg_log crc (segment_at w i) (L i) \<and> 4 \<le> flen (seg_file (segment_at w i))" if i: "i < 2" for i
  proof (cases "garbage = Some i")
    case False
    then show ?thesis using keep [OF i False] la lb big by (auto simp: L_def)
  next
    case True
    let ?s = "if i = 0 then sa else sb"
    have s: "seg_ok ?s" "4 \<le> flen (seg_file ?s)" using la lb seg_logD(2) big by auto
    show ?thesis using seal_and_sync_log [OF sealed [OF i True] s] True by (simp add: L_def)
  qed
  have rise: "lsns_rise 0 (wal_records w)" by (rule ch(3))
  have pos: "0 < next_lsn w \<and> last_lsn 0 (wal_records w) < next_lsn w"
    using nx assms(2) saturating_next_less [of "rec_lsn (last (wal_records w))"]
    by (auto simp: last_lsn_def intro: le_less_trans [of 0])
  have last: "last_lsn 0 (L i) < next_lsn w" if i: "i < 2" for i
  proof (cases "L i = []")
    case True
    then show ?thesis using pos by (simp add: last_lsn_def)
  next
    case False
    have "set (L i) \<subseteq> set (wal_records w)"
    proof -
      have "i = active w \<or> i = 1 - active w" using i ch(1) by auto
      then show ?thesis using ch(2) by auto
    qed
    then have "last (L i) \<in> set (wal_records w)" using last_in_set [OF False] by blast
    from lsns_rise_bounds [OF rise this] have "last_lsn 0 (L i) \<le> last_lsn 0 (wal_records w)"
      using False by (simp add: last_lsn_def)
    then show ?thesis using pos by (simp add: le_less_trans)
  qed
  have disk: "disk_records w L = wal_records w" using ch(2) by (simp add: disk_records_def)
  have "wal_inv crc w L"
    using seg last ch(1,3) pos by (simp add: wal_inv_def wal_logs_def disk)
  with disk show "\<exists>L. wal_inv crc w L \<and> disk_records w L = wal_records w" by blast
qed

section \<open>Appending, syncing and resetting\<close>

lemma other_segment: "a < 2 \<Longrightarrow> 1 - a \<noteq> (a :: nat)" "a < 2 \<Longrightarrow> Suc 0 - a \<noteq> a"
  by presburger+

definition extend_log :: "(nat \<Rightarrow> 'a list) \<Rightarrow> nat \<Rightarrow> 'a list \<Rightarrow> nat \<Rightarrow> 'a list" where
  "extend_log L i rs = L(i := L i @ rs)"

lemma extend_log_simps [simp]:
  "extend_log (extend_log L i rs) i rs' = extend_log L i (rs @ rs')"
  "extend_log L i [] = L"
  by (simp_all add: extend_log_def)

lemma disk_records_append:
  "active w' = active w \<Longrightarrow> active w < 2 \<Longrightarrow>
    disk_records w' (extend_log L (active w) rs) = disk_records w L @ rs"
  by (auto simp: disk_records_def extend_log_def dest: other_segment)

lemma last_lsn_disk:
  assumes "wal_inv crc w L" shows "last_lsn 0 (disk_records w L) < next_lsn w"
proof -
  have "last_lsn 0 (L (active w)) < next_lsn w" "last_lsn 0 (L (1 - active w)) < next_lsn w"
    using assms by (auto simp: wal_inv_def wal_logs_def)
  then show ?thesis by (cases "L (active w) = []") (auto simp: disk_records_def last_lsn_def)
qed

lemma wal_append_inv:
  assumes inv: "wal_inv crc w L" and sc: "scannable kind"
    and ok: "wal_append crc kind w = (Inr lsn, w')"
  shows "wal_inv crc w' (extend_log L (active w) [\<lparr>rec_lsn = lsn, rec_kind = kind\<rparr>])"
proof -
  let ?r = "\<lparr>rec_lsn = lsn, rec_kind = kind\<rparr>"
  have logs: "wal_logs crc w L" and act: "active w < 2"
    using inv by (auto simp: wal_inv_def wal_logs_def)
  note a = wal_append_logs [OF logs sc ok]
  have disk: "disk_records w' (extend_log L (active w) [?r]) = disk_records w L @ [?r]"
    using a(2) act by (intro disk_records_append)
  have rise: "lsns_rise 0 (disk_records w L @ [?r])"
    using inv last_lsn_disk [OF inv] a(1) by (simp add: lsns_rise_append wal_inv_def)
  have long: "4 \<le> flen (seg_file (segment_at w' i))" if i: "i < 2" for i
  proof -
    from ok obtain nxt ty pid payload seg where
      ar: "append_record (segment_at w (active w)) (record_header crc lsn ty pid payload) payload = (Inr (), seg)"
      and w': "w' = (set_segment (active w) seg (w\<lparr>next_lsn := nxt\<rparr>))
         \<lparr>wal_records := wal_records w @ [?r]\<rparr>"
      by (rule wal_append_okE)
    have "seg_log crc (segment_at w (active w)) (L (active w))"
      using logs act by (simp add: wal_logs_def)
    from append_record_kept [OF seg_logD(3,4) [OF this], of "record_header crc lsn ty pid payload" payload]
    have "flen (seg_file (segment_at w (active w))) \<le> flen (seg_file seg)"
      using ar by (simp add: kept_def)
    moreover have "4 \<le> flen (seg_file (segment_at w j))" if "j < 2" for j
      using inv that by (simp add: wal_inv_def)
    ultimately show ?thesis using i act w' by (fastforce intro: order.trans)
  qed
  show ?thesis
    unfolding wal_inv_def disk
    using a(5,6) rise long inv by (auto simp: wal_inv_def extend_log_def intro: checkpoint_suffix_append)
qed

lemma wal_sync_inv:
  assumes inv: "wal_inv crc w L" and ok: "wal_sync w = (Inr u, w')"
  shows "wal_inv crc w' L" "disk_records w' L = disk_records w L" "wal_records w' = wal_records w"
    "next_lsn w' = next_lsn w" "active w' = active w" "retired w' = retired w"
    "unsynced (seg_file (segment_at w' (active w'))) = {}"
    "synced_len (seg_file (segment_at w' (active w'))) = flen (seg_file (segment_at w' (active w')))"
proof -
  have act: "active w < 2" using inv by (auto simp: wal_inv_def wal_logs_def)
  from ok obtain seg where seg: "on_file sync_data (segment_at w (active w)) = (Inr u, seg)"
    "w' = set_segment (active w) seg w"
    by (auto simp: wal_sync_def elim!: on_segment_okE)
  from seg(1) obtain f where f: "sync_data (seg_file (segment_at w (active w))) = (Inr u, f)"
    "seg = (segment_at w (active w))\<lparr>seg_file := f\<rparr>" by (rule on_file_okE)
  note sf = sync_data_okD [OF f(1)]
  have "seg_log crc (segment_at w (active w)) (L (active w))"
    using inv act by (simp add: wal_inv_def wal_logs_def)
  from sync_makes_durable [OF this seg(1)] have log: "seg_log crc seg (L (active w))" by simp
  show "wal_inv crc w' L"
    using inv log sf f seg act by (auto simp: wal_inv_def wal_logs_def disk_records_def)
  show "disk_records w' L = disk_records w L" "wal_records w' = wal_records w"
    "next_lsn w' = next_lsn w" "active w' = active w" "retired w' = retired w"
    "unsynced (seg_file (segment_at w' (active w'))) = {}"
    "synced_len (seg_file (segment_at w' (active w'))) = flen (seg_file (segment_at w' (active w')))"
    using seg sf f act by (auto simp: disk_records_def)
qed

lemma scan_loop_end_zero: "scan_loop crc f 0 0 = (rs, 0) \<Longrightarrow> rs = []"
proof (cases "scan_record crc f 0 0")
  case (Some x)
  assume l: "scan_loop crc f 0 0 = (rs, 0)"
  obtain r n where x: "x = (r, n)" by force
  obtain rs' e where rest: "scan_loop crc f (0 + n) (rec_lsn r) = (rs', e)" by force
  have n: "40 \<le> n" "n \<le> flen f" using Some x by (simp_all add: scan_record_iff)
  have "n \<le> e" using scan_loop_end [OF rest] n by simp
  moreover have "e = 0" using scan_loop_unfold(2) [of crc f 0 0 r n rs' e] Some x rest l by simp
  ultimately show ?thesis using n by simp
qed (simp add: scan_loop_unfold(1))

definition segs_hold :: "(bytes \<Rightarrow> u32) \<Rightarrow> wal \<Rightarrow> (nat \<Rightarrow> wal_record list) \<Rightarrow> bool" where
  "segs_hold crc w L \<longleftrightarrow>
    (\<forall>j<2. seg_log crc (segment_at w j) (L j) \<and> 4 \<le> flen (seg_file (segment_at w j)))"

lemma reset_segment_inv:
  assumes i: "i < 2" and hold: "segs_hold crc w L" and ok: "reset_segment i w = (Inr u, w')"
  shows "segs_hold crc w' (L(i := []))"
    "active w' = active w" "next_lsn w' = next_lsn w" "wal_records w' = wal_records w"
proof -
  have "segs_hold crc w' (L(i := [])) \<and> active w' = active w \<and> next_lsn w' = next_lsn w \<and>
    wal_records w' = wal_records w"
  proof (cases "end_offset (segment_at w i) > 0")
    case True
    with ok obtain seg where s: "seal_and_sync (segment_at w i) = (Inr u, seg)" "w' = set_segment i seg w"
      by (auto simp: reset_segment_def elim!: on_segment_okE)
    have "seg_ok (segment_at w i)" "4 \<le> flen (seg_file (segment_at w i))"
      using hold i seg_logD(2) by (auto simp: segs_hold_def)
    from seal_and_sync_log [OF s(1) this] show ?thesis
      using s(2) i hold by (auto simp: segs_hold_def)
  next
    case False
    then have w: "w' = w" using ok by (simp add: reset_segment_def)
    have "seg_log crc (segment_at w i) (L i)" using hold i by (simp add: segs_hold_def)
    then have "scan_loop crc (seg_file (segment_at w i)) 0 0 = (L i, 0)"
      using seg_logD(1) False by fastforce
    then have "L i = []" by (rule scan_loop_end_zero)
    then have "L(i := []) = L" by auto
    then show ?thesis using w hold by simp
  qed
  then show "segs_hold crc w' (L(i := []))"
    "active w' = active w" "next_lsn w' = next_lsn w" "wal_records w' = wal_records w" by simp_all
qed

lemma reset_after_checkpoint_inv:
  assumes inv: "wal_inv crc w L" and ok: "reset_after_checkpoint w = (Inr u, w')"
  shows "wal_inv crc w' (\<lambda>_. [])" "wal_records w' = []" "next_lsn w' = next_lsn w"
    "active w' = active w" "retired w' = None"
proof -
  from ok obtain x y where x: "reset_segment 0 w = (Inr (), x)"
    and y: "reset_segment 1 x = (Inr (), y)" "w' = y\<lparr>retired := None, wal_records := []\<rparr>"
    by (auto simp: reset_after_checkpoint_def elim!: try_then_okE)
  have "segs_hold crc w L" using inv by (auto simp: wal_inv_def wal_logs_def segs_hold_def)
  note rx = reset_segment_inv [OF _ this x]
  note ry = reset_segment_inv [OF _ rx(1) y(1)]
  have "segs_hold crc w' (\<lambda>_. [])"
    using ry(1) y(2) by (auto simp: segs_hold_def less_2_cases_iff)
  then show "wal_inv crc w' (\<lambda>_. [])"
    using ry(2-) rx(2-) y(2) inv
    by (auto simp: segs_hold_def wal_inv_def wal_logs_def disk_records_def last_lsn_def)
  show "wal_records w' = []" "next_lsn w' = next_lsn w" "active w' = active w" "retired w' = None"
    using y(2) ry(2-) rx(2-) by simp_all
qed

end
