(* ===== verification/Recovery.thy ===== *)
theory Recovery
  imports Store Wal_Open
begin

text \<open>
  What recovery computes. \<open>replay\<close> is the abstract effect of a list of committed changes on the
  pages of a data file; the lemmas show that \<open>committed_page_images\<close> extracts exactly the
  completed batches of a log, and that \<open>recover\<close> implements \<open>replay\<close>.
\<close>

section \<open>The batches of a log\<close>

definition rec_of :: "committed_write \<Rightarrow> wal_record" where
  "rec_of x = \<lparr>rec_lsn = cw_lsn x, rec_kind =
    (case cw_append_at x of
       None \<Rightarrow> PageImage (cw_page_id x) (cw_payload x)
     | Some offset \<Rightarrow> PageAppend (cw_page_id x) offset (cw_payload x))\<rparr>"

definition batch_records :: "committed_write list \<Rightarrow> u64 \<Rightarrow> wal_record list" where
  "batch_records xs lsn =
    map rec_of xs @ [\<lparr>rec_lsn = lsn, rec_kind = BatchCommit (word_of_nat (length xs))\<rparr>]"

lemma committed_write_eta:
  "cw_append_at x = a \<Longrightarrow>
    \<lparr>cw_lsn = cw_lsn x, cw_page_id = cw_page_id x, cw_payload = cw_payload x, cw_append_at = a\<rparr> = x"
  by (cases x) simp

lemma collect_pages:
  "collect_committed (map rec_of xs @ rs) pending committed =
    collect_committed rs (pending @ xs) committed"
  by (induction xs arbitrary: pending) (auto simp: rec_of_def committed_write_eta split: option.splits)

lemma collect_batch:
  assumes "length xs < 2 ^ 32"
  shows "collect_committed (batch_records xs lsn @ rs) pending committed =
    collect_committed rs [] (committed @ xs)"
  using unat_word_of_nat_u32 [OF assms] by (simp add: batch_records_def collect_pages)

lemma collect_append:
  "collect_committed rs pending committed = Inr ws \<Longrightarrow>
    \<exists>pending'. \<forall>rs'. collect_committed (rs @ rs') pending committed = collect_committed rs' pending' ws"
  by (induction rs pending committed rule: collect_committed.induct)
    (auto split: wal_kind.splits if_splits)

lemma rec_of_not_checkpoint [simp]: "\<not> is_checkpoint (rec_of x)"
  by (simp add: rec_of_def is_checkpoint_def split: option.splits)

lemma rposition_no_match: "\<forall>x\<in>set ys. \<not> P x \<Longrightarrow> rposition P (xs @ ys) = rposition P xs"
  using rposition_None [of P ys] by (simp add: rposition_append)

text \<open>The records after the last checkpoint.\<close>

definition since_checkpoint :: "wal_record list \<Rightarrow> wal_record list" where
  "since_checkpoint records =
    drop (case rposition is_checkpoint records of None \<Rightarrow> 0 | Some position \<Rightarrow> position + 1) records"

lemma committed_since: "committed_page_images records = collect_committed (since_checkpoint records) [] []"
  by (simp add: committed_page_images_def since_checkpoint_def Let_def)

lemma since_checkpoint_append:
  assumes "\<forall>r\<in>set rs. \<not> is_checkpoint r"
  shows "since_checkpoint (records @ rs) = since_checkpoint records @ rs"
  using rposition_Some [of is_checkpoint records]
  by (auto simp: since_checkpoint_def rposition_no_match [OF assms] split: option.splits)

lemma since_checkpoint_suffix:
  assumes "checkpoint_suffix disk recs" shows "since_checkpoint disk = since_checkpoint recs"
proof -
  from assms obtain pre where pre: "disk = pre @ recs" "pre \<noteq> [] \<Longrightarrow> is_checkpoint (last pre)"
    by (auto simp: checkpoint_suffix_def)
  show ?thesis
  proof (cases "pre = []")
    case False
    then obtain ys y where y: "pre = ys @ [y]" "is_checkpoint y"
      using pre(2) by (metis append_butlast_last_id)
    then show ?thesis
      by (auto simp: since_checkpoint_def pre(1) rposition_append split: option.splits)
  qed (simp add: pre)
qed

lemma committed_batch:
  assumes "committed_page_images records = Inr ws" "length xs < 2 ^ 32"
  shows "committed_page_images (records @ batch_records xs lsn) = Inr (ws @ xs)"
proof -
  have "\<not> is_checkpoint \<lparr>rec_lsn = lsn, rec_kind = BatchCommit n\<rparr>" for n
    by (simp add: is_checkpoint_def)
  then have "\<forall>r\<in>set (batch_records xs lsn). \<not> is_checkpoint r"
    by (auto simp: batch_records_def)
  with assms collect_append [of "since_checkpoint records" "[]" "[]" ws] collect_batch [OF assms(2), of lsn "[]"]
  show ?thesis
    by (auto simp: committed_since since_checkpoint_append)
qed

lemma committed_tail:
  assumes "committed_page_images records = Inr ws"
  shows "committed_page_images (records @ map rec_of xs) = Inr ws"
proof -
  have "collect_committed (map rec_of xs) pending ws = Inr ws" for pending
    using collect_pages [of xs "[]" pending ws] by simp
  with assms collect_append [of "since_checkpoint records" "[]" "[]" ws] show ?thesis
    by (auto simp: committed_since since_checkpoint_append)
qed

lemma committed_checkpoint:
  "is_checkpoint r \<Longrightarrow> committed_page_images (records @ [r]) = Inr []"
  by (simp add: committed_since since_checkpoint_def rposition_append)

lemma committed_suffix:
  "checkpoint_suffix disk recs \<Longrightarrow> committed_page_images disk = committed_page_images recs"
  by (simp add: committed_since since_checkpoint_suffix)

section \<open>Replaying committed changes\<close>

definition newer_or_equal :: "page option \<Rightarrow> u64 \<Rightarrow> bool" where
  "newer_or_equal current lsn \<longleftrightarrow> (case current of None \<Rightarrow> False | Some p \<Rightarrow> lsn \<le> page_lsn p)"

definition write_effect :: "committed_write \<Rightarrow> page option \<Rightarrow> page option" where
  "write_effect x current =
    (if newer_or_equal current (cw_lsn x) then current
     else Some \<lparr>page_id = cw_page_id x, page_lsn = cw_lsn x, page_payload =
       (case cw_append_at x of
          None \<Rightarrow> cw_payload x
        | Some offset \<Rightarrow>
            splice (case current of None \<Rightarrow> [] | Some p \<Rightarrow> page_payload p) (unat offset) (cw_payload x))\<rparr>)"

definition replay :: "committed_write list \<Rightarrow> (u64 \<Rightarrow> page option) \<Rightarrow> u64 \<Rightarrow> page option" where
  "replay ws m pid = fold write_effect (filter (\<lambda>x. cw_page_id x = pid) ws) (m pid)"

lemma replay_Nil [simp]: "replay [] m = m"
  by (rule ext) (simp add: replay_def)

lemma replay_append: "replay (ws @ ws') m = replay ws' (replay ws m)"
  by (rule ext) (simp add: replay_def)

lemma newer_write_effect: "newer_or_equal (write_effect x current) (cw_lsn x)"
  by (simp add: write_effect_def newer_or_equal_def)

lemma newer_mono: "newer_or_equal current lsn \<Longrightarrow> newer_or_equal (write_effect x current) lsn"
  by (auto simp: write_effect_def newer_or_equal_def split: option.splits if_splits)

lemma newer_fold: "newer_or_equal current lsn \<Longrightarrow> newer_or_equal (fold write_effect xs current) lsn"
  by (induction xs arbitrary: current) (auto intro: newer_mono)

lemma newer_than_replayed: "x \<in> set xs \<Longrightarrow> newer_or_equal (fold write_effect xs current) (cw_lsn x)"
  by (induction xs arbitrary: current) (auto intro: newer_fold newer_write_effect)

lemma replay_skips:
  "\<forall>x\<in>set xs. newer_or_equal current (cw_lsn x) \<Longrightarrow> fold write_effect xs current = current"
  by (induction xs) (auto simp: write_effect_def)

text \<open>Replaying the whole list on a page that already holds a prefix of it changes nothing about the result.\<close>

lemma fold_effect_prefix:
  "fold write_effect xs (fold write_effect (take k xs) current) = fold write_effect xs current"
proof -
  let ?p = "fold write_effect (take k xs) current"
  have "fold write_effect xs ?p = fold write_effect (drop k xs) (fold write_effect (take k xs) ?p)"
    by (metis append_take_drop_id fold_append comp_apply)
  also have "fold write_effect (take k xs) ?p = ?p"
    by (intro replay_skips ballI newer_than_replayed)
  also have "fold write_effect (drop k xs) ?p = fold write_effect xs current"
    by (metis append_take_drop_id fold_append comp_apply)
  finally show ?thesis .
qed

lemma filter_take: "\<exists>j. filter P (take k xs) = take j (filter P xs)"
  by (metis append_take_drop_id filter_append append_eq_conv_conj)

lemma replay_prefix:
  assumes "\<And>pid. \<exists>k. m pid = replay (take k ws) base pid"
  shows "replay ws m = replay ws base"
proof
  fix pid
  obtain k where "m pid = replay (take k ws) base pid" using assms by blast
  moreover obtain j where "filter (\<lambda>x. cw_page_id x = pid) (take k ws) = take j (filter (\<lambda>x. cw_page_id x = pid) ws)"
    using filter_take by blast
  ultimately show "replay ws m pid = replay ws base pid"
    by (simp add: replay_def fold_effect_prefix)
qed

section \<open>Recovery implements replay\<close>

text \<open>The pages recovery sees in a data file: a corrupt page counts as absent.\<close>

definition data_view :: "(bytes \<Rightarrow> u32) \<Rightarrow> os_file \<Rightarrow> u64 \<Rightarrow> page option" where
  "data_view crc f pid = (case data_read crc f pid of Inr p \<Rightarrow> p | Inl _ \<Rightarrow> None)"

lemma data_read_Some:
  "data_read crc f pid = Inr (Some p) \<Longrightarrow> page_id p = pid \<and> page_wf p"
  by (auto simp: data_read_def read_shared_def Let_def split: sum.splits if_splits dest: page_decode_wf)

lemma page_decode_error:
  "page_decode crc bs = Inl e \<Longrightarrow> length bs = PAGE_SIZE \<Longrightarrow> \<exists>pid r. e = CorruptPage pid r"
  by (auto simp: page_decode_def Let_def split: if_splits)

lemma data_read_error:
  "data_read crc f pid = Inl e \<Longrightarrow> page_offset pid = Inr x \<Longrightarrow> \<exists>pid r. e = CorruptPage pid r"
  by (auto simp: data_read_def read_shared_def Let_def split: sum.splits if_splits dest: page_decode_error)

lemma splice_length: "length (splice base off bs) = max (length base) (off + length bs)"
  by (simp add: splice_def Let_def max_def)

lemma recover_write_spec:
  assumes al: "page_aligned f" and ok: "recover_write crc x f = (Inr w, f')"
  shows "page_aligned f'"
    "data_read crc f' (cw_page_id x) = Inr (write_effect x (data_view crc f (cw_page_id x)))"
    "pid \<noteq> cw_page_id x \<Longrightarrow> data_read crc f' pid = data_read crc f pid"
proof -
  let ?cur = "data_view crc f (cw_page_id x)"
  let ?payload = "(case cw_append_at x of Some offset \<Rightarrow>
      splice (case ?cur of None \<Rightarrow> [] | Some p \<Rightarrow> page_payload p) (unat offset) (cw_payload x)
    | None \<Rightarrow> cw_payload x)"
  have cases: "(newer_or_equal ?cur (cw_lsn x) \<and> f' = f \<and> data_read crc f (cw_page_id x) = Inr ?cur) \<or>
     (\<not> newer_or_equal ?cur (cw_lsn x) \<and>
      (\<exists>p. page_with_lsn (cw_page_id x) (cw_lsn x) ?payload = Inr p \<and> data_write crc f p = (Inr (), f')))"
    using ok
    by (auto simp: recover_write_def data_view_def newer_or_equal_def Let_def try_then_def
        split: sum.splits storage_error.splits option.splits if_splits prod.splits)
  show "page_aligned f'" 
    using cases al data_write_aligned page_with_lsn_wf by metis
  show "data_read crc f' (cw_page_id x) = Inr (write_effect x ?cur)"
    using cases
  proof
    assume "\<not> newer_or_equal ?cur (cw_lsn x) \<and>
      (\<exists>p. page_with_lsn (cw_page_id x) (cw_lsn x) ?payload = Inr p \<and> data_write crc f p = (Inr (), f'))"
    then obtain p where n: "\<not> newer_or_equal ?cur (cw_lsn x)"
      and p: "page_with_lsn (cw_page_id x) (cw_lsn x) ?payload = Inr p" "data_write crc f p = (Inr (), f')"
      by blast
    have "page_id p = cw_page_id x" "write_effect x ?cur = Some p"
      using p(1) n by (auto simp: page_with_lsn_Inr_iff write_effect_def split: option.splits)
    then show ?thesis using data_read_write_same [OF page_with_lsn_wf [OF p(1)] p(2)] by simp
  qed (auto simp: write_effect_def)
  show "data_read crc f' pid = data_read crc f pid" if "pid \<noteq> cw_page_id x"
    using cases
  proof
    assume "\<not> newer_or_equal ?cur (cw_lsn x) \<and>
      (\<exists>p. page_with_lsn (cw_page_id x) (cw_lsn x) ?payload = Inr p \<and> data_write crc f p = (Inr (), f'))"
    then obtain p where
      p: "page_with_lsn (cw_page_id x) (cw_lsn x) ?payload = Inr p" "data_write crc f p = (Inr (), f')"
      by blast
    then show ?thesis
      using data_read_write_other [OF al page_with_lsn_wf [OF p(1)] p(2)] that
      by (auto simp: page_with_lsn_Inr_iff)
  qed simp
qed

lemma replay_Cons: "replay (x # ws) m = replay ws (m(cw_page_id x := write_effect x (m (cw_page_id x))))"
  by (rule ext) (simp add: replay_def)

lemma recover_writes_spec:
  assumes "page_aligned f" "recover_writes crc ws b f = (Inr w, f')"
  shows "page_aligned f' \<and> (\<forall>pid. data_read crc f' pid =
    (if pid \<in> cw_page_id ` set ws then Inr (replay ws (data_view crc f) pid) else data_read crc f pid))"
  using assms
proof (induction ws arbitrary: b f)
  case (Cons x ws)
  from Cons.prems(2) obtain b' g where g: "recover_write crc x f = (Inr b', g)"
    "recover_writes crc ws (b \<or> b') g = (Inr w, f')"
    by (auto elim!: try_then_okE)
  note s = recover_write_spec [OF Cons.prems(1) g(1)]
  have v: "data_view crc g = (data_view crc f)
      (cw_page_id x := write_effect x (data_view crc f (cw_page_id x)))"
    using s(2,3) by (auto simp: data_view_def fun_eq_iff)
  have ih: "page_aligned f' \<and> (\<forall>pid. data_read crc f' pid =
    (if pid \<in> cw_page_id ` set ws then Inr (replay ws (data_view crc g) pid) else data_read crc g pid))"
    using Cons.IH [OF s(1) g(2)] .
  have "replay ws m pid = m pid" if "pid \<notin> cw_page_id ` set ws" for m pid
  proof -
    have "filter (\<lambda>x. cw_page_id x = pid) ws = []" using that by (auto simp: filter_empty_conv)
    then show ?thesis by (simp add: replay_def)
  qed
  then show ?case using ih s(2,3) by (auto simp: replay_Cons v)
qed simp

section \<open>Recovery succeeds on a working disk\<close>

definition addressable :: "u64 \<Rightarrow> bool" where
  "addressable pid \<longleftrightarrow> unat pid * PAGE_SIZE < 2 ^ 64"

lemma addressable_offset: "addressable pid \<longleftrightarrow> page_offset pid = Inr (unat pid * PAGE_SIZE)"
  by (simp add: addressable_def page_offset_def)

lemma addressable_not_none: "addressable pid \<Longrightarrow> pid \<noteq> NO_PAGE_ID"
  by (auto simp: addressable_def NO_PAGE_ID_def PAGE_SIZE_def unsigned_minus_1_eq_mask mask_eq_exp_minus_1)

definition fits :: "committed_write \<Rightarrow> bool" where
  "fits x \<longleftrightarrow> addressable (cw_page_id x) \<and>
    (case cw_append_at x of None \<Rightarrow> 0 | Some offset \<Rightarrow> unat offset) + length (cw_payload x) \<le> MAX_PAGE_PAYLOAD"

lemma data_view_wf: "data_view crc f pid = Some p \<Longrightarrow> page_wf p \<and> page_id p = pid"
  by (auto simp: data_view_def split: sum.splits dest: data_read_Some)

lemma healthy_file_put [simp]: "healthy (file_put f buf off) = healthy f"
  by (simp add: healthy_def)

lemma recover_write_total:
  assumes "healthy f" "fits x"
  shows "\<exists>w f'. recover_write crc x f = (Inr w, f') \<and> healthy f'"
proof -
  let ?pid = "cw_page_id x"
  have off: "page_offset ?pid = Inr (unat ?pid * PAGE_SIZE)"
    using assms(2) by (simp add: fits_def addressable_offset)
  have cur: "(case data_read crc f ?pid of Inr p \<Rightarrow> Inr p | Inl (CorruptPage pid reason) \<Rightarrow> Inr None
      | Inl e \<Rightarrow> Inl e) = (Inr (data_view crc f ?pid) :: storage_error + page option)"
    using data_read_error [of crc f ?pid, OF _ off] by (fastforce simp: data_view_def split: sum.splits)
  have len: "length (case cw_append_at x of Some offset \<Rightarrow>
      splice (case data_view crc f ?pid of None \<Rightarrow> [] | Some p \<Rightarrow> page_payload p) (unat offset) (cw_payload x)
    | None \<Rightarrow> cw_payload x) \<le> MAX_PAGE_PAYLOAD"
    using assms(2) data_view_wf [of crc f ?pid]
    by (auto simp: fits_def page_wf_def splice_length split: option.splits)
  show ?thesis
    unfolding recover_write_def cur
    using len assms(1)
    by (auto simp: Let_def page_with_lsn_def data_write_def off healthy_ops split: option.splits)
qed

lemma recover_writes_total:
  assumes "healthy f" "\<forall>x\<in>set ws. fits x"
  shows "\<exists>w f'. recover_writes crc ws b f = (Inr w, f') \<and> healthy f'"
  using assms
proof (induction ws arbitrary: b f)
  case (Cons x ws)
  obtain w g where g: "recover_write crc x f = (Inr w, g)" "healthy g"
    using recover_write_total [OF Cons.prems(1)] Cons.prems(2) by force
  then show ?case using Cons.IH [OF g(2)] Cons.prems(2) by simp
qed simp

end
