(* ===== verification/Store_Inv.thy ===== *)
theory Store_Inv
  imports Recovery
begin

text \<open>
  The invariant of a running store and what every operation does to it. The ghost \<open>base\<close> is the
  content of the data file at the last checkpoint and \<open>ws\<close> the changes committed since, as they
  stand in the log; readers see \<open>replay ws base\<close>, and the data file holds, page by page, the
  result of some prefix of \<open>ws\<close>.
\<close>

section \<open>Logging several records\<close>

fun wal_append_all ::
    "(bytes \<Rightarrow> u32) \<Rightarrow> wal_kind list \<Rightarrow> wal \<Rightarrow> (storage_error + u64 list) \<times> wal" where
  "wal_append_all crc [] w = (Inr [], w)"
| "wal_append_all crc (k # ks) w =
    try_then (wal_append crc k w) (\<lambda>lsn w.
    try_then (wal_append_all crc ks w) (\<lambda>lsns w.
    (Inr (lsn # lsns), w)))"

definition numbered :: "u64 list \<Rightarrow> wal_kind list \<Rightarrow> wal_record list" where
  "numbered lsns ks = map2 (\<lambda>l k. \<lparr>rec_lsn = l, rec_kind = k\<rparr>) lsns ks"

lemma wal_append_all_inv:
  assumes "wal_inv crc w L" "\<forall>k\<in>set ks. scannable k" "wal_append_all crc ks w = (Inr lsns, w')"
  shows "length lsns = length ks \<and> active w' = active w \<and> retired w' = retired w \<and>
    wal_inv crc w' (extend_log L (active w) (numbered lsns ks)) \<and>
    wal_records w' = wal_records w @ numbered lsns ks \<and> next_lsn w \<le> next_lsn w' \<and>
    sorted_wrt (<) lsns \<and> (\<forall>l\<in>set lsns. next_lsn w \<le> l \<and> l < next_lsn w')"
  using assms
proof (induction ks arbitrary: w L lsns)
  case Nil
  then show ?case by (simp add: numbered_def)
next
  case (Cons k ks)
  from Cons.prems(3) obtain l v ls where
    v: "wal_append crc k w = (Inr l, v)" "wal_append_all crc ks v = (Inr ls, w')" "lsns = l # ls"
    by (auto elim!: try_then_okE)
  let ?r = "\<lparr>rec_lsn = l, rec_kind = k\<rparr>"
  have k: "scannable k" using Cons.prems(2) by simp
  have logs: "wal_logs crc w L" using Cons.prems(1) by (simp add: wal_inv_def)
  note a = wal_append_logs [OF logs k v(1)] and inv = wal_append_inv [OF Cons.prems(1) k v(1)]
  have ks: "\<forall>k\<in>set ks. scannable k" using Cons.prems(2) by simp
  have ih: "length ls = length ks \<and> active w' = active w \<and> retired w' = retired w \<and>
    wal_inv crc w' (extend_log L (active w) (?r # numbered ls ks)) \<and>
    wal_records w' = wal_records v @ numbered ls ks \<and> next_lsn v \<le> next_lsn w' \<and>
    sorted_wrt (<) ls \<and> (\<forall>l\<in>set ls. next_lsn v \<le> l \<and> l < next_lsn w')"
    using Cons.IH [OF inv ks v(2)] a(2,3) by simp
  have n: "numbered lsns (k # ks) = ?r # numbered ls ks" by (simp add: v(3) numbered_def)
  show ?case
    using ih a v(3) n by (auto intro: less_le_trans order.strict_implies_order le_less_trans)
qed

lemma append_writes_all:
  "\<forall>x\<in>set xs. length (pw_payload x) \<le> MAX_PAGE_PAYLOAD \<Longrightarrow>
    append_writes crc xs w = wal_append_all crc (map (\<lambda>x. PageImage (pw_page_id x) (pw_payload x)) xs) w"
proof (induction xs arbitrary: w)
  case (Cons x xs)
  then have "append_writes crc xs = wal_append_all crc (map (\<lambda>x. PageImage (pw_page_id x) (pw_payload x)) xs)"
    by auto
  with Cons.prems show ?case by (simp add: append_page_def)
qed simp

lemma append_tails_all:
  "\<forall>x\<in>set xs. length (pa_payload x) \<le> MAX_PAGE_PAYLOAD \<Longrightarrow>
    append_tails crc xs w =
      wal_append_all crc (map (\<lambda>x. PageAppend (pa_page_id x) (pa_offset x) (pa_payload x)) xs) w"
proof (induction xs arbitrary: w)
  case (Cons x xs)
  then have "append_tails crc xs =
      wal_append_all crc (map (\<lambda>x. PageAppend (pa_page_id x) (pa_offset x) (pa_payload x)) xs)"
    by auto
  with Cons.prems show ?case by (simp add: append_page_tail_def)
qed simp

lemma append_batch_commit_ok:
  assumes "append_batch_commit crc n w = (r, w')" "r = Inr l"
  shows "0 < n" "n < 2 ^ 32" "wal_append crc (BatchCommit (word_of_nat n)) w = (Inr l, w')"
  using assms by (auto simp: append_batch_commit_def Let_def split: if_splits)

lemma scannable_batch: "0 < n \<Longrightarrow> n < 2 ^ 32 \<Longrightarrow> scannable (BatchCommit (word_of_nat n))"
proof -
  assume n: "0 < n" "n < 2 ^ 32"
  have "(word_of_nat n :: u32) \<noteq> 0" using unat_word_of_nat_u32 [OF n(2)] n(1) by auto
  then show ?thesis by simp
qed

text \<open>Changes that are about to be logged, and the batch of records they become.\<close>

definition cw_image :: "page_write \<Rightarrow> u64 \<Rightarrow> committed_write" where
  "cw_image x lsn = \<lparr>cw_lsn = lsn, cw_page_id = pw_page_id x, cw_payload = pw_payload x, cw_append_at = None\<rparr>"

definition cw_tail :: "page_append \<Rightarrow> u64 \<Rightarrow> committed_write" where
  "cw_tail x lsn = \<lparr>cw_lsn = lsn, cw_page_id = pa_page_id x, cw_payload = pa_payload x,
     cw_append_at = Some (pa_offset x)\<rparr>"

lemma cw_sel [simp]:
  "cw_lsn (cw_image x lsn) = lsn" "cw_page_id (cw_image x lsn) = pw_page_id x"
  "cw_payload (cw_image x lsn) = pw_payload x" "cw_append_at (cw_image x lsn) = None"
  "cw_lsn (cw_tail y lsn) = lsn" "cw_page_id (cw_tail y lsn) = pa_page_id y"
  "cw_payload (cw_tail y lsn) = pa_payload y" "cw_append_at (cw_tail y lsn) = Some (pa_offset y)"
  by (simp_all add: cw_image_def cw_tail_def)

lemma numbered_images:
  "numbered lsns (map (\<lambda>x. PageImage (pw_page_id x) (pw_payload x)) xs) = map rec_of (map2 cw_image xs lsns)"
  by (auto intro!: nth_equalityI simp: numbered_def rec_of_def cw_image_def)

lemma numbered_tails:
  "numbered lsns (map (\<lambda>x. PageAppend (pa_page_id x) (pa_offset x) (pa_payload x)) xs) =
    map rec_of (map2 cw_tail xs lsns)"
  by (auto intro!: nth_equalityI simp: numbered_def rec_of_def cw_tail_def)

section \<open>The invariant\<close>

definition pages_ok :: "u64 \<Rightarrow> (u64 \<Rightarrow> page option) \<Rightarrow> bool" where
  "pages_ok n m \<longleftrightarrow> (\<forall>pid p. m pid = Some p \<longrightarrow> page_lsn p < n \<and> page_wf p \<and> page_id p = pid \<and> addressable pid)"

definition changes_ok :: "u64 \<Rightarrow> committed_write list \<Rightarrow> bool" where
  "changes_ok n ws \<longleftrightarrow> (\<forall>x\<in>set ws. cw_lsn x < n \<and> fits x)"

text \<open>Readers see \<open>m\<close> through the dirty table, and every dirty page is due to be flushed or has been.\<close>

definition table_inv :: "(bytes \<Rightarrow> u32) \<Rightarrow> store \<Rightarrow> (u64 \<Rightarrow> page option) \<Rightarrow> bool" where
  "table_inv crc s m \<longleftrightarrow>
    distinct (map fst (dirty s)) \<and>
    (\<forall>pid. case map_of (dirty s) pid of
       Some p \<Rightarrow> addressable pid \<and> m pid = Some p \<and>
         (pid \<in> set (flush_queue s) \<or> pid \<in> set (open_pages s) \<or> map_of (flushed s) pid = Some (page_lsn p))
     | None \<Rightarrow> addressable pid \<longrightarrow> data_read crc (st_data s) pid = Inr (m pid))"

definition flushed_inv :: "(bytes \<Rightarrow> u32) \<Rightarrow> store \<Rightarrow> bool" where
  "flushed_inv crc s \<longleftrightarrow>
    (\<forall>pid l. map_of (flushed s) pid = Some l \<longrightarrow>
      (\<exists>p. data_read crc (st_data s) pid = Inr (Some p) \<and> page_lsn p = l))"

definition data_lags :: "(bytes \<Rightarrow> u32) \<Rightarrow> os_file \<Rightarrow> (u64 \<Rightarrow> page option) \<Rightarrow> committed_write list \<Rightarrow> bool" where
  "data_lags crc f base ws \<longleftrightarrow>
    (\<forall>pid. addressable pid \<longrightarrow> (\<exists>k. data_read crc f pid = Inr (replay (take k ws) base pid)))"

definition store_inv ::
    "(bytes \<Rightarrow> u32) \<Rightarrow> store \<Rightarrow> (nat \<Rightarrow> wal_record list) \<Rightarrow> (u64 \<Rightarrow> page option) \<Rightarrow>
     committed_write list \<Rightarrow> bool" where
  "store_inv crc s L base ws \<longleftrightarrow>
    wal_inv crc (st_wal s) L \<and> committed_page_images (wal_records (st_wal s)) = Inr ws \<and>
    page_aligned (st_data s) \<and> changes_ok (next_lsn (st_wal s)) ws \<and>
    pages_ok (next_lsn (st_wal s)) base \<and> data_lags crc (st_data s) base ws \<and>
    table_inv crc s (replay ws base) \<and> flushed_inv crc s"

lemma inv_wal_update [simp]:
  "table_inv crc (s\<lparr>st_wal := w\<rparr>) m = table_inv crc s m"
  "flushed_inv crc (s\<lparr>st_wal := w\<rparr>) = flushed_inv crc s"
  by (simp_all add: table_inv_def flushed_inv_def cong: option.case_cong)

lemma store_inv_read:
  assumes "store_inv crc s L base ws" "addressable pid"
  shows "read_page crc pid s = Inr (replay ws base pid)"
  using assms by (auto simp: store_inv_def table_inv_def read_page_def dirty_get_def split: option.splits
      dest!: spec [of _ pid])

lemma pages_ok_mono: "pages_ok n m \<Longrightarrow> n \<le> n' \<Longrightarrow> pages_ok n' m"
  by (auto simp: pages_ok_def intro: less_le_trans)

lemma changes_ok_mono: "changes_ok n ws \<Longrightarrow> n \<le> n' \<Longrightarrow> changes_ok n' ws"
  by (auto simp: changes_ok_def intro: less_le_trans)

lemma changes_ok_append [simp]: "changes_ok n (ws @ ws') \<longleftrightarrow> changes_ok n ws \<and> changes_ok n ws'"
  by (auto simp: changes_ok_def)

lemma write_effect_ok:
  assumes "\<And>p. cur = Some p \<Longrightarrow> page_lsn p < n \<and> page_wf p \<and> page_id p = cw_page_id x"
    and "cw_lsn x < n" "fits x" "write_effect x cur = Some q"
  shows "page_lsn q < n \<and> page_wf q \<and> page_id q = cw_page_id x"
  using assms
  by (cases cur)
    (auto simp: write_effect_def newer_or_equal_def fits_def page_wf_def splice_length split: if_splits option.splits)

lemma pages_ok_replay: "pages_ok n m \<Longrightarrow> changes_ok n ws \<Longrightarrow> pages_ok n (replay ws m)"
proof (induction ws arbitrary: m)
  case (Cons x ws)
  have "pages_ok n (m(cw_page_id x := write_effect x (m (cw_page_id x))))"
    unfolding pages_ok_def
  proof (intro allI impI)
    fix pid p assume p: "(m(cw_page_id x := write_effect x (m (cw_page_id x)))) pid = Some p"
    have x: "cw_lsn x < n" "fits x" using Cons.prems(2) by (simp_all add: changes_ok_def)
    have m: "page_lsn q < n \<and> page_wf q \<and> page_id q = pid' \<and> addressable pid'" if "m pid' = Some q" for pid' q
      using Cons.prems(1) that by (simp add: pages_ok_def)
    show "page_lsn p < n \<and> page_wf p \<and> page_id p = pid \<and> addressable pid"
    proof (cases "pid = cw_page_id x")
      case True
      with p have "write_effect x (m (cw_page_id x)) = Some p" by simp
      from write_effect_ok [OF _ x this] m show ?thesis using True x(2) by (simp add: fits_def)
    next
      case False
      with p m show ?thesis by simp
    qed
  qed
  then show ?case using Cons by (simp add: replay_Cons changes_ok_def)
qed simp

section \<open>Installing pages in the dirty table\<close>

lemma table_put:
  assumes t: "table_inv crc s m" and a: "addressable pid"
    and s': "dirty s' = AList.update pid p (dirty s)" "st_data s' = st_data s" "flushed s' = flushed s"
    and q: "pid \<in> set (flush_queue s') \<or> pid \<in> set (open_pages s')"
    "\<And>x. x \<noteq> pid \<Longrightarrow> x \<in> set (flush_queue s) \<or> x \<in> set (open_pages s) \<Longrightarrow>
      x \<in> set (flush_queue s') \<or> x \<in> set (open_pages s')"
  shows "table_inv crc s' (m(pid \<mapsto> p))"
proof -
  have "distinct (map fst (dirty s'))" using t by (simp add: s' table_inv_def distinct_update)
  moreover have "map_of (dirty s') = (map_of (dirty s))(pid \<mapsto> p)" by (simp add: s' update_conv')
  ultimately show ?thesis
    using t a q unfolding table_inv_def by (auto simp: s' split: option.splits)
qed

lemma pages_ok_not_newer: "pages_ok lsn m \<Longrightarrow> \<not> newer_or_equal (m pid) lsn"
  by (cases "m pid") (auto simp: newer_or_equal_def pages_ok_def not_le)

lemma effect_newer:
  assumes "pages_ok lsn m" "cw_lsn x = lsn" "cw_append_at x = None"
  shows "write_effect x (m (cw_page_id x)) =
    Some \<lparr>page_id = cw_page_id x, page_lsn = lsn, page_payload = cw_payload x\<rparr>"
  using assms pages_ok_not_newer [OF assms(1)] by (simp add: write_effect_def)

text \<open>What an install leaves unchanged.\<close>

definition same_files :: "store \<Rightarrow> store \<Rightarrow> bool" where
  "same_files s s' \<longleftrightarrow> st_data s' = st_data s \<and> st_wal s' = st_wal s \<and> flushed s' = flushed s \<and>
    poisoned s' = poisoned s \<and> checkpoint_in_flight s' = checkpoint_in_flight s"

lemma same_files_trans: "same_files s t \<Longrightarrow> same_files t u \<Longrightarrow> same_files s u"
  by (simp add: same_files_def)

lemma install_writes_inv:
  assumes "length xs = length lsns" "sorted_wrt (<) lsns" "\<forall>l\<in>set lsns. pages_ok l m"
    "\<forall>x\<in>set xs. addressable (pw_page_id x)" "table_inv crc s m"
    "install_writes (zip xs lsns) s = (Inr u, s')"
  shows "table_inv crc s' (replay (map2 cw_image xs lsns) m) \<and> same_files s s'"
  using assms
proof (induction xs lsns arbitrary: s m rule: list_induct2)
  case Nil
  then show ?case by (simp add: same_files_def)
next
  case (Cons x xs l ls)
  let ?pid = "pw_page_id x"
  from Cons.prems obtain p where p: "page_with_lsn ?pid l (pw_payload x) = Inr p"
    by (auto split: sum.splits)
  let ?t = "s\<lparr>dirty := AList.update ?pid p (dirty s), flush_queue := flush_queue s @ [?pid],
    allocator := note_written ?pid (allocator s)\<rparr>"
  have pe: "p = \<lparr>page_id = ?pid, page_lsn = l, page_payload = pw_payload x\<rparr>"
    using p by (simp add: page_with_lsn_Inr_iff)
  have rest: "install_writes (zip xs ls) ?t = (Inr u, s')" using Cons.prems(5) p by simp
  have t: "table_inv crc ?t (m(?pid \<mapsto> p))"
    using Cons.prems(3,4) by (intro table_put) auto
  have m: "m(?pid \<mapsto> p) = m(?pid := write_effect (cw_image x l) (m ?pid))"
    using effect_newer [of l m "cw_image x l"] Cons.prems(2) by (simp add: pe)
  have ok: "\<forall>l'\<in>set ls. pages_ok l' (m(?pid \<mapsto> p))"
    using Cons.prems(1-3) page_with_lsn_wf [OF p] by (auto simp: pages_ok_def pe)
  have "table_inv crc s' (replay (map2 cw_image xs ls) (m(?pid \<mapsto> p))) \<and> same_files ?t s'"
    by (rule Cons.IH [OF _ ok _ t rest]) (use Cons.prems in simp_all)
  then show ?case by (simp add: replay_Cons m same_files_def)
qed

section \<open>Committing a batch\<close>

lemma on_wal_okE:
  assumes "on_wal op s = (Inr a, s')"
  obtains w where "op (st_wal s) = (Inr a, w)" "s' = s\<lparr>st_wal := w\<rparr>"
  using assms by (auto simp: on_wal_def split: prod.splits)

lemma on_data_okE:
  assumes "on_data op s = (Inr a, s')"
  obtains f where "op (st_data s) = (Inr a, f)" "s' = s\<lparr>st_data := f\<rparr>"
  using assms by (auto simp: on_data_def split: prod.splits)

lemma log_batch_inv:
  assumes inv: "wal_inv crc w L" and ws: "committed_page_images (wal_records w) = Inr ws"
    and ks: "\<forall>k\<in>set ks. scannable k"
    and a: "wal_append_all crc ks w = (Inr lsns, w1)"
    and c: "append_batch_commit crc (length ks) w1 = (Inr l, w2)"
    and sy: "(if durable then wal_sync w2 else (Inr (), w2)) = (Inr u, w3)"
    and num: "numbered lsns ks = map rec_of xs"
  shows "wal_inv crc w3 (extend_log L (active w) (batch_records xs l))"
    "committed_page_images (wal_records w3) = Inr (ws @ xs)"
    "wal_records w3 = wal_records w @ batch_records xs l"
    "length lsns = length ks" "sorted_wrt (<) lsns"
    "\<And>n. n \<in> set lsns \<Longrightarrow> next_lsn w \<le> n \<and> n < next_lsn w3" "next_lsn w \<le> next_lsn w3"
    "active w3 = active w" "retired w3 = retired w"
proof -
  note b = wal_append_all_inv [OF inv ks a]
  have len: "length xs = length ks"
    using arg_cong [OF num, of length] b by (simp add: numbered_def)
  note bc = append_batch_commit_ok [OF c refl]
  have inv1: "wal_inv crc w1 (extend_log L (active w) (numbered lsns ks))" using b by simp
  have logs1: "wal_logs crc w1 (extend_log L (active w) (numbered lsns ks))"
    using inv1 by (simp add: wal_inv_def)
  have sc: "scannable (BatchCommit (word_of_nat (length ks)))" by (rule scannable_batch [OF bc(1,2)])
  note d = wal_append_logs [OF logs1 sc bc(3)]
  have recs: "batch_records xs l = numbered lsns ks @ [\<lparr>rec_lsn = l, rec_kind = BatchCommit (word_of_nat (length ks))\<rparr>]"
    by (simp add: batch_records_def num len)
  have "wal_inv crc w2 (extend_log (extend_log L (active w) (numbered lsns ks)) (active w1)
      [\<lparr>rec_lsn = l, rec_kind = BatchCommit (word_of_nat (length ks))\<rparr>])"
    by (rule wal_append_inv [OF inv1 sc bc(3)])
  then have inv2: "wal_inv crc w2 (extend_log L (active w) (batch_records xs l))"
    using b by (simp add: recs)
  have recs2: "wal_records w2 = wal_records w @ batch_records xs l"
    using b d(5) by (simp add: recs)
  have w3: "wal_inv crc w3 (extend_log L (active w) (batch_records xs l)) \<and> wal_records w3 = wal_records w2 \<and>
      next_lsn w3 = next_lsn w2 \<and> active w3 = active w2 \<and> retired w3 = retired w2"
    using sy inv2 wal_sync_inv [OF inv2] by (auto split: if_splits)
  show "wal_inv crc w3 (extend_log L (active w) (batch_records xs l))" using w3 by simp
  show "wal_records w3 = wal_records w @ batch_records xs l" using w3 recs2 by simp
  show "committed_page_images (wal_records w3) = Inr (ws @ xs)"
    using committed_batch [OF ws, of xs l] w3 recs2 bc(2) len by simp
  show "length lsns = length ks" "sorted_wrt (<) lsns" using b by simp_all
  show "next_lsn w \<le> n \<and> n < next_lsn w3" if "n \<in> set lsns" for n
    using b d(4) w3 that by (auto intro: less_trans)
  show "next_lsn w \<le> next_lsn w3" using b d(4) w3 by auto
  show "active w3 = active w" "retired w3 = retired w" using b d(2,3) w3 by simp_all
qed

lemma data_lags_append:
  assumes "data_lags crc f base ws" shows "data_lags crc f base (ws @ xs)"
  unfolding data_lags_def
proof (intro allI impI)
  fix pid assume "addressable pid"
  then obtain k where k: "data_read crc f pid = Inr (replay (take k ws) base pid)"
    using assms by (auto simp: data_lags_def)
  have "take k ws = take (min k (length ws)) (ws @ xs)" by (simp add: min_def)
  with k show "\<exists>k. data_read crc f pid = Inr (replay (take k (ws @ xs)) base pid)" by metis
qed

lemma append_writes_sizes:
  "append_writes crc xs w = (Inr lsns, w') \<Longrightarrow> \<forall>x\<in>set xs. length (pw_payload x) \<le> MAX_PAGE_PAYLOAD"
  by (induction xs arbitrary: w lsns) (auto simp: append_page_def elim!: try_then_okE split: if_splits)

lemma write_pages_inner_inv:
  assumes inv: "store_inv crc s L base ws"
    and addr: "\<forall>x\<in>set writes. addressable (pw_page_id x)"
    and ok: "write_pages_inner crc writes durable s = (Inr lsns, s')"
  shows "\<exists>l. store_inv crc s' (extend_log L (active (st_wal s)) (batch_records (map2 cw_image writes lsns) l)) base
      (ws @ map2 cw_image writes lsns)" "active (st_wal s') = active (st_wal s)"
    "length lsns = length writes" "poisoned s' = poisoned s"
    "checkpoint_in_flight s' = checkpoint_in_flight s"
proof -
  let ?w = "st_wal s" and ?xs = "map2 cw_image writes lsns"
  from ok obtain w1 l w2 w3 u where
    a: "append_writes crc writes ?w = (Inr lsns, w1)"
    and c: "append_batch_commit crc (length writes) w1 = (Inr l, w2)"
    and sy: "(if durable then wal_sync w2 else (Inr (), w2)) = (Inr u, w3)"
    and ins: "install_writes (zip writes lsns) (s\<lparr>st_wal := w3\<rparr>) = (Inr (), s')"
    by (fastforce simp: write_pages_inner_def elim!: try_then_okE on_wal_okE split: if_splits)
  have small: "\<forall>x\<in>set writes. length (pw_payload x) \<le> MAX_PAGE_PAYLOAD" by (rule append_writes_sizes [OF a])
  let ?ks = "map (\<lambda>x. PageImage (pw_page_id x) (pw_payload x)) writes"
  have ks: "\<forall>k\<in>set ?ks. scannable k" using small addr addressable_not_none by auto
  have wi: "wal_inv crc ?w L" "committed_page_images (wal_records ?w) = Inr ws"
    using inv by (simp_all add: store_inv_def)
  note b = log_batch_inv [OF wi ks a [unfolded append_writes_all [OF small]] _ sy numbered_images,
      unfolded length_map, OF c]
  show len: "length lsns = length writes" using b(4) by simp
  have mono: "next_lsn ?w \<le> next_lsn w3" by (rule b(7))
  have pages: "\<forall>n\<in>set lsns. pages_ok n (replay ws base)"
    using inv b(6) pages_ok_replay [of "next_lsn ?w" base ws] pages_ok_mono by (auto simp: store_inv_def)
  have "table_inv crc (s\<lparr>st_wal := w3\<rparr>) (replay ws base)"
    using inv by (simp add: store_inv_def)
  from install_writes_inv [OF len [symmetric] b(5) pages addr this ins]
  have t: "table_inv crc s' (replay (ws @ ?xs) base)" and sf: "same_files (s\<lparr>st_wal := w3\<rparr>) s'"
    by (simp_all add: replay_append)
  have new: "changes_ok (next_lsn w3) ?xs"
    using small addr b(6) by (auto simp: changes_ok_def fits_def set_zip)
  have "store_inv crc s' (extend_log L (active ?w) (batch_records ?xs l)) base (ws @ ?xs)"
    using inv b(1,2) t sf new mono changes_ok_mono pages_ok_mono
    by (auto simp: store_inv_def same_files_def flushed_inv_def data_lags_append)
  then show "\<exists>l. store_inv crc s' (extend_log L (active ?w) (batch_records ?xs l)) base (ws @ ?xs)" by blast
  show "active (st_wal s') = active ?w" using b(8) sf by (simp add: same_files_def)
  show "poisoned s' = poisoned s" "checkpoint_in_flight s' = checkpoint_in_flight s"
    using sf by (simp_all add: same_files_def)
qed

section \<open>Appending inside pages\<close>

definition grown_page :: "(u64 \<times> u64) list \<Rightarrow> u64 \<Rightarrow> bytes \<Rightarrow> page" where
  "grown_page newest pid payload =
    \<lparr>page_id = pid, page_lsn = the (map_of newest pid), page_payload = payload\<rparr>"

text \<open>\<open>grown\<close> and \<open>newest\<close> describe how \<open>v\<close> differs from \<open>m\<close>.\<close>

definition grow_rel ::
    "(u64 \<times> bytes) list \<Rightarrow> (u64 \<times> u64) list \<Rightarrow> (u64 \<Rightarrow> page option) \<Rightarrow> (u64 \<Rightarrow> page option) \<Rightarrow> bool" where
  "grow_rel grown newest v m \<longleftrightarrow>
    distinct (map fst grown) \<and>
    (\<forall>pid. v pid = (case map_of grown pid of Some b \<Rightarrow> Some (grown_page newest pid b) | None \<Rightarrow> m pid))"

lemma append_base_view:
  assumes "table_inv crc s m" "addressable pid"
  shows "append_base crc pid s = Inr (case m pid of None \<Rightarrow> [] | Some p \<Rightarrow> page_payload p)"
proof -
  have "(case map_of (dirty s) pid of Some p \<Rightarrow> m pid = Some p | None \<Rightarrow> data_read crc (st_data s) pid = Inr (m pid))"
    using assms by (auto simp: table_inv_def split: option.splits dest!: spec [of _ pid])
  then show ?thesis by (auto simp: append_base_def dirty_get_def split: option.splits)
qed

lemma grow_rel_step:
  assumes rel: "grow_rel grown newest v m" and ok: "pages_ok l v"
    and target: "target = (case v (pa_page_id x) of None \<Rightarrow> [] | Some p \<Rightarrow> page_payload p)"
  shows "grow_rel (AList.update (pa_page_id x) (splice target (unat (pa_offset x)) (pa_payload x)) grown)
     (AList.update (pa_page_id x) l newest)
     (v(pa_page_id x := write_effect (cw_tail x l) (v (pa_page_id x)))) m"
proof -
  have "write_effect (cw_tail x l) (v (pa_page_id x)) =
      Some \<lparr>page_id = pa_page_id x, page_lsn = l, page_payload = splice target (unat (pa_offset x)) (pa_payload x)\<rparr>"
    using pages_ok_not_newer [OF ok] target by (simp add: write_effect_def)
  then show ?thesis
    using rel by (auto simp: grow_rel_def grown_page_def distinct_update update_conv' split: option.splits)
qed

lemma grow_pages_inv:
  assumes "length xs = length ls" "sorted_wrt (<) ls" "\<forall>l\<in>set ls. pages_ok l v"
    "\<forall>x\<in>set xs. addressable (pa_page_id x)" "table_inv crc s m"
    "grow_rel grown newest v m" "grow_pages crc s xs grown = Inr grown'"
  shows "grow_rel grown' (newest_lsns (zip xs ls) newest) (replay (map2 cw_tail xs ls) v) m \<and>
    (\<forall>x\<in>set xs. unat (pa_offset x) + length (pa_payload x) \<le> MAX_PAGE_PAYLOAD) \<and>
    fst ` set grown' \<subseteq> fst ` set grown \<union> pa_page_id ` set xs"
  using assms
proof (induction xs ls arbitrary: grown newest v rule: list_induct2)
  case (Cons x xs l ls)
  let ?pid = "pa_page_id x"
  let ?target = "case v ?pid of None \<Rightarrow> [] | Some p \<Rightarrow> page_payload p"
  have tgt: "(case map_of grown ?pid of Some b \<Rightarrow> Inr b | None \<Rightarrow> append_base crc ?pid s) = Inr ?target"
    using Cons.prems(3,5) append_base_view [OF Cons.prems(4), of ?pid]
    by (auto simp: grow_rel_def grown_page_def split: option.splits)
  let ?g = "AList.update ?pid (splice ?target (unat (pa_offset x)) (pa_payload x)) grown"
  have fit: "unat (pa_offset x) + length (pa_payload x) \<le> MAX_PAGE_PAYLOAD"
    and rest: "grow_pages crc s xs ?g = Inr grown'"
    using Cons.prems(6) unfolding grow_pages.simps tgt
    by (auto simp: checked_add_usize_def split: if_splits option.splits)
  let ?v = "v(?pid := write_effect (cw_tail x l) (v ?pid))"
  have rel: "grow_rel ?g (AList.update ?pid l newest) ?v m"
    by (rule grow_rel_step [OF Cons.prems(5)]) (use Cons.prems(2) in auto)
  have ok: "\<forall>l'\<in>set ls. pages_ok l' ?v"
  proof
    fix l' assume l': "l' \<in> set ls"
    have "pages_ok l' v" "l < l'" using Cons.prems(1,2) l' by auto
    moreover have "fits (cw_tail x l)" using fit Cons.prems(3) by (simp add: fits_def)
    ultimately have "pages_ok l' (replay [cw_tail x l] v)"
      by (intro pages_ok_replay) (auto simp: changes_ok_def)
    then show "pages_ok l' ?v" by (simp add: replay_Cons)
  qed
  have "grow_rel grown' (newest_lsns (zip xs ls) (AList.update ?pid l newest)) (replay (map2 cw_tail xs ls) ?v) m \<and>
    (\<forall>x\<in>set xs. unat (pa_offset x) + length (pa_payload x) \<le> MAX_PAGE_PAYLOAD) \<and>
    fst ` set grown' \<subseteq> fst ` set ?g \<union> pa_page_id ` set xs"
    by (rule Cons.IH [OF _ ok _ Cons.prems(4) rel rest]) (use Cons.prems in simp_all)
  moreover have "fst ` set ?g = insert ?pid (fst ` set grown)"
    by (simp add: dom_map_of_conv_image_fst [symmetric] update_conv')
  ultimately show ?case using fit by (simp add: replay_Cons)
qed simp

lemma install_grown_inv:
  assumes "distinct (map fst grown)" "\<forall>pid\<in>fst ` set grown. addressable pid" "table_inv crc s m"
    "install_grown grown newest sealed s = (Inr u, s')"
  shows "table_inv crc s' (m ++ map_of (map (\<lambda>(pid, b). (pid, grown_page newest pid b)) grown)) \<and>
    same_files s s'"
  using assms
proof (induction grown arbitrary: s m)
  case Nil
  then show ?case by (simp add: same_files_def)
next
  case (Cons g grown)
  obtain pid b where g: "g = (pid, b)" by force
  let ?p = "grown_page newest pid b"
  have p: "page_with_lsn pid (the (map_of newest pid)) b = Inr ?p"
    using Cons.prems(4) by (auto simp: g grown_page_def page_with_lsn_def split: if_splits)
  define t where "t = (let s = s\<lparr>dirty := AList.update pid ?p (dirty s)\<rparr>;
      s = (if pid \<in> set sealed
           then s\<lparr>open_pages := removeAll pid (open_pages s), flush_queue := flush_queue s @ [pid]\<rparr>
           else s\<lparr>open_pages := List.insert pid (open_pages s)\<rparr>)
      in s\<lparr>allocator := note_written pid (allocator s)\<rparr>)"
  have rest: "install_grown grown newest sealed t = (Inr u, s')"
    using Cons.prems(4) by (simp add: g p t_def Let_def)
  have a: "addressable pid" using Cons.prems(2) by (simp add: g)
  have tab: "table_inv crc t (m(pid \<mapsto> ?p))"
    by (rule table_put [OF Cons.prems(3) a]) (auto simp: t_def Let_def)
  have sf: "same_files s t" by (simp add: t_def Let_def same_files_def)
  have "table_inv crc s' (m(pid \<mapsto> ?p) ++ map_of (map (\<lambda>(pid, b). (pid, grown_page newest pid b)) grown)) \<and>
    same_files t s'"
    by (rule Cons.IH [OF _ _ tab rest]) (use Cons.prems in simp_all)
  moreover have "pid \<notin> dom (map_of (map (\<lambda>(pid, b). (pid, grown_page newest pid b)) grown))"
    using Cons.prems(1) by (auto simp: g dom_map_of_conv_image_fst rev_image_eqI)
  then have "m ++ map_of (map (\<lambda>(pid, b). (pid, grown_page newest pid b)) (g # grown)) =
      m(pid \<mapsto> ?p) ++ map_of (map (\<lambda>(pid, b). (pid, grown_page newest pid b)) grown)"
    by (simp add: g map_add_upd_left)
  ultimately show ?case using sf same_files_trans by (metis (no_types, lifting))
qed

lemma map_of_map_key: "map_of (map (\<lambda>(k, b). (k, h k b)) xs) k = map_option (h k) (map_of xs k)"
  by (induction xs) auto

lemma grow_rel_map_add:
  "grow_rel grown newest v m \<Longrightarrow>
    v = m ++ map_of (map (\<lambda>(pid, b). (pid, grown_page newest pid b)) grown)"
  by (rule ext) (simp add: grow_rel_def map_add_def map_of_map_key split: option.splits)

lemma append_pages_inner_inv:
  assumes inv: "store_inv crc s L base ws"
    and addr: "\<forall>x\<in>set appends. addressable (pa_page_id x)"
    and small: "\<forall>x\<in>set appends. length (pa_payload x) + 4 \<le> MAX_PAGE_PAYLOAD"
    and ok: "append_pages_inner crc appends durable s = (Inr lsns, s')"
  shows "\<exists>l. store_inv crc s' (extend_log L (active (st_wal s)) (batch_records (map2 cw_tail appends lsns) l)) base
      (ws @ map2 cw_tail appends lsns)" "active (st_wal s') = active (st_wal s)"
    "length lsns = length appends" "poisoned s' = poisoned s"
    "checkpoint_in_flight s' = checkpoint_in_flight s"
proof -
  let ?w = "st_wal s" and ?xs = "map2 cw_tail appends lsns" and ?m = "replay ws base"
  from ok obtain grown w1 l w2 w3 u where
    gr: "grow_pages crc s appends [] = Inr grown"
    and a: "append_tails crc appends ?w = (Inr lsns, w1)"
    and c: "append_batch_commit crc (length appends) w1 = (Inr l, w2)"
    and sy: "(if durable then wal_sync w2 else (Inr (), w2)) = (Inr u, w3)"
    and ins: "install_grown grown (newest_lsns (zip appends lsns) [])
       (map pa_page_id (filter pa_sealed appends)) (s\<lparr>st_wal := w3\<rparr>) = (Inr (), s')"
    by (fastforce simp: append_pages_inner_def elim!: try_then_okE on_wal_okE split: if_splits sum.splits)
  let ?ks = "map (\<lambda>x. PageAppend (pa_page_id x) (pa_offset x) (pa_payload x)) appends"
  have ks: "\<forall>k\<in>set ?ks. scannable k" using small addr addressable_not_none by auto
  have small': "\<forall>x\<in>set appends. length (pa_payload x) \<le> MAX_PAGE_PAYLOAD" using small by auto
  have wi: "wal_inv crc ?w L" "committed_page_images (wal_records ?w) = Inr ws"
    using inv by (simp_all add: store_inv_def)
  note b = log_batch_inv [OF wi ks a [unfolded append_tails_all [OF small']] _ sy numbered_tails,
      unfolded length_map, OF c]
  show len: "length lsns = length appends" using b(4) by simp
  have pages: "\<forall>n\<in>set lsns. pages_ok n ?m"
    using inv b(6) pages_ok_replay [of "next_lsn ?w" base ws] pages_ok_mono by (auto simp: store_inv_def)
  have tab: "table_inv crc s ?m" using inv by (simp add: store_inv_def)
  have "grow_rel [] [] ?m ?m" by (simp add: grow_rel_def)
  from grow_pages_inv [OF len [symmetric] b(5) pages addr tab this gr]
  have rel: "grow_rel grown (newest_lsns (zip appends lsns) []) (replay ?xs ?m) ?m"
    and fit: "\<forall>x\<in>set appends. unat (pa_offset x) + length (pa_payload x) \<le> MAX_PAGE_PAYLOAD"
    and ids: "\<forall>pid\<in>fst ` set grown. addressable pid"
    using addr by auto
  from install_grown_inv [OF _ ids _ ins, of crc ?m] rel tab
  have t: "table_inv crc s' (replay (ws @ ?xs) base)" and sf: "same_files (s\<lparr>st_wal := w3\<rparr>) s'"
    unfolding replay_append grow_rel_map_add [OF rel] by (simp_all add: grow_rel_def)
  have new: "changes_ok (next_lsn w3) ?xs"
    using fit addr b(6) by (auto simp: changes_ok_def fits_def set_zip)
  have "store_inv crc s' (extend_log L (active ?w) (batch_records ?xs l)) base (ws @ ?xs)"
    using inv b(1,2) t sf new b(7) changes_ok_mono pages_ok_mono
    by (auto simp: store_inv_def same_files_def flushed_inv_def data_lags_append)
  then show "\<exists>l. store_inv crc s' (extend_log L (active ?w) (batch_records ?xs l)) base (ws @ ?xs)" by blast
  show "active (st_wal s') = active ?w" using b(8) sf by (simp add: same_files_def)
  show "poisoned s' = poisoned s" "checkpoint_in_flight s' = checkpoint_in_flight s"
    using sf by (simp_all add: same_files_def)
qed

end
