(* ===== verification/Store_Checkpoint.thy ===== *)
theory Store_Checkpoint
  imports Store_Inv
begin

text \<open>
  Flushing and checkpoints keep what readers see: a paced flush moves dirty pages to the data
  file, and a checkpoint empties the dirty table and the log once every page is in the synced
  data file.
\<close>

section \<open>Pages with equal LSNs\<close>

lemma fold_effect_lsn:
  "fold write_effect xs (Some p) = Some q \<Longrightarrow> page_lsn p \<le> page_lsn q \<and> (page_lsn q = page_lsn p \<longrightarrow> q = p)"
proof (induction xs arbitrary: p)
  case (Cons x xs)
  show ?case
  proof (cases "cw_lsn x \<le> page_lsn p")
    case True
    then have "write_effect x (Some p) = Some p" by (simp add: write_effect_def newer_or_equal_def)
    with Cons show ?thesis by simp
  next
    case False
    then obtain p' where p': "write_effect x (Some p) = Some p'" "page_lsn p < page_lsn p'"
      by (simp add: write_effect_def newer_or_equal_def)
    with Cons.prems have "fold write_effect xs (Some p') = Some q" by simp
    from Cons.IH [OF this] p'(2) show ?thesis by auto
  qed
qed simp

lemma replay_same_lsn:
  assumes "replay (take k ws) base pid = Some p" "replay ws base pid = Some q" "page_lsn p = page_lsn q"
  shows "p = q"
proof -
  have "replay ws base pid = fold write_effect (filter (\<lambda>x. cw_page_id x = pid) (drop k ws)) (Some p)"
    using replay_append [of "take k ws" "drop k ws" base] assms(1) by (simp add: replay_def)
  with assms(2,3) fold_effect_lsn [of _ p q] show ?thesis by metis
qed

section \<open>Flushing\<close>

text \<open>The invariant during a flush, when the pages \<open>ps\<close> have left the queue and are not yet written.\<close>

definition entry_ok ::
    "(bytes \<Rightarrow> u32) \<Rightarrow> store \<Rightarrow> (u64 \<Rightarrow> page option) \<Rightarrow> page list \<Rightarrow> u64 \<Rightarrow> bool" where
  "entry_ok crc s m ps pid \<longleftrightarrow>
    (case map_of (dirty s) pid of
       Some p \<Rightarrow> addressable pid \<and> m pid = Some p \<and>
         (pid \<in> set (flush_queue s) \<or> pid \<in> set (open_pages s) \<or>
          map_of (flushed s) pid = Some (page_lsn p) \<or> p \<in> set ps)
     | None \<Rightarrow> addressable pid \<longrightarrow> data_read crc (st_data s) pid = Inr (m pid))"

definition flushing_inv ::
    "(bytes \<Rightarrow> u32) \<Rightarrow> store \<Rightarrow> (u64 \<Rightarrow> page option) \<Rightarrow> committed_write list \<Rightarrow> page list \<Rightarrow> bool" where
  "flushing_inv crc s base ws ps \<longleftrightarrow>
    page_aligned (st_data s) \<and> data_lags crc (st_data s) base ws \<and> flushed_inv crc s \<and>
    distinct (map fst (dirty s)) \<and> (\<forall>pid p. replay ws base pid = Some p \<longrightarrow> page_id p = pid) \<and>
    (\<forall>p\<in>set ps. page_wf p \<and> map_of (dirty s) (page_id p) = Some p) \<and>
    (\<forall>pid. entry_ok crc s (replay ws base) ps pid)"

lemma entry_okD:
  "entry_ok crc s m ps pid \<Longrightarrow> map_of (dirty s) pid = Some p \<Longrightarrow> addressable pid \<and> m pid = Some p"
  by (simp add: entry_ok_def)

lemma table_inv_entries:
  "table_inv crc s m \<longleftrightarrow> distinct (map fst (dirty s)) \<and> (\<forall>pid. entry_ok crc s m [] pid)"
  by (simp add: table_inv_def entry_ok_def cong: option.case_cong)

definition same_table :: "store \<Rightarrow> store \<Rightarrow> bool" where
  "same_table s s' \<longleftrightarrow> dirty s' = dirty s \<and> st_wal s' = st_wal s \<and> open_pages s' = open_pages s \<and>
    poisoned s' = poisoned s \<and> checkpoint_in_flight s' = checkpoint_in_flight s"

lemma write_pending_step:
  assumes inv: "flushing_inv crc s base ws (p # ps)" and w: "data_write crc (st_data s) p = (Inr u, f)"
  shows "flushing_inv crc (s\<lparr>st_data := f, flushed := AList.update (page_id p) (page_lsn p) (flushed s)\<rparr>) base ws ps"
proof -
  let ?t = "s\<lparr>st_data := f, flushed := AList.update (page_id p) (page_lsn p) (flushed s)\<rparr>"
  have d: "map_of (dirty s) (page_id p) = Some p" and wf: "page_wf p"
    and e: "entry_ok crc s (replay ws base) (p # ps) pid" for pid
    using inv by (simp_all add: flushing_inv_def)
  have p: "page_wf p" "addressable (page_id p)" "replay ws base (page_id p) = Some p"
    using wf entry_okD [OF e d] by simp_all
  have al: "page_aligned (st_data s)" using inv by (simp add: flushing_inv_def)
  have rd: "data_read crc f pid = (if pid = page_id p then Inr (Some p) else data_read crc (st_data s) pid)" for pid
    by (rule data_pages.write_read [OF al p(1) w])
  have lag: "data_lags crc f base ws"
    unfolding data_lags_def
  proof (intro allI impI)
    fix pid assume a: "addressable pid"
    show "\<exists>k. data_read crc f pid = Inr (replay (take k ws) base pid)"
    proof (cases "pid = page_id p")
      case True
      then show ?thesis using rd p(3) by (intro exI [of _ "length ws"]) simp
    next
      case False
      then show ?thesis using rd inv a by (simp add: flushing_inv_def data_lags_def)
    qed
  qed
  have fl: "flushed_inv crc ?t"
    using inv rd by (auto simp: flushing_inv_def flushed_inv_def update_conv')
  have entry: "entry_ok crc ?t (replay ws base) ps pid" for pid
  proof (cases "pid = page_id p")
    case True
    then show ?thesis using d p by (simp add: entry_ok_def update_conv')
  next
    case False
    have "q \<in> set (p # ps) \<Longrightarrow> map_of (dirty s) pid = Some q \<Longrightarrow> q \<in> set ps" for q
      using False entry_okD [OF e, of pid q] inv by (auto simp: flushing_inv_def)
    then show ?thesis
      using e [of pid] False by (auto simp: entry_ok_def rd update_conv' split: option.splits)
  qed
  have al': "page_aligned f" by (rule data_write_aligned [OF al p(1) w])
  have "distinct (map fst (dirty ?t)) \<and> (\<forall>pid p. replay ws base pid = Some p \<longrightarrow> page_id p = pid) \<and>
      (\<forall>p\<in>set ps. page_wf p \<and> map_of (dirty ?t) (page_id p) = Some p)"
    using inv by (simp add: flushing_inv_def)
  with al' lag fl entry show ?thesis by (simp add: flushing_inv_def)
qed

lemma write_pending_inv:
  assumes "flushing_inv crc s base ws ps" "write_pending crc ps s = (Inr u, s')"
  shows "flushing_inv crc s' base ws [] \<and> same_table s s' \<and> flush_queue s' = flush_queue s"
  using assms
proof (induction ps arbitrary: s)
  case Nil
  then show ?case by (simp add: same_table_def)
next
  case (Cons p ps)
  from Cons.prems(2) obtain f where f: "data_write crc (st_data s) p = (Inr (), f)"
    and rest: "write_pending crc ps (s\<lparr>st_data := f, flushed := AList.update (page_id p) (page_lsn p) (flushed s)\<rparr>) = (Inr u, s')"
    by (auto elim!: try_then_okE on_data_okE)
  from Cons.IH [OF write_pending_step [OF Cons.prems(1) f] rest] show ?case
    by (simp add: same_table_def)
qed

lemma take_pending_dirty:
  "take_pending d fl budget queue = (ps, rest) \<Longrightarrow> p \<in> set ps \<Longrightarrow> \<exists>pid. map_of d pid = Some p"
  by (induction d fl budget queue arbitrary: ps rest rule: take_pending.induct)
    (auto split: if_splits option.splits prod.splits)

lemma take_pending_covers:
  "take_pending d fl budget queue = (ps, rest) \<Longrightarrow> pid \<in> set queue \<Longrightarrow> map_of d pid = Some p \<Longrightarrow>
    pid \<in> set rest \<or> p \<in> set ps \<or> map_of fl pid = Some (page_lsn p)"
  by (induction d fl budget queue arbitrary: ps rest rule: take_pending.induct)
    (auto split: if_splits option.splits prod.splits)

lemma take_pending_empty:
  "take_pending d fl budget queue = ([], rest) \<Longrightarrow> 0 < budget \<Longrightarrow> rest = []"
  by (induction d fl budget queue arbitrary: rest rule: take_pending.induct)
    (auto split: if_splits option.splits prod.splits)

text \<open>A paced flush keeps the invariant; a full one leaves nothing in the queue.\<close>

lemma flush_some_dirty_inv:
  assumes inv: "store_inv crc s L base ws" and ok: "flush_some_dirty crc budget s = (Inr n, s')"
  shows "store_inv crc s' L base ws" "same_table s s'"
    "0 < budget \<Longrightarrow> n = 0 \<Longrightarrow> \<not> checkpoint_in_flight s \<Longrightarrow> flush_queue s' = []"
proof -
  have "store_inv crc s' L base ws \<and> same_table s s' \<and>
    (0 < budget \<longrightarrow> n = 0 \<longrightarrow> \<not> checkpoint_in_flight s \<longrightarrow> flush_queue s' = [])"
  proof (cases "checkpoint_in_flight s")
    case True
    then show ?thesis using inv ok by (simp add: flush_some_dirty_def same_table_def)
  next
    case False
    obtain pending queue where tp: "take_pending (dirty s) (flushed s) budget (flush_queue s) = (pending, queue)"
      by force
    with ok False have w: "write_pending crc pending (s\<lparr>flush_queue := queue\<rparr>) = (Inr (), s')"
      and n: "n = length pending"
      by (auto simp: flush_some_dirty_def elim!: try_then_okE)
    have ok_pages: "pages_ok (next_lsn (st_wal s)) (replay ws base)"
      using inv by (auto simp: store_inv_def intro: pages_ok_replay)
    have entries: "entry_ok crc s (replay ws base) [] pid" for pid
      using inv by (simp add: store_inv_def table_inv_entries)
    have pend: "page_wf p \<and> map_of (dirty s) (page_id p) = Some p" if pm: "p \<in> set pending" for p
    proof -
      obtain pid where pid: "map_of (dirty s) pid = Some p" using take_pending_dirty [OF tp pm] by blast
      with entry_okD [OF entries pid] ok_pages show ?thesis by (auto simp: pages_ok_def)
    qed
    have "entry_ok crc (s\<lparr>flush_queue := queue\<rparr>) (replay ws base) pending pid" for pid
      using entries [of pid] take_pending_covers [OF tp, of pid]
      by (auto simp: entry_ok_def split: option.splits)
    then have "flushing_inv crc (s\<lparr>flush_queue := queue\<rparr>) base ws pending"
      using inv pend ok_pages
      by (auto simp: flushing_inv_def store_inv_def table_inv_def flushed_inv_def pages_ok_def)
    from write_pending_inv [OF this w] have f: "flushing_inv crc s' base ws []" "same_table s s'"
      "flush_queue s' = queue" by (auto simp: same_table_def)
    then have "store_inv crc s' L base ws"
      using inv by (simp add: store_inv_def flushing_inv_def same_table_def table_inv_entries)
    moreover have "0 < budget \<longrightarrow> n = 0 \<longrightarrow> flush_queue s' = []"
      using f(3) n tp take_pending_empty by auto
    ultimately show ?thesis using f(2) by simp
  qed
  then show "store_inv crc s' L base ws" "same_table s s'"
    "0 < budget \<Longrightarrow> n = 0 \<Longrightarrow> \<not> checkpoint_in_flight s \<Longrightarrow> flush_queue s' = []" by auto
qed

lemma flush_all_inv:
  assumes "store_inv crc s L base ws" "\<not> checkpoint_in_flight s" "flush_all crc s = (Inr u, s')"
  shows "store_inv crc s' L base ws \<and> same_table s s' \<and> flush_queue s' = []"
  using assms
proof (induction crc s rule: flush_all.induct)
  case (1 crc s)
  obtain r t where t: "flush_some_dirty crc usize_max s = (r, t)" by force
  with "1.prems"(3) obtain n where n: "r = Inr n" by (cases r) (auto simp: flush_all.simps [of crc s])
  note f = flush_some_dirty_inv [OF "1.prems"(1) t [unfolded n]]
  have pos: "0 < usize_max" by (simp add: usize_max_def)
  show ?case
  proof (cases "n = 0")
    case True
    then have "s' = t" using "1.prems"(3) t n by (simp add: flush_all.simps [of crc s])
    then show ?thesis using f pos True "1.prems"(2) by simp
  next
    case False
    then have rest: "flush_all crc t = (Inr u, s')" using "1.prems"(3) t n by (simp add: flush_all.simps [of crc s])
    have "\<not> checkpoint_in_flight t" using f(2) "1.prems"(2) by (simp add: same_table_def)
    from "1.IH" [OF t [symmetric] n _ f(1) this rest] False f(2) show ?thesis
      by (simp add: same_table_def)
  qed
qed

section \<open>Checkpoints\<close>

lemma data_read_cong:
  "fdata g = fdata f \<Longrightarrow> flen g = flen f \<Longrightarrow> data_read crc g pid = data_read crc f pid"
proof -
  assume eq: "fdata g = fdata f" "flen g = flen f"
  then have rd: "file_read g = file_read f" by (intro ext) (simp add: file_read_def)
  show ?thesis unfolding data_read_def read_shared_def eq rd ..
qed

text \<open>When nothing is queued or open, the data file holds every page readers see.\<close>

lemma data_current:
  assumes inv: "store_inv crc s L base ws" and q: "flush_queue s = []" "open_pages s = []"
    and a: "addressable pid"
  shows "data_read crc (st_data s) pid = Inr (replay ws base pid)"
    "map_of (dirty s) pid = Some p \<Longrightarrow> map_of (flushed s) pid = Some (page_lsn p)"
proof -
  have e: "entry_ok crc s (replay ws base) [] pid" using inv by (simp add: store_inv_def table_inv_entries)
  show fl: "map_of (flushed s) pid = Some (page_lsn p)" if "map_of (dirty s) pid = Some p" for p
    using e q that by (simp add: entry_ok_def)
  show "data_read crc (st_data s) pid = Inr (replay ws base pid)"
  proof (cases "map_of (dirty s) pid")
    case None
    then show ?thesis using e a by (simp add: entry_ok_def)
  next
    case (Some p)
    have r: "replay ws base pid = Some p" using entry_okD [OF e Some] by simp
    obtain q where q: "data_read crc (st_data s) pid = Inr (Some q)" "page_lsn q = page_lsn p"
      using inv fl [OF Some] by (auto simp: store_inv_def flushed_inv_def)
    moreover obtain k where "data_read crc (st_data s) pid = Inr (replay (take k ws) base pid)"
      using inv a by (auto simp: store_inv_def data_lags_def)
    ultimately have "replay (take k ws) base pid = Some q" by simp
    from replay_same_lsn [OF this r q(2)] q(1) r show ?thesis by simp
  qed
qed

lemma filter_dirty_empty:
  assumes "distinct (map fst d)" "\<And>pid p. map_of d pid = Some p \<Longrightarrow> map_of fl pid = Some (page_lsn p)"
  shows "filter (\<lambda>(pid, p). map_of fl pid \<noteq> Some (page_lsn p)) d = []"
  using assms by (auto simp: filter_empty_conv)

lemma checkpoint_inner_inv:
  assumes inv: "store_inv crc s L base ws" and nf: "\<not> checkpoint_in_flight s"
    and ok: "checkpoint_inner crc s = (Inr lsn, s')"
  shows "store_inv crc s' (\<lambda>_. []) (replay ws base) []" "dirty s' = []" "flushed s' = []"
    "flush_queue s' = []" "wal_records (st_wal s') = []"
    "unsynced (st_data s') = {}" "poisoned s' = poisoned s" "\<not> checkpoint_in_flight s'"
proof -
  let ?s = "s\<lparr>flush_queue := flush_queue s @ open_pages s, open_pages := []\<rparr>"
  from ok obtain t f w1 w2 w3 u v where
    fa: "flush_all crc ?s = (Inr (), t)" and ds: "data_sync (st_data t) = (Inr (), f)"
    and ck: "append_checkpoint crc (st_wal t) = (Inr lsn, w1)"
    and sy: "wal_sync w1 = (Inr u, w2)" and rs: "reset_after_checkpoint w2 = (Inr v, w3)"
    and s': "s' = t\<lparr>st_data := f, st_wal := w3,
      dirty := filter (\<lambda>(pid, p). map_of (flushed t) pid \<noteq> Some (page_lsn p)) (dirty t), flushed := []\<rparr>"
    by (auto simp: checkpoint_inner_def Let_def elim!: try_then_okE on_wal_okE on_data_okE)
  have inv0: "store_inv crc ?s L base ws"
    using inv by (auto simp: store_inv_def table_inv_entries entry_ok_def flushed_inv_def split: option.splits)
  have t: "store_inv crc t L base ws" "same_table ?s t" "flush_queue t = []"
    using flush_all_inv [OF inv0 _ fa] nf by simp_all
  have opn: "open_pages t = []" using t(2) by (simp add: same_table_def)
  note cur = data_current [OF t(1,3) opn]
  note sf = sync_data_okD [OF ds [unfolded data_sync_def]]
  have rd: "data_read crc f pid = Inr (replay ws base pid)" if "addressable pid" for pid
    using data_read_cong [of f "st_data t"] sf cur(1) [OF that] by simp
  have w: "wal_inv crc (st_wal t) L" using t(1) by (simp add: store_inv_def)
  have k: "wal_append crc Checkpoint (st_wal t) = (Inr lsn, w1)" using ck by (simp add: append_checkpoint_def)
  note w1 = wal_append_inv [OF w _ k] and lt = wal_append_logs(4) [OF _ _ k]
  note w2 = wal_sync_inv [OF w1 sy] and w3 = reset_after_checkpoint_inv [OF _ rs]
  have "wal_logs crc (st_wal t) L" using w by (simp add: wal_inv_def)
  then have mono: "next_lsn (st_wal t) \<le> next_lsn w3"
    using lt w2 w3 by (metis order.strict_implies_order scannable_simps(4))
  have "map_of (flushed t) pid = Some (page_lsn p)" if m: "map_of (dirty t) pid = Some p" for pid p
  proof -
    have "entry_ok crc t (replay ws base) [] pid" using t(1) by (simp add: store_inv_def table_inv_entries)
    then have "addressable pid" using entry_okD [OF _ m] by blast
    from cur(2) [OF this m] show ?thesis .
  qed
  then have d: "dirty s' = []"
    unfolding s' using t(1) filter_dirty_empty [of "dirty t" "flushed t"]
    by (simp add: store_inv_def table_inv_def)
  show "store_inv crc s' (\<lambda>_. []) (replay ws base) []"
    unfolding store_inv_def
  proof (intro conjI)
    show "wal_inv crc (st_wal s') (\<lambda>_. [])" using w2 w3 by (simp add: s')
    show "committed_page_images (wal_records (st_wal s')) = Inr []"
      using w2 w3 by (simp add: s' committed_page_images_def)
    show "page_aligned (st_data s')" using t(1) sf by (simp add: s' store_inv_def page_aligned_def)
    show "pages_ok (next_lsn (st_wal s')) (replay ws base)"
      using t(1) mono by (auto simp: s' store_inv_def intro: pages_ok_replay pages_ok_mono)
    show "data_lags crc (st_data s') (replay ws base) []" using rd by (simp add: s' data_lags_def)
    show "table_inv crc s' (replay [] (replay ws base))"
      using d rd by (simp add: table_inv_def) (simp add: s')
  qed (simp_all add: s' changes_ok_def flushed_inv_def)
  show "dirty s' = []" by (rule d)
  show "flushed s' = []" "flush_queue s' = []" "unsynced (st_data s') = {}"
    "wal_records (st_wal s') = []" "poisoned s' = poisoned s" "\<not> checkpoint_in_flight s'"
    using t nf sf w3 w2 by (simp_all add: s' same_table_def)
qed

end
