(* ===== verification/Store_Open.thy ===== *)
theory Store_Open
  imports Store_Checkpoint
begin

text \<open>
  Opening a store, in particular after a crash: \<open>store_open\<close> gives back a store whose readers see
  the state at the crash, whatever prefix of the committed changes had reached each page of
  the data file.
\<close>

section \<open>The data file after a crash\<close>

lemma page_fits_div: "(unat pid + 1) * PAGE_SIZE \<le> n \<Longrightarrow> unat pid + 1 \<le> n div PAGE_SIZE"
proof -
  assume "(unat pid + 1) * PAGE_SIZE \<le> n"
  then have "(unat pid + 1) * PAGE_SIZE div PAGE_SIZE \<le> n div PAGE_SIZE" by (rule div_le_mono)
  moreover have "0 < PAGE_SIZE" by (simp add: PAGE_SIZE_def)
  ultimately show ?thesis by (metis div_mult_self_is_m)
qed

lemma data_open_okE:
  assumes "data_open f = (Inr u, g)"
  obtains "g = f" "page_aligned f"
  | "set_len f (flen f div PAGE_SIZE * PAGE_SIZE) = (Inr u, g)"
proof -
  have eq: "flen f - flen f mod PAGE_SIZE = flen f div PAGE_SIZE * PAGE_SIZE"
    by (rule minus_mod_eq_div_mult)
  show thesis
  proof (cases "flen f div PAGE_SIZE * PAGE_SIZE = flen f")
    case True
    then have "g = f" using assms eq by (simp add: data_open_def Let_def)
    moreover have "page_aligned f" using True unfolding page_aligned_def by (metis mod_mult_self2_is_0)
    ultimately show thesis by (rule that(1))
  next
    case False
    then show thesis using assms eq that(2) by (simp add: data_open_def Let_def)
  qed
qed

lemma truncated_read:
  assumes "set_len f (flen f div PAGE_SIZE * PAGE_SIZE) = (Inr u, g)"
  shows "data_read crc g pid = data_read crc f pid"
proof (cases "page_offset pid")
  case (Inr x)
  let ?n = "flen f div PAGE_SIZE * PAGE_SIZE"
  note g = set_len_okD [OF assms]
  have n: "?n \<le> flen f" by (rule div_times_less_eq_dividend)
  have x: "x + PAGE_SIZE = (unat pid + 1) * PAGE_SIZE" using Inr by (auto simp: page_offset_def split: if_splits)
  have le: "x + PAGE_SIZE \<le> flen f \<longleftrightarrow> x + PAGE_SIZE \<le> ?n"
    using n page_fits_div [of pid "flen f", THEN mult_le_mono1, of PAGE_SIZE] unfolding x by linarith
  have "file_read g x PAGE_SIZE = file_read f x PAGE_SIZE" if a: "x + PAGE_SIZE \<le> ?n"
  proof (rule file_read_cong)
    fix i assume "x \<le> i" "i < x + PAGE_SIZE"
    then have "i < ?n" "i < flen f" using a n by linarith+
    then show "fdata g i = fdata f i" using g by simp
  qed
  then show ?thesis using g le Inr by (auto simp: data_read_def read_shared_def)
qed (simp add: data_read_def read_shared_def)

lemma data_open_okD:
  assumes "data_open f = (Inr u, g)"
  shows "page_aligned g" "data_read crc g pid = data_read crc f pid"
proof -
  show "page_aligned g"
    using assms by (rule data_open_okE) (auto simp: page_aligned_def dest: set_len_okD)
  show "data_read crc g pid = data_read crc f pid"
    using assms by (rule data_open_okE) (auto intro: truncated_read)
qed

text \<open>
  What the disk may hold of a page after a crash: the result of some prefix of the committed
  changes, or a torn page, provided the first change logged for it is a whole image that is
  newer than its content at the checkpoint.
\<close>

definition crash_page_ok ::
    "(bytes \<Rightarrow> u32) \<Rightarrow> os_file \<Rightarrow> (u64 \<Rightarrow> page option) \<Rightarrow> committed_write list \<Rightarrow> u64 \<Rightarrow> bool" where
  "crash_page_ok crc f base ws pid \<longleftrightarrow>
    (\<exists>k. data_read crc f pid = Inr (replay (take k ws) base pid)) \<or>
    ((\<exists>p r. data_read crc f pid = Inl (CorruptPage p r)) \<and>
     (\<exists>x xs. filter (\<lambda>x. cw_page_id x = pid) ws = x # xs \<and> cw_append_at x = None \<and>
        \<not> newer_or_equal (base pid) (cw_lsn x)))"

lemma replay_crash_page:
  assumes "crash_page_ok crc f base ws pid"
  shows "replay ws (data_view crc f) pid = replay ws base pid"
  using assms unfolding crash_page_ok_def
proof
  assume "\<exists>k. data_read crc f pid = Inr (replay (take k ws) base pid)"
  then obtain k where k: "data_view crc f pid = replay (take k ws) base pid" by (auto simp: data_view_def)
  obtain j where "filter (\<lambda>x. cw_page_id x = pid) (take k ws) = take j (filter (\<lambda>x. cw_page_id x = pid) ws)"
    using filter_take by blast
  with k show ?thesis by (simp add: replay_def fold_effect_prefix)
next
  assume "(\<exists>p r. data_read crc f pid = Inl (CorruptPage p r)) \<and>
     (\<exists>x xs. filter (\<lambda>x. cw_page_id x = pid) ws = x # xs \<and> cw_append_at x = None \<and>
        \<not> newer_or_equal (base pid) (cw_lsn x))"
  then obtain x xs where x: "filter (\<lambda>x. cw_page_id x = pid) ws = x # xs" "cw_append_at x = None"
    "\<not> newer_or_equal (base pid) (cw_lsn x)" and v: "data_view crc f pid = None"
    by (auto simp: data_view_def)
  have "write_effect x None = write_effect x (base pid)"
    using x(2,3) by (simp add: write_effect_def newer_or_equal_def)
  then show ?thesis using x(1) v by (simp add: replay_def)
qed

lemma recovered_reads:
  assumes al: "page_aligned f" and ok: "recover_writes crc ws b f = (Inr w, f')"
    and pages: "\<And>pid. addressable pid \<Longrightarrow> crash_page_ok crc f base ws pid"
    and a: "addressable pid"
  shows "data_read crc f' pid = Inr (replay ws base pid)"
proof (cases "pid \<in> cw_page_id ` set ws")
  case True
  then show ?thesis
    using recover_writes_spec [OF al ok] replay_crash_page [OF pages [OF a]] by simp
next
  case False
  then have e: "filter (\<lambda>x. cw_page_id x = pid) ws = []" "filter (\<lambda>x. cw_page_id x = pid) (take k ws) = []" for k
    by (auto simp: filter_empty_conv dest: in_set_takeD)
  with pages [OF a] have "data_read crc f pid = Inr (base pid)"
    by (auto simp: crash_page_ok_def replay_def)
  then show ?thesis using recover_writes_spec [OF al ok] False e by (simp add: replay_def)
qed

section \<open>The highest LSN\<close>

lemma max_lsn_from_bound:
  "max_lsn_from crc f raws m = Inr n \<Longrightarrow>
    m \<le> n \<and> (\<forall>raw\<in>set raws. \<forall>p. data_read crc f (word_of_nat raw) = Inr (Some p) \<longrightarrow> page_lsn p \<le> n)"
proof (induction raws arbitrary: m)
  case (Cons raw raws)
  then show ?case
    by (cases "data_read crc f (word_of_nat raw)") (fastforce split: option.splits)+
qed simp

lemma max_lsn_bound:
  assumes "max_lsn crc f = Inr n" "data_read crc f pid = Inr (Some p)"
  shows "page_lsn p \<le> n"
proof -
  from assms(2) obtain x where x: "page_offset pid = Inr x" "x + PAGE_SIZE \<le> flen f"
    by (auto simp: data_read_def read_shared_def Let_def split: sum.splits if_splits)
  then have "(unat pid + 1) * PAGE_SIZE \<le> flen f" by (auto simp: page_offset_def split: if_splits)
  then have "unat pid + 1 \<le> flen f div PAGE_SIZE" by (rule page_fits_div)
  then have "unat pid \<in> set [0..<page_count f]" by (simp add: page_count_def)
  moreover have "word_of_nat (unat pid) = pid" by simp
  ultimately show ?thesis
    using max_lsn_from_bound [of crc f "[0..<page_count f]" 0 n] assms by (metis max_lsn_def)
qed

section \<open>Opening the store\<close>

lemma store_open_okE:
  assumes "store_open crc fd f0 f1 = Inr s'"
  obtains g w ws wrote f2 f3 mx w2 n s3 where
    "data_open fd = (Inr (), g)" "wal_open crc f0 f1 = Inr w"
    "committed_page_images (wal_records w) = Inr ws"
    "recover_writes crc ws False g = (Inr wrote, f2)"
    "if wrote then data_sync f2 = (Inr (), f3) else f3 = f2"
    "max_lsn crc f3 = Inr mx" "ensure_next_lsn_after mx w = (Inr (), w2)"
    "s3 = \<lparr>st_data = f3, st_wal = trim_records_to_last_checkpoint w2, dirty = [], flushed = [],
      flush_queue = [], allocator = \<lparr>next_page_id = word_of_nat n, free_pages = []\<rparr>, open_pages = [],
      checkpoint_in_flight = False, poisoned = False\<rparr>"
    "if both_segments_live (st_wal s3) then \<exists>l. checkpoint crc s3 = (Inr l, s') else s' = s3"
proof -
  obtain ud g where g: "data_open fd = (ud, g)" by force
  from assms g obtain w where ud: "ud = Inr ()" and w: "wal_open crc f0 f1 = Inr w"
    by (auto simp: store_open_def split: sum.splits prod.splits)
  let ?s = "\<lparr>st_data = g, st_wal = w, dirty = [], flushed = [], flush_queue = [],
    allocator = \<lparr>next_page_id = 0, free_pages = []\<rparr>, open_pages = [],
    checkpoint_in_flight = False, poisoned = False\<rparr>"
  from assms g ud w obtain u s2 mx s4 n where
    rc: "recover crc ?s = (Inr (), s2)" and mx: "max_lsn crc (st_data s2) = Inr mx"
    and en: "on_wal (ensure_next_lsn_after mx) s2 = (Inr u, s4)"
    and s': "(let s = s4\<lparr>allocator := (allocator s4)\<lparr>next_page_id := word_of_nat n\<rparr>\<rparr>;
                  s = s\<lparr>st_wal := trim_records_to_last_checkpoint (st_wal s)\<rparr> in
              if both_segments_live (st_wal s) then try_then (checkpoint crc s) (\<lambda>_ s. (Inr (), s))
              else (Inr (), s)) = (Inr (), s')"
    by (auto simp: store_open_def Let_def elim!: try_then_okE split: sum.splits prod.splits)
  from rc obtain ws wrote f2 f3 where ws: "committed_page_images (wal_records w) = Inr ws"
    and rw: "recover_writes crc ws False g = (Inr wrote, f2)"
    and sy: "if wrote then data_sync f2 = (Inr (), f3) else f3 = f2" and s2: "s2 = ?s\<lparr>st_data := f3\<rparr>"
    by (auto simp: recover_def on_data_def elim!: try_then_okE split: sum.splits prod.splits if_splits)
  from en s2 obtain w2 where w2: "ensure_next_lsn_after mx w = (Inr (), w2)" and s4: "s4 = s2\<lparr>st_wal := w2\<rparr>"
    by (auto elim!: on_wal_okE)
  show thesis
    by (rule that [OF g [unfolded ud] w ws rw sy _ w2 refl])
      (use mx s' s2 s4 in \<open>auto simp: Let_def elim!: try_then_okE split: if_splits\<close>)
qed

lemma trim_suffix:
  "checkpoint_suffix (wal_records w) (wal_records (trim_records_to_last_checkpoint w))"
proof (cases "rposition is_checkpoint (wal_records w)")
  case (Some i)
  note r = rposition_Some [OF Some]
  have "wal_records w = take (Suc i) (wal_records w) @ drop (Suc i) (wal_records w)" by simp
  moreover have "last (take (Suc i) (wal_records w)) = wal_records w ! i"
    using r by (simp add: take_Suc_conv_app_nth)
  ultimately show ?thesis
    using r Some unfolding checkpoint_suffix_def trim_records_to_last_checkpoint_def
    by (auto intro!: exI [of _ "take (Suc i) (wal_records w)"])
qed (simp add: trim_records_to_last_checkpoint_def)

lemma trim_sel [simp]:
  "active (trim_records_to_last_checkpoint w) = active w"
  "next_lsn (trim_records_to_last_checkpoint w) = next_lsn w"
  "segment_at (trim_records_to_last_checkpoint w) i = segment_at w i"
  by (simp_all add: trim_records_to_last_checkpoint_def split: option.splits)

lemma ensure_next_lsn_okD:
  assumes "ensure_next_lsn_after n w = (Inr u, w')"
  shows "wal_records w' = wal_records w" "active w' = active w" "segment_at w' i = segment_at w i"
    "next_lsn w \<le> next_lsn w'" "n < next_lsn w'"
  using assms
  by (auto simp: ensure_next_lsn_after_def less_max_iff_disj split: option.splits dest: checked_add_u64_less)

lemma opened_wal_inv:
  assumes inv: "wal_inv crc w L" "disk_records w L = wal_records w"
    and en: "ensure_next_lsn_after mx w = (Inr u, w2)"
  defines "w3 \<equiv> trim_records_to_last_checkpoint w2"
  shows "wal_inv crc w3 L" "committed_page_images (wal_records w3) = committed_page_images (wal_records w)"
    "next_lsn w \<le> next_lsn w3" "mx < next_lsn w3"
proof -
  note e = ensure_next_lsn_okD [OF en]
  have suf: "checkpoint_suffix (wal_records w) (wal_records w3)"
    using trim_suffix [of w2] e(1) by (simp add: w3_def)
  have disk: "disk_records w3 L = wal_records w" using e(2) inv(2) by (simp add: w3_def disk_records_def)
  have "wal_logs crc w3 L"
    using inv(1) e by (auto simp: wal_inv_def wal_logs_def w3_def intro: less_le_trans)
  then show "wal_inv crc w3 L"
    using inv e suf disk unfolding wal_inv_def by (simp add: w3_def)
  show "committed_page_images (wal_records w3) = committed_page_images (wal_records w)"
    using committed_suffix [OF suf] by simp
  show "next_lsn w \<le> next_lsn w3" "mx < next_lsn w3" using e by (simp_all add: w3_def)
qed

lemma committed_in_records:
  "committed_page_images recs = Inr ws \<Longrightarrow> x \<in> set ws \<Longrightarrow> \<exists>r\<in>set recs. rec_lsn r = cw_lsn x"
proof -
  have gen: "collect_committed rs pending committed = Inr ws \<Longrightarrow> x \<in> set ws \<Longrightarrow>
      x \<in> set pending \<union> set committed \<or> (\<exists>r\<in>set rs. rec_lsn r = cw_lsn x)" for rs pending committed
    by (induction rs pending committed rule: collect_committed.induct)
      (fastforce split: wal_kind.splits if_splits dest: in_set_dropD)+
  assume "committed_page_images recs = Inr ws" "x \<in> set ws"
  then show ?thesis
    using gen [of "since_checkpoint recs" "[]" "[]"]
    by (auto simp: committed_since since_checkpoint_def dest: in_set_dropD)
qed

text \<open>
  Whatever two log files and whatever data file \<open>store_open\<close> is given: if the pages are as a crash
  may leave them, the store it returns satisfies the invariant and shows its readers the
  replayed state.
\<close>

lemma store_open_inv:
  assumes ok: "store_open crc fd f0 f1 = Inr s'"
    and recs: "recs = fst (choose_records (fst (scan_loop crc f0 0 0)) (fst (scan_loop crc f1 0 0)))"
    and ws: "committed_page_images recs = Inr ws" and fit: "\<forall>x\<in>set ws. fits x"
    and last: "recs \<noteq> [] \<Longrightarrow> rec_lsn (last recs) \<noteq> - 1"
    and pages: "\<And>pid. addressable pid \<Longrightarrow> crash_page_ok crc fd base ws pid"
    and base: "\<And>pid p. base pid = Some p \<Longrightarrow> page_wf p \<and> page_id p = pid \<and> addressable pid"
  shows "\<exists>L base' ws'. store_inv crc s' L base' ws' \<and> replay ws' base' = replay ws base"
    "\<not> poisoned s'" "\<not> checkpoint_in_flight s'" "dirty s' = []"
proof -
  from ok obtain g w ws' wrote f2 f3 mx w2 n s3 where
    g: "data_open fd = (Inr (), g)" and w: "wal_open crc f0 f1 = Inr w"
    and ws': "committed_page_images (wal_records w) = Inr ws'"
    and rw: "recover_writes crc ws' False g = (Inr wrote, f2)"
    and sy: "if wrote then data_sync f2 = (Inr (), f3) else f3 = f2"
    and mx: "max_lsn crc f3 = Inr mx" and en: "ensure_next_lsn_after mx w = (Inr (), w2)"
    and s3: "s3 = \<lparr>st_data = f3, st_wal = trim_records_to_last_checkpoint w2, dirty = [], flushed = [],
      flush_queue = [], allocator = \<lparr>next_page_id = word_of_nat n, free_pages = []\<rparr>, open_pages = [],
      checkpoint_in_flight = False, poisoned = False\<rparr>"
    and fin: "if both_segments_live (st_wal s3) then \<exists>l. checkpoint crc s3 = (Inr l, s') else s' = s3"
    by (rule store_open_okE)
  have rw_eq: "wal_records w = recs"
    using w recs by (auto elim!: wal_open_okE)
  then obtain L where L: "wal_inv crc w L" "disk_records w L = wal_records w"
    using wal_open_inv(1) [OF w] last by auto
  have ws_eq: "ws' = ws" using ws ws' rw_eq by simp
  note ow = opened_wal_inv [OF L en]
  note al = data_open_okD(1) [OF g]
  have pages': "crash_page_ok crc g base ws pid" if "addressable pid" for pid
    using pages [OF that] data_open_okD(2) [OF g] by (simp add: crash_page_ok_def)
  have f3: "data_read crc f3 pid = data_read crc f2 pid" "flen f3 = flen f2" for pid
    using sy data_read_cong [of f3 f2] sync_data_okD [of f2 "()" f3] by (auto simp: data_sync_def split: if_splits)
  have rd: "data_read crc f3 pid = Inr (replay ws base pid)" if "addressable pid" for pid
    using recovered_reads [OF al rw [unfolded ws_eq] pages' that] f3 by simp
  have lsns: "cw_lsn x < next_lsn (st_wal s3)" if x: "x \<in> set ws" for x
  proof -
    obtain r where r: "r \<in> set (wal_records w)" "rec_lsn r = cw_lsn x"
      using committed_in_records [OF ws x] rw_eq by auto
    have "lsns_rise 0 (wal_records w)" using L by (simp add: wal_inv_def)
    from lsns_rise_bounds [OF this r(1)] r(2) have "cw_lsn x \<le> last_lsn 0 (wal_records w)" by simp
    also have "\<dots> < next_lsn w" using last_lsn_disk [OF L(1)] L(2) by simp
    also have "\<dots> \<le> next_lsn (st_wal s3)" using ow(3) by (simp add: s3)
    finally show ?thesis .
  qed
  have bl: "page_lsn p < next_lsn (st_wal s3)" if b: "base pid = Some p" for pid p
  proof -
    have "replay ws base pid = fold write_effect (filter (\<lambda>x. cw_page_id x = pid) ws) (Some p)"
      using b by (simp add: replay_def)
    moreover have "newer_or_equal (fold write_effect (filter (\<lambda>x. cw_page_id x = pid) ws) (Some p)) (page_lsn p)"
      by (rule newer_fold) (simp add: newer_or_equal_def)
    ultimately obtain q where q: "replay ws base pid = Some q" "page_lsn p \<le> page_lsn q"
      by (auto simp: newer_or_equal_def split: option.splits)
    have "data_read crc f3 pid = Inr (Some q)" using rd base [OF b] q(1) by simp
    from max_lsn_bound [OF mx this] have "page_lsn q \<le> mx" .
    also have "mx < next_lsn (st_wal s3)" using ow(4) by (simp add: s3)
    finally show ?thesis using q(2) by simp
  qed
  have inv3: "store_inv crc s3 L base ws"
    unfolding store_inv_def
  proof (intro conjI)
    show "wal_inv crc (st_wal s3) L" "committed_page_images (wal_records (st_wal s3)) = Inr ws"
      using ow(1,2) ws' ws_eq by (simp_all add: s3)
    show "page_aligned (st_data s3)"
      using recover_writes_spec [OF al rw] f3(2) by (simp add: s3 page_aligned_def)
    show "changes_ok (next_lsn (st_wal s3)) ws" using fit lsns by (simp add: changes_ok_def)
    show "pages_ok (next_lsn (st_wal s3)) base" using base bl by (simp add: pages_ok_def)
    show "data_lags crc (st_data s3) base ws"
      unfolding data_lags_def using rd by (auto simp: s3 intro: exI [of _ "length ws"])
    show "table_inv crc s3 (replay ws base)" using rd by (simp add: table_inv_def s3)
    show "flushed_inv crc s3" by (simp add: flushed_inv_def s3)
  qed
  have "(\<exists>L base' ws'. store_inv crc s' L base' ws' \<and> replay ws' base' = replay ws base) \<and>
    \<not> poisoned s' \<and> \<not> checkpoint_in_flight s' \<and> dirty s' = []"
  proof (cases "both_segments_live (st_wal s3)")
    case True
    with fin obtain l where "checkpoint crc s3 = (Inr l, s')" by auto
    then have c: "checkpoint_inner crc s3 = (Inr l, s')"
      by (auto simp: checkpoint_def s3 poisoning_def split: if_splits sum.splits prod.splits)
    have "\<not> checkpoint_in_flight s3" by (simp add: s3)
    note ci = checkpoint_inner_inv [OF inv3 this c]
    have "store_inv crc s' (\<lambda>_. []) (replay ws base) [] \<and> replay [] (replay ws base) = replay ws base"
      using ci(1) by simp
    moreover have "\<not> poisoned s' \<and> \<not> checkpoint_in_flight s' \<and> dirty s' = []"
      using ci(2,7,8) by (simp add: s3)
    ultimately show ?thesis by blast
  next
    case False
    then show ?thesis using fin inv3 by (auto simp: s3)
  qed
  then show "\<exists>L base' ws'. store_inv crc s' L base' ws' \<and> replay ws' base' = replay ws base"
    "\<not> poisoned s'" "\<not> checkpoint_in_flight s'" "dirty s' = []" by auto
qed

end
