(* ===== verification/Store_Crash.thy ===== *)
theory Store_Crash
  imports Store_Open
begin

text \<open>
  Crash safety of the store as a whole: what a durable write acknowledged is what a store opened
  after a crash shows, and on a working disk such a store does open.
\<close>

section \<open>Log segments on stable storage\<close>

definition seg_durable :: "segment \<Rightarrow> bool" where
  "seg_durable seg \<longleftrightarrow> unsynced (seg_file seg) = {} \<and> synced_len (seg_file seg) = flen (seg_file seg)"

lemma crash_scan:
  assumes "seg_log crc seg rs" "seg_durable seg" "crash_image (seg_file seg) g"
  shows "fst (scan_loop crc g 0 0) = rs"
proof -
  have "scan_loop crc g 0 0 = scan_loop crc (seg_file seg) 0 0"
    using assms(2,3) by (intro scan_loop_cong) (auto simp: seg_durable_def crash_image_def)
  then show ?thesis using seg_logD(1) [OF assms(1)] by simp
qed

definition spare :: "wal \<Rightarrow> segment" where "spare w = segment_at w (1 - active w)"

lemma wal_append_spare:
  assumes "wal_append crc k w = (Inr l, w')" "active w < 2"
  shows "spare w' = spare w" "active w' = active w"
  using assms other_segment [OF assms(2)] by (auto elim!: wal_append_okE simp: spare_def)

lemma wal_append_all_spare:
  "wal_append_all crc ks w = (Inr ls, w') \<Longrightarrow> active w < 2 \<Longrightarrow> spare w' = spare w \<and> active w' = active w"
proof (induction ks arbitrary: w ls)
  case (Cons k ks)
  from Cons.prems(1) obtain l v ls' where
    v: "wal_append crc k w = (Inr l, v)" "wal_append_all crc ks v = (Inr ls', w')"
    by (auto elim!: try_then_okE)
  from wal_append_spare [OF v(1) Cons.prems(2)] Cons.IH [OF v(2)] Cons.prems(2) show ?case by simp
qed simp

lemma wal_sync_spare:
  assumes "wal_sync w = (Inr u, w')" "active w < 2"
  shows "spare w' = spare w" "active w' = active w" "seg_durable (segment_at w' (active w'))"
  using assms other_segment [OF assms(2)]
  by (auto simp: wal_sync_def spare_def seg_durable_def elim!: on_segment_okE on_file_okE dest!: sync_data_okD)

lemma write_pages_inner_durable:
  assumes "write_pages_inner crc writes True s = (Inr lsns, s')" "active (st_wal s) < 2"
    "\<forall>x\<in>set writes. length (pw_payload x) \<le> MAX_PAGE_PAYLOAD"
  shows "spare (st_wal s') = spare (st_wal s)" "seg_durable (segment_at (st_wal s') (active (st_wal s')))"
proof -
  have wal: "st_wal t' = st_wal t" if "install_writes xs t = (Inr u, t')" for xs t t' u
    using that by (induction xs t rule: install_writes.induct) (auto split: sum.splits)
  from assms(1) obtain w1 l w2 w3 u where
    a: "append_writes crc writes (st_wal s) = (Inr lsns, w1)"
    and c: "append_batch_commit crc (length writes) w1 = (Inr l, w2)"
    and sy: "wal_sync w2 = (Inr u, w3)"
    and ins: "install_writes (zip writes lsns) (s\<lparr>st_wal := w3\<rparr>) = (Inr (), s')"
    by (fastforce simp: write_pages_inner_def elim!: try_then_okE on_wal_okE)
  note a1 = wal_append_all_spare [OF a [unfolded append_writes_all [OF assms(3)]] assms(2)]
  have act: "active w1 < 2" using a1 assms(2) by simp
  note a2 = wal_append_spare [OF append_batch_commit_ok(3) [OF c refl] act]
  have "active w2 < 2" using a2 act by simp
  note a3 = wal_sync_spare [OF sy this]
  show "spare (st_wal s') = spare (st_wal s)" "seg_durable (segment_at (st_wal s') (active (st_wal s')))"
    using a1 a2 a3 wal [OF ins] by simp_all
qed

section \<open>Crash and reopen\<close>

text \<open>The state a crash leaves of the three files of a store.\<close>

definition store_crash ::
    "(bytes \<Rightarrow> u32) \<Rightarrow> store \<Rightarrow> (u64 \<Rightarrow> page option) \<Rightarrow> committed_write list \<Rightarrow>
     os_file \<Rightarrow> os_file \<Rightarrow> os_file \<Rightarrow> bool" where
  "store_crash crc s base ws fd f0 f1 \<longleftrightarrow>
    crash_image (seg_file (seg0 (st_wal s))) f0 \<and> crash_image (seg_file (seg1 (st_wal s))) f1 \<and>
    (\<forall>pid. addressable pid \<longrightarrow> crash_page_ok crc fd base ws pid)"

lemma crash_records:
  assumes inv: "store_inv crc s L base ws"
    and d: "seg_durable (spare (st_wal s))" "seg_durable (segment_at (st_wal s) (active (st_wal s)))"
    and cr: "store_crash crc s base ws fd f0 f1"
  defines "recs \<equiv> fst (choose_records (fst (scan_loop crc f0 0 0)) (fst (scan_loop crc f1 0 0)))"
  shows "recs = disk_records (st_wal s) L" "committed_page_images recs = Inr ws"
    "recs \<noteq> [] \<Longrightarrow> rec_lsn (last recs) \<noteq> - 1"
    "fst (scan_loop crc f0 0 0) = L 0" "fst (scan_loop crc f1 0 0) = L 1"
proof -
  let ?w = "st_wal s"
  have wi: "wal_inv crc ?w L" using inv by (simp add: store_inv_def)
  have act: "active ?w < 2" and logs: "\<And>i. i < 2 \<Longrightarrow> seg_log crc (segment_at ?w i) (L i)"
    using wi by (auto simp: wal_inv_def wal_logs_def)
  have dur: "seg_durable (segment_at ?w i)" if "i < 2" for i
  proof -
    have "i = active ?w \<or> i = 1 - active ?w" using that act by auto
    then show ?thesis using d by (auto simp: spare_def)
  qed
  show l0: "fst (scan_loop crc f0 0 0) = L 0"
    using crash_scan [OF logs dur, of 0 f0] cr by (simp add: store_crash_def segment_at_def)
  show l1: "fst (scan_loop crc f1 0 0) = L 1"
    using crash_scan [OF logs dur, of 1 f1] cr by (simp add: store_crash_def segment_at_def)
  have rise: "lsns_rise 0 (L (1 - active ?w) @ L (active ?w))"
    using wi by (simp add: wal_inv_def disk_records_def)
  show r: "recs = disk_records ?w L"
    using choose_records_disk(1) [OF rise act] by (simp add: recs_def l0 l1 disk_records_def)
  have "checkpoint_suffix (disk_records ?w L) (wal_records ?w)" using wi by (simp add: wal_inv_def)
  then show "committed_page_images recs = Inr ws"
    using committed_suffix inv r by (simp add: store_inv_def)
  show "rec_lsn (last recs) \<noteq> - 1" if "recs \<noteq> []"
  proof -
    have "rec_lsn (last recs) < next_lsn ?w" using last_lsn_disk [OF wi] that r by (simp add: last_lsn_def)
    then show ?thesis using word_order.extremum_strict by force
  qed
qed

lemma store_survives_crash:
  assumes inv: "store_inv crc s L base ws"
    and d: "seg_durable (spare (st_wal s))" "seg_durable (segment_at (st_wal s) (active (st_wal s)))"
    and cr: "store_crash crc s base ws fd f0 f1"
    and ok: "store_open crc fd f0 f1 = Inr s'" and a: "addressable pid"
  shows "read_page crc pid s' = read_page crc pid s"
proof -
  note r = crash_records [OF inv d cr]
  have fit: "\<forall>x\<in>set ws. fits x" using inv by (simp add: store_inv_def changes_ok_def)
  have base: "page_wf p \<and> page_id p = pid \<and> addressable pid" if "base pid = Some p" for pid p
    using inv that by (auto simp: store_inv_def pages_ok_def)
  have pages: "crash_page_ok crc fd base ws pid" if "addressable pid" for pid
    using cr that by (simp add: store_crash_def)
  obtain L' base' ws' where o: "store_inv crc s' L' base' ws'" "replay ws' base' = replay ws base"
    using store_open_inv(1) [OF ok refl r(2) fit r(3) pages base] by blast
  show ?thesis using store_inv_read [OF o(1) a] store_inv_read [OF inv a] o(2) by simp
qed

section \<open>Opening succeeds on a working disk\<close>

lemma healthy_set_len:
  "healthy f \<Longrightarrow> \<exists>g. set_len f n = (Inr (), g) \<and> healthy g \<and> flen g = n"
  by (simp add: set_len_def next_outcome_def healthy_def)

lemma healthy_sync: "healthy f \<Longrightarrow> \<exists>g. sync_data f = (Inr (), g) \<and> healthy g \<and> flen g = flen f"
  by (simp add: healthy_ops) (simp add: healthy_def)

lemma healthy_write: "healthy f \<Longrightarrow> \<exists>g. write_all_at f buf off = (Inr (), g) \<and> healthy g"
  by (simp add: healthy_ops)

lemma scan_and_repair_total:
  "healthy f \<Longrightarrow> \<exists>x g. scan_and_repair crc f = (Inr x, g) \<and> healthy g"
proof -
  assume h: "healthy f"
  obtain rs e where l: "scan_loop crc f 0 0 = (rs, e)" by force
  obtain g where g: "write_all_at f STOP_MARKER e = (Inr (), g)" "healthy g" using healthy_write [OF h] by blast
  obtain k where "sync_data g = (Inr (), k)" "healthy k" using healthy_sync [OF g(2)] by blast
  with g h l show ?thesis by (simp add: scan_and_repair_def)
qed

lemma segment_open_total:
  "healthy f \<Longrightarrow> \<exists>seg rs g. segment_open crc f = (Inr (seg, rs), g) \<and> healthy (seg_file seg)"
proof -
  assume "healthy f"
  then obtain rs e g where g: "scan_and_repair crc f = (Inr (rs, e), g)" "healthy g"
    using scan_and_repair_total [of f crc] by auto
  obtain k where k: "set_len g WAL_PREALLOCATE_BYTES = (Inr (), k)" "healthy k"
    using healthy_set_len [OF g(2)] by blast
  obtain l where "sync_data k = (Inr (), l)" "healthy l" using healthy_sync [OF k(2)] by blast
  with g k show ?thesis by (simp add: segment_open_def)
qed

lemma seal_and_sync_total: "healthy (seg_file seg) \<Longrightarrow> \<exists>seg'. seal_and_sync seg = (Inr (), seg')"
proof -
  assume "healthy (seg_file seg)"
  then obtain g where g: "write_all_at (seg_file seg) STOP_MARKER 0 = (Inr (), g)" "healthy g"
    using healthy_write by blast
  obtain k where "sync_data g = (Inr (), k)" using healthy_sync [OF g(2)] by blast
  with g show ?thesis by (simp add: seal_and_sync_def on_file_def seal_file_def)
qed

lemma wal_open_total: "healthy f0 \<Longrightarrow> healthy f1 \<Longrightarrow> \<exists>w. wal_open crc f0 f1 = Inr w"
proof -
  assume "healthy f0" "healthy f1"
  then obtain sa ra ga sb rb gb where
    a: "segment_open crc f0 = (Inr (sa, ra), ga)" "healthy (seg_file sa)"
    and b: "segment_open crc f1 = (Inr (sb, rb), gb)" "healthy (seg_file sb)"
    using segment_open_total by metis
  obtain xa xb where x: "seal_and_sync sa = (Inr (), xa)" "seal_and_sync sb = (Inr (), xb)"
    using seal_and_sync_total a b by metis
  obtain recs act garbage where c: "choose_records ra rb = (recs, act, garbage)" by (metis prod_cases3)
  show ?thesis
  proof (cases garbage)
    case (Some i)
    then show ?thesis using a b c x
      by (cases "i = 0") (simp_all add: wal_open_def Let_def on_segment_def segment_at_def)
  qed (use a b c in \<open>simp add: wal_open_def Let_def\<close>)
qed

lemma max_lsn_from_total:
  "\<forall>raw\<in>set raws. \<exists>p. data_read crc f (word_of_nat raw) = Inr p \<and> (\<forall>q. p = Some q \<longrightarrow> page_lsn q < n) \<Longrightarrow>
    m < n \<Longrightarrow> \<exists>k. max_lsn_from crc f raws m = Inr k \<and> k < n"
proof (induction raws arbitrary: m)
  case (Cons raw raws)
  then obtain p where p: "data_read crc f (word_of_nat raw) = Inr p" "\<forall>q. p = Some q \<longrightarrow> page_lsn q < n" by auto
  show ?case
  proof (cases p)
    case None
    then show ?thesis using Cons p by simp
  next
    case (Some q)
    then show ?thesis using Cons.IH [of "max m (page_lsn q)"] Cons.prems p by (simp add: max_def)
  qed
qed simp

lemma recover_writes_len:
  assumes "recover_writes crc ws b f = (Inr w, f')" "flen f \<le> 2 ^ 64"
  shows "flen f' \<le> 2 ^ 64"
  using assms
proof (induction ws arbitrary: b f)
  case (Cons x ws)
  from Cons.prems(1) obtain b' g where g: "recover_write crc x f = (Inr b', g)"
    "recover_writes crc ws (b \<or> b') g = (Inr w, f')"
    by (auto elim!: try_then_okE)
  have "flen g \<le> 2 ^ 64"
  proof (cases "g = f")
    case False
    then obtain p where p: "page_wf p" "data_write crc f p = (Inr (), g)"
      using g(1) page_with_lsn_wf
      by (auto simp: recover_write_def Let_def elim!: try_then_okE
          split: sum.splits storage_error.splits option.splits if_splits prod.splits) metis+
    from p(2) obtain y where y: "page_offset (page_id p) = Inr y" "g = file_put (drop_outcome f) (page_encode crc p) y"
      by (rule data_write_okD)
    have "unat (page_id p) * PAGE_SIZE < 2 ^ 51 * PAGE_SIZE"
      using y(1) by (auto simp: page_offset_def PAGE_SIZE_def split: if_splits)
    then have "unat (page_id p) + 1 \<le> 2 ^ 51" by (simp add: PAGE_SIZE_def)
    then have "(unat (page_id p) + 1) * PAGE_SIZE \<le> 2 ^ 51 * PAGE_SIZE" by (rule mult_le_mono1)
    moreover have "y = unat (page_id p) * PAGE_SIZE" using y(1) by (auto simp: page_offset_def split: if_splits)
    ultimately have "y + PAGE_SIZE \<le> 2 ^ 64" by (simp add: PAGE_SIZE_def)
    then show ?thesis using y(2) length_page_encode [OF p(1), of crc] Cons.prems(2) by auto
  qed (use Cons.prems in simp)
  with Cons.IH [OF g(2)] show ?case by simp
qed simp

lemma empty_log_end: "seg_log crc seg [] \<Longrightarrow> end_offset seg = 0"
proof -
  assume l: "seg_log crc seg []"
  show ?thesis
  proof (cases "scan_record crc (seg_file seg) 0 0")
    case None
    then show ?thesis using seg_logD(1) [OF l] by (simp add: scan_loop_unfold(1))
  next
    case (Some x)
    obtain r n where "x = (r, n)" by force
    moreover obtain rs e where "scan_loop crc (seg_file seg) (0 + n) (rec_lsn r) = (rs, e)" by force
    ultimately show ?thesis
      using scan_loop_unfold(2) [of crc "seg_file seg" 0 0 r n rs e] Some seg_logD(1) [OF l] by simp
  qed
qed

lemma one_live_segment:
  assumes "wal_open crc f0 f1 = Inr w" "fst (scan_loop crc f0 0 0) = L 0" "fst (scan_loop crc f1 0 0) = L 1"
    and "lsns_rise 0 (L (1 - a) @ L a)" "a < (2 :: nat)" "L (1 - a) = []"
  shows "\<not> both_segments_live w"
proof -
  from assms(1) obtain sa sb fa fb act garbage where
    so: "segment_open crc f0 = (Inr (sa, L 0), fa)" "segment_open crc f1 = (Inr (sb, L 1), fb)"
    and c: "choose_records (L 0) (L 1) = (wal_records w, act, garbage)"
    and seg: "\<And>i. i < 2 \<Longrightarrow> garbage \<noteq> Some i \<Longrightarrow> segment_at w i = (if i = 0 then sa else sb)"
    unfolding assms(2,3) [symmetric] by (rule wal_open_okE) blast
  have "garbage = None" using choose_records_disk(2) [OF assms(4,5)] c by simp
  then have "segment_at w 0 = sa" "segment_at w 1 = sb" using seg by auto
  then have "seg0 w = sa" "seg1 w = sb" by (simp_all add: segment_at_def)
  moreover have "seg_log crc sa (L 0)" "seg_log crc sb (L 1)"
    using segment_open_log(1) so by blast+
  moreover have "a = 0 \<or> a = 1" using assms(5) by auto
  ultimately show ?thesis
    using empty_log_end assms(6) by (auto simp: both_segments_live_def)
qed

lemma both_live_update:
  assumes "ensure_next_lsn_after mx w = (Inr u, w2)"
  shows "both_segments_live (trim_records_to_last_checkpoint w2) = both_segments_live w"
proof -
  have "segment_at (trim_records_to_last_checkpoint w2) i = segment_at w i" for i
    using ensure_next_lsn_okD(3) [OF assms] by simp
  from this [of 0] this [of 1] show ?thesis by (simp add: both_segments_live_def segment_at_def)
qed

lemma data_open_total: "healthy f \<Longrightarrow> \<exists>g. data_open f = (Inr (), g) \<and> healthy g \<and> flen g \<le> flen f"
proof -
  assume h: "healthy f"
  define n where "n = flen f - flen f mod PAGE_SIZE"
  obtain k where "set_len f n = (Inr (), k)" "healthy k" "flen k = n" using healthy_set_len [OF h] by blast
  moreover have "n \<le> flen f" by (simp add: n_def)
  moreover have "data_open f = (if n \<noteq> flen f then set_len f n else (Inr (), f))"
    by (simp add: data_open_def n_def Let_def)
  ultimately show ?thesis using h by (cases "n = flen f") auto
qed

lemma store_reopens:
  assumes inv: "store_inv crc s L base ws"
    and d: "seg_durable (spare (st_wal s))" "seg_durable (segment_at (st_wal s) (active (st_wal s)))"
    and one: "L (1 - active (st_wal s)) = []"
    and cr: "store_crash crc s base ws fd f0 f1"
    and h: "healthy fd" "healthy f0" "healthy f1" "flen fd \<le> 2 ^ 64"
  shows "\<exists>s'. store_open crc fd f0 f1 = Inr s'"
proof -
  note r = crash_records [OF inv d cr]
  let ?n = "next_lsn (st_wal s)"
  have wi: "wal_inv crc (st_wal s) L" using inv by (simp add: store_inv_def)
  obtain g where g: "data_open fd = (Inr (), g)" "healthy g" "flen g \<le> 2 ^ 64"
    using data_open_total [OF h(1)] h(4) by (meson order.trans)
  obtain w where w: "wal_open crc f0 f1 = Inr w" using wal_open_total [OF h(2,3)] by blast
  have recs: "wal_records w = disk_records (st_wal s) L" using w r(1) by (auto elim!: wal_open_okE)
  have fit: "\<forall>x\<in>set ws. fits x" using inv by (simp add: store_inv_def changes_ok_def)
  obtain wrote f2 where f2: "recover_writes crc ws False g = (Inr wrote, f2)" "healthy f2"
    using recover_writes_total [OF g(2) fit] by blast
  obtain f3 where f3: "if wrote then data_sync f2 = (Inr (), f3) else f3 = f2" "flen f3 \<le> 2 ^ 64"
    using healthy_sync [OF f2(2)] recover_writes_len [OF f2(1) g(3)]
    by (cases wrote) (auto simp: data_sync_def)
  have cg: "crash_page_ok crc g base ws pid" if "addressable pid" for pid
    using cr that data_open_okD(2) [OF g(1)] by (simp add: store_crash_def crash_page_ok_def)
  have rd: "data_read crc f3 pid = Inr (replay ws base pid)" if "addressable pid" for pid
    using recovered_reads [OF data_open_okD(1) [OF g(1)] f2(1) cg that] f3(1)
      data_read_cong [of f3 f2] sync_data_okD [of f2 "()" f3]
    by (cases wrote) (auto simp: data_sync_def)
  have pages: "pages_ok ?n (replay ws base)"
    using inv by (auto simp: store_inv_def intro: pages_ok_replay)
  have "addressable (word_of_nat raw)" if "raw \<in> set [0..<page_count f3]" for raw
  proof -
    have "raw < flen f3 div PAGE_SIZE" using that by (simp add: page_count_def)
    moreover have "flen f3 div PAGE_SIZE \<le> 2 ^ 64 div PAGE_SIZE" using f3(2) by (rule div_le_mono)
    ultimately have "raw < 2 ^ 51" by (simp add: PAGE_SIZE_def)
    moreover from this have "unat (word_of_nat raw :: u64) = raw" by (intro unat_word_of_nat_u64) simp
    ultimately show ?thesis by (simp add: addressable_def PAGE_SIZE_def)
  qed
  then have "\<forall>raw\<in>set [0..<page_count f3]. \<exists>p. data_read crc f3 (word_of_nat raw) = Inr p \<and>
      (\<forall>q. p = Some q \<longrightarrow> page_lsn q < ?n)"
    using rd pages by (auto simp: pages_ok_def)
  moreover have "0 < ?n" using wi by (simp add: wal_inv_def wal_logs_def)
  ultimately obtain mx where mx: "max_lsn crc f3 = Inr mx" "mx < ?n"
    unfolding max_lsn_def using max_lsn_from_total by blast
  obtain w2 where en: "ensure_next_lsn_after mx w = (Inr (), w2)"
  proof -
    have "unat mx < unat ?n" using mx(2) by (simp add: word_less_nat_alt)
    then have "unat mx + 1 < 2 ^ 64" using unat_u64_less [of ?n] by linarith
    then have "checked_add_u64 mx 1 = Some (mx + 1)" by (simp add: checked_add_u64_def)
    then show thesis using that by (simp add: ensure_next_lsn_after_def)
  qed
  have live: "\<not> both_segments_live (trim_records_to_last_checkpoint w2)"
    using one_live_segment [OF w r(4,5) _ _ one] wi both_live_update [OF en]
    by (simp add: wal_inv_def wal_logs_def disk_records_def)
  have cm: "committed_page_images (wal_records w) = Inr ws" using recs r(1,2) by simp
  have w2: "wal_records w2 = wal_records w" by (rule ensure_next_lsn_okD(1) [OF en])
  show ?thesis
    using g(1) w cm f2(1) f3(1) mx(1) en live w2
    by (cases wrote) (simp_all add: store_open_def Let_def recover_def on_data_def on_wal_def calculate_next_page_id_def)
qed

end
