(* ===== verification/Store_Live.thy ===== *)
theory Store_Live
  imports Store_Crash
begin

text \<open>
  Progress: on a working disk, with room for the records below the 64-bit limits of offsets and
  LSNs, every append to the log and hence every page write succeeds. Also the store made from
  empty files, the starting point of the concrete runs.
\<close>

section \<open>Appends succeed\<close>

lemma zero_fill_total: "healthy f \<Longrightarrow> \<exists>g. zero_fill f off to = (Inr (), g) \<and> healthy g"
proof (induction f off to rule: zero_fill.induct)
  case (1 f off to)
  let ?step = "min (to - off) ZERO_FILL_CHUNK"
  obtain g where g: "write_all_at f (replicate ?step 0) off = (Inr (), g)" "healthy g"
    using healthy_write [OF "1.prems"] by blast
  show ?case
  proof (cases "off < to")
    case True
    from "1.IH" [OF True refl g(1) [symmetric] refl g(2)] show ?thesis
      by (subst zero_fill.simps) (simp add: True g(1) Let_def)
  next
    case False
    then show ?thesis using "1.prems" by (subst zero_fill.simps) simp
  qed
qed

lemma on_file_total:
  assumes "\<exists>g. op (seg_file seg) = (Inr (), g) \<and> healthy g"
  shows "\<exists>seg'. on_file op seg = (Inr (), seg') \<and> healthy (seg_file seg') \<and> end_offset seg' = end_offset seg"
  using assms by (auto simp: on_file_def)

lemma grow_file_total:
  assumes "healthy (seg_file seg)" "needed + WAL_PREALLOCATE_BYTES < 2 ^ 64"
  shows "\<exists>t. grow_file needed seg = (Inr (), t) \<and> healthy (seg_file t) \<and> end_offset t = end_offset seg"
proof -
  obtain t where t: "on_file (\<lambda>f. set_len f (needed + WAL_PREALLOCATE_BYTES)) seg = (Inr (), t)"
    "healthy (seg_file t)" "end_offset t = end_offset seg"
    using on_file_total [of "\<lambda>f. set_len f (needed + WAL_PREALLOCATE_BYTES)" seg] healthy_set_len [OF assms(1)]
    by blast
  have "grow_file needed seg = (if needed > file_length seg
      then (Inr (), t\<lparr>file_length := needed + WAL_PREALLOCATE_BYTES\<rparr>) else (Inr (), seg))"
    unfolding grow_file_def using assms(2) t(1) by simp
  then show ?thesis using assms(1) t(2,3) by (cases "needed > file_length seg") auto
qed

lemma fill_ahead_total:
  assumes "healthy (seg_file seg)"
  shows "\<exists>t. fill_ahead needed seg = (Inr (), t) \<and> healthy (seg_file t) \<and> end_offset t = end_offset seg"
proof -
  define target where "target = min (needed + WAL_ZERO_FILL_AHEAD) (file_length seg)"
  obtain t where t: "on_file (\<lambda>f. zero_fill f (allocated_offset seg) target) seg = (Inr (), t)"
    "healthy (seg_file t)" "end_offset t = end_offset seg"
    using on_file_total [of "\<lambda>f. zero_fill f (allocated_offset seg) target" seg] zero_fill_total [OF assms]
    by blast
  have "fill_ahead needed seg = (if needed > allocated_offset seg
      then (Inr (), t\<lparr>allocated_offset := target\<rparr>) else (Inr (), seg))"
    unfolding fill_ahead_def Let_def target_def [symmetric] using t(1) by simp
  then show ?thesis using assms t(2,3) by (cases "needed > allocated_offset seg") auto
qed

lemma append_record_total:
  assumes h: "healthy (seg_file seg)"
    and room: "end_offset seg + (WAL_HEADER_SIZE + length payload) + 4 + WAL_PREALLOCATE_BYTES < 2 ^ 64"
  shows "\<exists>seg'. append_record seg header payload = (Inr (), seg') \<and> healthy (seg_file seg') \<and>
    end_offset seg' = end_offset seg + (WAL_HEADER_SIZE + length payload)"
proof -
  let ?needed = "end_offset seg + (WAL_HEADER_SIZE + length payload) + length STOP_MARKER"
  obtain t where t: "grow_file ?needed seg = (Inr (), t)" "healthy (seg_file t)" "end_offset t = end_offset seg"
    using grow_file_total [OF h, of ?needed] room by (auto simp: length_STOP_MARKER)
  obtain u where u: "fill_ahead ?needed t = (Inr (), u)" "healthy (seg_file u)" "end_offset u = end_offset seg"
    using fill_ahead_total [OF t(2), of ?needed] t(3) by auto
  obtain v where v: "on_file (\<lambda>f. write_all_at f header (end_offset u)) u = (Inr (), v)" "healthy (seg_file v)"
    "end_offset v = end_offset u"
    using on_file_total [of "\<lambda>f. write_all_at f header (end_offset u)" u] healthy_write [OF u(2)] by blast
  obtain x where x: "on_file (\<lambda>f. write_all_at f payload (end_offset v + WAL_HEADER_SIZE)) v = (Inr (), x)"
    "healthy (seg_file x)" "end_offset x = end_offset v"
    using on_file_total [of "\<lambda>f. write_all_at f payload (end_offset v + WAL_HEADER_SIZE)" v] healthy_write [OF v(2)] by blast
  obtain y where y: "on_file (\<lambda>f. write_all_at f STOP_MARKER (end_offset seg + (WAL_HEADER_SIZE + length payload))) x = (Inr (), y)"
    "healthy (seg_file y)"
    using on_file_total [of "\<lambda>f. write_all_at f STOP_MARKER (end_offset seg + (WAL_HEADER_SIZE + length payload))" x]
      healthy_write [OF x(2)] by blast
  show ?thesis
    using room t(1) u(1) v(1) x(1) y by (simp add: append_record_def Let_def)
qed

text \<open>A working log with room for \<open>n\<close> more records.\<close>

definition wal_ready :: "nat \<Rightarrow> wal \<Rightarrow> bool" where
  "wal_ready n w \<longleftrightarrow> active w < 2 \<and> healthy (seg_file (segment_at w (active w))) \<and>
    end_offset (segment_at w (active w)) + n * 8168 + 4 + WAL_PREALLOCATE_BYTES < 2 ^ 64 \<and>
    unat (next_lsn w) + n < 2 ^ 64"

lemma wal_append_total:
  assumes "wal_ready (Suc n) w" "scannable kind"
  shows "\<exists>w'. wal_append crc kind w = (Inr (next_lsn w), w') \<and> wal_ready n w'"
proof -
  obtain ty pid payload where k: "kind_fields kind = (ty, pid, payload)" by (metis prod_cases3)
  have len: "length payload \<le> 8128" using assms(2) k by (simp add: scannable_def page_consts)
  let ?seg = "segment_at w (active w)"
  have r: "healthy (seg_file ?seg)" "active w < 2" "unat (next_lsn w) + Suc n < 2 ^ 64"
    "end_offset ?seg + Suc n * 8168 + 4 + WAL_PREALLOCATE_BYTES < 2 ^ 64"
    using assms(1) by (simp_all add: wal_ready_def)
  define nxt where "nxt = next_lsn w + 1"
  have nxt1: "checked_add_u64 (next_lsn w) 1 = Some nxt" using r(3) by (simp add: checked_add_u64_def nxt_def)
  have nxt2: "unat nxt = unat (next_lsn w) + 1" using checked_add_u64_Some [OF nxt1] by simp
  have room: "end_offset ?seg + (WAL_HEADER_SIZE + length payload) + 4 + WAL_PREALLOCATE_BYTES < 2 ^ 64"
    using r(4) len by (simp add: WAL_HEADER_SIZE_def)
  obtain seg where seg:
    "append_record ?seg (record_header crc (next_lsn w) ty pid payload) payload = (Inr (), seg)"
    "healthy (seg_file seg)" "end_offset seg = end_offset ?seg + (WAL_HEADER_SIZE + length payload)"
    using append_record_total [OF r(1) room] by blast
  have small: "checked_add_usize WAL_HEADER_SIZE (length payload) = Some (WAL_HEADER_SIZE + length payload)"
    "WAL_HEADER_SIZE + length payload < 2 ^ 32"
    using len by (simp_all add: checked_add_usize_def usize_max_def WAL_HEADER_SIZE_def)
  let ?w = "(set_segment (active w) seg (w\<lparr>next_lsn := nxt\<rparr>))\<lparr>wal_records :=
      wal_records w @ [\<lparr>rec_lsn = next_lsn w, rec_kind = kind\<rparr>]\<rparr>"
  have "wal_append crc kind w = (Inr (next_lsn w), ?w)"
    using seg(1) small nxt1 k by (simp add: wal_append_def Let_def on_segment_def checked_add_usize_def)
  moreover have "wal_ready n ?w"
    using r seg(2,3) nxt2 len by (simp add: wal_ready_def WAL_HEADER_SIZE_def)
  ultimately show ?thesis by blast
qed

lemma wal_append_all_total:
  assumes "wal_ready (length ks + n) w" "\<forall>k\<in>set ks. scannable k"
  shows "\<exists>lsns w'. wal_append_all crc ks w = (Inr lsns, w') \<and> wal_ready n w'"
  using assms
proof (induction ks arbitrary: w)
  case (Cons k ks)
  obtain v where v: "wal_append crc k w = (Inr (next_lsn w), v)" "wal_ready (length ks + n) v"
    using wal_append_total [of "length ks + n" w k crc] Cons.prems by auto
  then show ?case using Cons.IH [OF v(2)] Cons.prems(2) by fastforce
qed simp

lemma wal_sync_total:
  assumes "wal_ready n w" shows "\<exists>w'. wal_sync w = (Inr (), w') \<and> wal_ready n w'"
proof -
  let ?seg = "segment_at w (active w)"
  obtain g where g: "sync_data (seg_file ?seg) = (Inr (), g)" "healthy g"
    using healthy_sync assms unfolding wal_ready_def by blast
  let ?w = "set_segment (active w) (?seg\<lparr>seg_file := g\<rparr>) w"
  have "wal_sync w = (Inr (), ?w)" using g by (simp add: wal_sync_def on_segment_def on_file_def)
  moreover have "wal_ready n ?w" using assms g by (simp add: wal_ready_def)
  ultimately show ?thesis by blast
qed

lemma install_writes_total:
  "\<forall>(x, lsn)\<in>set xs. length (pw_payload x) \<le> MAX_PAGE_PAYLOAD \<Longrightarrow> \<exists>s'. install_writes xs s = (Inr (), s')"
  by (induction xs s rule: install_writes.induct) (auto simp: page_with_lsn_def)

text \<open>A batch of page writes costs one record per page and one for the commit.\<close>

lemma install_writes_wal: "install_writes xs s = (r, t) \<Longrightarrow> st_wal t = st_wal s"
  by (induction xs s rule: install_writes.induct) (auto split: sum.splits)

lemma write_pages_inner_total:
  assumes ready: "wal_ready (Suc (length writes)) (st_wal s)" and ne: "writes \<noteq> []"
    and ok: "\<forall>x\<in>set writes. length (pw_payload x) \<le> MAX_PAGE_PAYLOAD \<and> pw_page_id x \<noteq> NO_PAGE_ID"
    and few: "length writes < 2 ^ 32"
  shows "\<exists>lsns s'. write_pages_inner crc writes durable s = (Inr lsns, s') \<and> wal_ready 0 (st_wal s')"
proof -
  let ?ks = "map (\<lambda>x. PageImage (pw_page_id x) (pw_payload x)) writes"
  have small: "\<forall>x\<in>set writes. length (pw_payload x) \<le> MAX_PAGE_PAYLOAD" using ok by simp
  have ks: "\<forall>k\<in>set ?ks. scannable k" using ok by simp
  have ready': "wal_ready (length ?ks + 1) (st_wal s)" using ready by simp
  obtain lsns w1 where w1: "append_writes crc writes (st_wal s) = (Inr lsns, w1)" "wal_ready (Suc 0) w1"
    using wal_append_all_total [OF ready' ks, of crc] unfolding append_writes_all [OF small] by auto
  have "scannable (BatchCommit (word_of_nat (length writes)))" using ne few by (intro scannable_batch) auto
  then obtain w2 where w2: "append_batch_commit crc (length writes) w1 = (Inr (next_lsn w1), w2)" "wal_ready 0 w2"
    using wal_append_total [OF w1(2)] ne few by (fastforce simp: append_batch_commit_def Let_def)
  obtain w3 where w3: "wal_sync w2 = (Inr (), w3)" "wal_ready 0 w3" using wal_sync_total [OF w2(2)] by blast
  define w4 where "w4 = (if durable then w3 else w2)"
  obtain s' where s': "install_writes (zip writes lsns) (s\<lparr>st_wal := w4\<rparr>) = (Inr (), s')"
    using install_writes_total [of "zip writes lsns" "s\<lparr>st_wal := w4\<rparr>"] small by (auto dest: set_zip_leftD)
  then have "write_pages_inner crc writes durable s = (Inr lsns, s')"
    using w1 w2 w3 by (cases durable) (simp_all add: write_pages_inner_def on_wal_def w4_def)
  moreover have "wal_ready 0 (st_wal s')" using install_writes_wal [OF s'] w2(2) w3(2) by (simp add: w4_def)
  ultimately show ?thesis by blast
qed

lemma write_pages_total:
  assumes ready: "wal_ready (Suc (length writes)) (st_wal s)" and np: "\<not> poisoned s"
    and ok: "\<forall>x\<in>set writes. length (pw_payload x) \<le> MAX_PAGE_PAYLOAD \<and> pw_page_id x \<noteq> NO_PAGE_ID"
    and few: "length writes < 2 ^ 32"
  shows "\<exists>lsns s'. write_pages crc writes s = (Inr lsns, s')"
proof (cases "writes = []")
  case True
  then show ?thesis using np by (simp add: write_pages_def write_pages_with_def)
next
  case False
  have valid: "validate_writes writes = Inr ()"
    using ok by (induction writes) (auto simp: page_new_def page_with_lsn_def)
  with write_pages_inner_total [OF ready False ok few, of crc True] show ?thesis
    using np False by (auto simp: write_pages_def write_pages_with_def poisoning_def)
qed

lemma install_grown_total:
  "\<forall>(pid, b)\<in>set grown. length b \<le> MAX_PAGE_PAYLOAD \<Longrightarrow> \<exists>s'. install_grown grown newest sealed s = (Inr (), s')"
  by (induction grown newest sealed s rule: install_grown.induct) (auto simp: page_with_lsn_def Let_def)

lemma append_pages_total:
  assumes ready: "wal_ready (Suc (length appends)) (st_wal s)" and np: "\<not> poisoned s"
    and ok: "\<forall>x\<in>set appends. length (pa_payload x) + 4 \<le> MAX_PAGE_PAYLOAD \<and> pa_page_id x \<noteq> NO_PAGE_ID"
    and few: "length appends < 2 ^ 32"
    and gr: "grow_pages crc s appends [] = Inr grown" "\<forall>(pid, b)\<in>set grown. length b \<le> MAX_PAGE_PAYLOAD"
  shows "\<exists>lsns s'. append_pages crc appends s = (Inr lsns, s')"
proof (cases "appends = []")
  case False
  let ?ks = "map (\<lambda>x. PageAppend (pa_page_id x) (pa_offset x) (pa_payload x)) appends"
  have small: "\<forall>x\<in>set appends. length (pa_payload x) \<le> MAX_PAGE_PAYLOAD" using ok by auto
  have ks: "\<forall>k\<in>set ?ks. scannable k" using ok by simp
  have ready': "wal_ready (length ?ks + 1) (st_wal s)" using ready by simp
  obtain lsns w1 where w1: "append_tails crc appends (st_wal s) = (Inr lsns, w1)" "wal_ready (Suc 0) w1"
    using wal_append_all_total [OF ready' ks, of crc] unfolding append_tails_all [OF small] by auto
  have "scannable (BatchCommit (word_of_nat (length appends)))" using False few by (intro scannable_batch) auto
  then obtain w2 where w2: "append_batch_commit crc (length appends) w1 = (Inr (next_lsn w1), w2)" "wal_ready 0 w2"
    using wal_append_total [OF w1(2)] False few by (fastforce simp: append_batch_commit_def Let_def)
  obtain w3 where w3: "wal_sync w2 = (Inr (), w3)" using wal_sync_total [OF w2(2)] by blast
  obtain s' where "install_grown grown (newest_lsns (zip appends lsns) [])
       (map pa_page_id (filter pa_sealed appends)) (s\<lparr>st_wal := w3\<rparr>) = (Inr (), s')"
    using install_grown_total [OF gr(2)] by blast
  then have "append_pages_inner crc appends True s = (Inr lsns, s')"
    using gr(1) w1 w2 w3 by (simp add: append_pages_inner_def on_wal_def)
  then show ?thesis using np False by (auto simp: append_pages_def poisoning_def)
qed (simp add: append_pages_def)

section \<open>The store of an empty directory\<close>

definition empty_file :: os_file where
  "empty_file = \<lparr>fdata = (\<lambda>_. 0), flen = 0, unsynced = {}, synced_len = 0, outcomes = []\<rparr>"

definition fresh_segment :: segment where
  "fresh_segment = \<lparr>seg_file = empty_file\<lparr>flen := WAL_PREALLOCATE_BYTES, synced_len := WAL_PREALLOCATE_BYTES\<rparr>,
     end_offset = 0, file_length = WAL_PREALLOCATE_BYTES, allocated_offset = 0\<rparr>"

definition fresh_store :: store where
  "fresh_store = \<lparr>st_data = empty_file,
     st_wal = \<lparr>seg0 = fresh_segment, seg1 = fresh_segment, active = 0, retired = None,
               wal_records = [], next_lsn = 1\<rparr>,
     dirty = [], flushed = [], flush_queue = [],
     allocator = \<lparr>next_page_id = 0, free_pages = []\<rparr>, open_pages = [],
     checkpoint_in_flight = False, poisoned = False\<rparr>"

lemma empty_scan: "scan_loop crc empty_file 0 0 = ([], 0)"
  by (rule scan_loop_unfold(1)) (simp add: scan_record_def empty_file_def WAL_HEADER_SIZE_def)

lemma segment_open_empty: "segment_open crc empty_file = (Inr (fresh_segment, []), seg_file fresh_segment)"
proof -
  have r: "scan_and_repair crc empty_file = (Inr ([], 0), empty_file)"
    by (simp add: scan_and_repair_def empty_scan length_STOP_MARKER) (simp add: empty_file_def)
  have s: "set_len empty_file WAL_PREALLOCATE_BYTES = (Inr (), empty_file\<lparr>flen := WAL_PREALLOCATE_BYTES\<rparr>)"
    by (simp add: set_len_def empty_file_def next_outcome_def drop_outcome_def)
  have y: "sync_data (empty_file\<lparr>flen := WAL_PREALLOCATE_BYTES\<rparr>) =
      (Inr (), empty_file\<lparr>flen := WAL_PREALLOCATE_BYTES, synced_len := WAL_PREALLOCATE_BYTES\<rparr>)"
    by (simp add: sync_data_def empty_file_def next_outcome_def drop_outcome_def)
  have "flen empty_file < WAL_PREALLOCATE_BYTES" by (simp add: empty_file_def WAL_PREALLOCATE_BYTES_def)
  with r s y show ?thesis by (simp add: segment_open_def fresh_segment_def)
qed

lemma empty_data_read: "data_read crc empty_file pid = (if addressable pid then Inr None
    else Inl (CorruptDataFile (Reason ''page offset overflow'' [])))"
  by (simp add: data_read_def read_shared_def page_offset_def addressable_def empty_file_def PAGE_SIZE_def)

theorem store_open_empty: "store_open crc empty_file empty_file empty_file = Inr fresh_store"
proof -
  have "data_open empty_file = (Inr (), empty_file)" by (simp add: data_open_def empty_file_def)
  moreover have "wal_open crc empty_file empty_file = Inr (st_wal fresh_store)"
    by (simp add: wal_open_def segment_open_empty choose_records_def fresh_store_def)
  moreover have "max_lsn crc empty_file = Inr 0"
    by (simp add: max_lsn_def page_count_def empty_file_def)
  ultimately show ?thesis
    by (simp add: store_open_def recover_def committed_page_images_def fresh_store_def on_data_def on_wal_def
        ensure_next_lsn_after_def checked_add_u64_def calculate_next_page_id_def page_count_def empty_file_def
        trim_records_to_last_checkpoint_def both_segments_live_def fresh_segment_def)
qed

lemma fresh_store_inv: "store_inv crc fresh_store (\<lambda>_. []) (\<lambda>_. None) []"
proof -
  have "scan_loop crc (seg_file fresh_segment) 0 0 = ([], 0)"
    by (rule scan_loop_unfold(1), rule scan_record_no_magic)
      (simp add: fresh_segment_def empty_file_def file_read_def WAL_MAGIC_def upt_rec)
  then have "seg_log crc fresh_segment []"
    by (simp add: seg_log_def seg_ok_def fresh_segment_def)
  then have "wal_inv crc (st_wal fresh_store) (\<lambda>_. [])"
    by (simp add: wal_inv_def wal_logs_def disk_records_def last_lsn_def segment_at_def fresh_store_def)
      (simp add: fresh_segment_def WAL_PREALLOCATE_BYTES_def)
  then show ?thesis
    by (simp add: store_inv_def fresh_store_def committed_page_images_def page_aligned_def changes_ok_def
        pages_ok_def data_lags_def table_inv_def flushed_inv_def empty_data_read)
      (simp add: empty_file_def)
qed

lemma fresh_store_ready: "n \<le> 2 ^ 40 \<Longrightarrow> wal_ready n (st_wal fresh_store)"
  by (simp add: wal_ready_def fresh_store_def segment_at_def fresh_segment_def empty_file_def healthy_def
      WAL_PREALLOCATE_BYTES_def)

lemma fresh_store_durable:
  "seg_durable (spare (st_wal fresh_store))" "\<not> poisoned fresh_store" "active (st_wal fresh_store) < 2"
  by (simp_all add: seg_durable_def spare_def segment_at_def fresh_store_def fresh_segment_def empty_file_def)

end
