(* ===== verification/Store_Spec.thy ===== *)
theory Store_Spec
  imports Store_Live
begin

text \<open>
  The contract of the store as its clients see it: reads after writes and appends, the page
  allocator, and the theorems of the storage layer.
\<close>

section \<open>Page allocation\<close>

definition alloc_ok :: "page_allocator \<Rightarrow> bool" where
  "alloc_ok st \<longleftrightarrow> sorted (free_pages st) \<and> distinct (free_pages st) \<and>
    (\<forall>p\<in>set (free_pages st). p < next_page_id st)"

lemma fresh_ids:
  fixes a e :: u64
  assumes "unat e = unat a + n"
  shows "set (map word_of_nat [unat a..<unat e]) \<subseteq> {p :: u64. a \<le> p \<and> p < e}"
    "distinct (map word_of_nat [unat a..<unat e] :: u64 list)" "length (map word_of_nat [unat a..<unat e]) = n"
proof -
  have u: "unat (word_of_nat i :: u64) = i" if "i < unat e" for i
    using that unat_u64_less [of e] by (intro unat_word_of_nat_u64) simp
  then show "set (map word_of_nat [unat a..<unat e]) \<subseteq> {p :: u64. a \<le> p \<and> p < e}"
    by (auto simp: word_le_nat_alt word_less_nat_alt)
  show "distinct (map word_of_nat [unat a..<unat e] :: u64 list)"
    unfolding distinct_map using u by (auto intro!: inj_onI) (metis)
  show "length (map word_of_nat [unat a..<unat e]) = n" using assms by simp
qed

lemma reserve_ok:
  assumes inv: "alloc_ok st" and ok: "reserve count st = (Inr ids, st')"
  shows "length ids = count" "distinct ids" "alloc_ok st'" "set ids \<inter> set (free_pages st') = {}"
    "\<And>p. p \<in> set ids \<Longrightarrow> p < next_page_id st' \<and> (p \<in> set (free_pages st) \<or> next_page_id st \<le> p)"
    "next_page_id st \<le> next_page_id st'"
proof -
  let ?taken = "take count (free_pages st)"
  let ?fresh = "count - length ?taken"
  from ok obtain e where e: "checked_add_u64 (next_page_id st) (word_of_nat ?fresh) = Some e"
    and small: "?fresh < 2 ^ 64"
    and ids: "ids = ?taken @ map word_of_nat [unat (next_page_id st)..<unat e]"
    and st': "st' = st\<lparr>free_pages := drop count (free_pages st), next_page_id := e\<rparr>"
    by (auto simp: reserve_def Let_def split: if_splits option.splits)
  have ue: "unat e = unat (next_page_id st) + ?fresh"
    using checked_add_u64_Some [OF e] unat_word_of_nat_u64 [OF small] by simp
  note f = fresh_ids [OF ue]
  show le: "next_page_id st \<le> next_page_id st'" using ue by (simp add: st' word_le_nat_alt)
  have free: "\<forall>p\<in>set (free_pages st). p < next_page_id st" "distinct (free_pages st)" "sorted (free_pages st)"
    using inv by (simp_all add: alloc_ok_def)
  define new where "new = (map word_of_nat [unat (next_page_id st)..<unat e] :: u64 list)"
  have new: "next_page_id st \<le> p \<and> p < e" if "p \<in> set new" for p
    using f(1) that by (auto simp: new_def)
  then have nd: "set new \<inter> set (free_pages st) = {}" using free(1) by fastforce
  have ids': "ids = ?taken @ new" by (simp add: ids new_def)
  have sub: "set ?taken \<subseteq> set (free_pages st)" "set (drop count (free_pages st)) \<subseteq> set (free_pages st)"
    by (rule set_take_subset, rule set_drop_subset)
  show "length ids = count" using f(3) by (simp add: ids)
  show "distinct ids" using f(2) nd sub free(2) by (auto simp: ids' new_def [symmetric])
  have disj: "set ?taken \<inter> set (drop count (free_pages st)) = {}"
    using free(2) by (metis append_take_drop_id distinct_append)
  show "set ids \<inter> set (free_pages st') = {}" using nd sub disj by (auto simp: ids' st')
  show "alloc_ok st'"
    using free le sub by (auto simp: alloc_ok_def st' sorted_wrt_drop intro: less_le_trans)
  show "p < next_page_id st' \<and> (p \<in> set (free_pages st) \<or> next_page_id st \<le> p)" if "p \<in> set ids" for p
  proof (cases "p \<in> set new")
    case True
    then show ?thesis using new by (simp add: st')
  next
    case False
    then have "p \<in> set (free_pages st)" using that sub by (auto simp: ids')
    then show ?thesis using free(1) le by (auto intro: less_le_trans)
  qed
qed

lemma release_ok:
  "alloc_ok st \<Longrightarrow> alloc_ok (release pids st) \<and> next_page_id (release pids st) = next_page_id st \<and>
    set (free_pages (release pids st)) = set (free_pages st) \<union> {p \<in> set pids. p < next_page_id st}"
proof (induction pids arbitrary: st)
  case (Cons p pids)
  let ?st = "if p < next_page_id st then st\<lparr>free_pages := insort_insert p (free_pages st)\<rparr> else st"
  have "alloc_ok ?st"
    using Cons.prems by (auto simp: alloc_ok_def sorted_insort_insert distinct_insort_insert set_insort_insert)
  from Cons.IH [OF this] show ?case by (auto simp: set_insort_insert)
qed simp

lemma note_written_ok:
  assumes "alloc_ok st"
  shows "alloc_ok (note_written p st)" "p \<noteq> - 1 \<Longrightarrow> p < next_page_id (note_written p st)"
  using assms saturating_next_less [of p]
  by (auto simp: alloc_ok_def note_written_def less_max_iff_disj)

section \<open>Reads after writes\<close>

lemma replay_images:
  assumes "sorted_wrt (<) (map snd xs)" "\<forall>l\<in>snd ` set xs. pages_ok l m"
    "\<forall>x\<in>fst ` set xs. addressable (pw_page_id x) \<and> length (pw_payload x) \<le> MAX_PAGE_PAYLOAD"
  shows "replay (map (case_prod cw_image) xs) m pid =
    (case find (\<lambda>(x, l). pw_page_id x = pid) (rev xs) of
       Some (x, l) \<Rightarrow> Some \<lparr>page_id = pid, page_lsn = l, page_payload = pw_payload x\<rparr>
     | None \<Rightarrow> m pid)"
  using assms
proof (induction xs rule: rev_induct)
  case (snoc y xs)
  obtain x l where y: "y = (x, l)" by force
  let ?m = "replay (map (case_prod cw_image) xs) m"
  have "changes_ok l (map (case_prod cw_image) xs)"
    using snoc.prems by (auto simp: changes_ok_def fits_def y sorted_wrt_append)
  then have "pages_ok l ?m" using snoc.prems by (intro pages_ok_replay) (simp_all add: y)
  from effect_newer [OF this, of "cw_image x l"] have
    "write_effect (cw_image x l) (?m (pw_page_id x)) =
      Some \<lparr>page_id = pw_page_id x, page_lsn = l, page_payload = pw_payload x\<rparr>" by simp
  moreover have "?m pid = (case find (\<lambda>(x, l). pw_page_id x = pid) (rev xs) of
       Some (x, l) \<Rightarrow> Some \<lparr>page_id = pid, page_lsn = l, page_payload = pw_payload x\<rparr> | None \<Rightarrow> m pid)"
    using snoc by (simp add: sorted_wrt_append)
  ultimately show ?case by (auto simp: y replay_append replay_Cons)
qed simp

lemma write_pages_ok:
  assumes "write_pages crc writes s = (Inr lsns, s')"
  shows "\<not> poisoned s" "if writes = [] then lsns = [] \<and> s' = s else write_pages_inner crc writes True s = (Inr lsns, s')"
    "\<forall>x\<in>set writes. length (pw_payload x) \<le> MAX_PAGE_PAYLOAD"
proof -
  have v: "validate_writes xs = Inr () \<Longrightarrow> \<forall>x\<in>set xs. length (pw_payload x) \<le> MAX_PAGE_PAYLOAD" for xs
    by (induction xs) (auto simp: page_new_def page_with_lsn_def split: sum.splits if_splits)
  show "\<not> poisoned s" "if writes = [] then lsns = [] \<and> s' = s else write_pages_inner crc writes True s = (Inr lsns, s')"
    "\<forall>x\<in>set writes. length (pw_payload x) \<le> MAX_PAGE_PAYLOAD"
    using assms v [of writes]
    by (auto simp: write_pages_def write_pages_with_def poisoning_def split: if_splits sum.splits prod.splits)
qed

lemma write_pages_inner_lsns:
  assumes inv: "store_inv crc s L base ws" and addr: "\<forall>x\<in>set writes. addressable (pw_page_id x)"
    and ok: "write_pages_inner crc writes durable s = (Inr lsns, s')"
  shows "sorted_wrt (<) lsns" "\<forall>l\<in>set lsns. next_lsn (st_wal s) \<le> l"
proof -
  from ok obtain w1 where a: "append_writes crc writes (st_wal s) = (Inr lsns, w1)"
    by (fastforce simp: write_pages_inner_def elim!: try_then_okE on_wal_okE split: if_splits)
  have small: "\<forall>x\<in>set writes. length (pw_payload x) \<le> MAX_PAGE_PAYLOAD" by (rule append_writes_sizes [OF a])
  have ks: "\<forall>k\<in>set (map (\<lambda>x. PageImage (pw_page_id x) (pw_payload x)) writes). scannable k"
    using small addr addressable_not_none by auto
  have "wal_inv crc (st_wal s) L" using inv by (simp add: store_inv_def)
  from wal_append_all_inv [OF this ks a [unfolded append_writes_all [OF small]]]
  show "sorted_wrt (<) lsns" "\<forall>l\<in>set lsns. next_lsn (st_wal s) \<le> l" by auto
qed

lemma write_pages_inner_reads:
  assumes inv: "store_inv crc s L base ws" and addr: "\<forall>x\<in>set writes. addressable (pw_page_id x)"
    and i: "write_pages_inner crc writes durable s = (Inr lsns, s')" and a: "addressable pid"
  shows "read_page crc pid s' =
    (case find (\<lambda>(x, l). pw_page_id x = pid) (rev (zip writes lsns)) of
       Some (x, l) \<Rightarrow> Inr (Some \<lparr>page_id = pid, page_lsn = l, page_payload = pw_payload x\<rparr>)
     | None \<Rightarrow> read_page crc pid s)"
proof -
  obtain l where inv': "store_inv crc s' (extend_log L (active (st_wal s)) (batch_records (map2 cw_image writes lsns) l))
      base (ws @ map2 cw_image writes lsns)"
    using write_pages_inner_inv(1) [OF inv addr i] by blast
  have len: "length lsns = length writes" by (rule write_pages_inner_inv(3) [OF inv addr i])
  have small: "\<forall>x\<in>set writes. length (pw_payload x) \<le> MAX_PAGE_PAYLOAD"
    using i append_writes_sizes
    by (fastforce simp: write_pages_inner_def elim!: try_then_okE on_wal_okE)
  note ls = write_pages_inner_lsns [OF inv addr i]
  have pages: "\<forall>l\<in>snd ` set (zip writes lsns). pages_ok l (replay ws base)"
    using ls(2) inv pages_ok_replay [of "next_lsn (st_wal s)" base ws] pages_ok_mono
    by (auto simp: store_inv_def dest!: set_zip_rightD)
  have "replay (map2 cw_image writes lsns) (replay ws base) pid =
    (case find (\<lambda>(x, l). pw_page_id x = pid) (rev (zip writes lsns)) of
       Some (x, l) \<Rightarrow> Some \<lparr>page_id = pid, page_lsn = l, page_payload = pw_payload x\<rparr>
     | None \<Rightarrow> replay ws base pid)"
    using ls(1) len addr small by (intro replay_images [OF _ pages]) (auto dest: set_zip_leftD)
  then show ?thesis
    using store_inv_read [OF inv' a] store_inv_read [OF inv a]
    by (simp add: replay_append split: option.splits prod.splits)
qed

lemma write_pages_reads:
  assumes inv: "store_inv crc s L base ws" and addr: "\<forall>x\<in>set writes. addressable (pw_page_id x)"
    and ok: "write_pages crc writes s = (Inr lsns, s')" and a: "addressable pid"
  shows "read_page crc pid s' =
    (case find (\<lambda>(x, l). pw_page_id x = pid) (rev (zip writes lsns)) of
       Some (x, l) \<Rightarrow> Inr (Some \<lparr>page_id = pid, page_lsn = l, page_payload = pw_payload x\<rparr>)
     | None \<Rightarrow> read_page crc pid s)"
proof (cases "writes = []")
  case True
  then show ?thesis using write_pages_ok(2) [OF ok] by simp
next
  case False
  then have "write_pages_inner crc writes True s = (Inr lsns, s')" using write_pages_ok(2) [OF ok] by simp
  then show ?thesis by (rule write_pages_inner_reads [OF inv addr _ a])
qed

end
