(* ===== verification/Storage_Props.thy ===== *)
theory Storage_Props
  imports Store_Spec
begin

text \<open>The theorems of the storage layer, each with a concrete instance.\<close>

section \<open>Files and the log\<close>

text \<open>C15: writing a page to the data file makes exactly that page read back as written: every other
  page identifier reads as before, and the file stays an array of whole pages.\<close>

theorem data_write_then_read:
  assumes "page_aligned f" "page_wf p" "data_write crc f p = (Inr (), f')"
  shows "data_read crc f' pid = (if pid = page_id p then Inr (Some p) else data_read crc f pid) \<and>
    page_aligned f'"
  using data_pages.write_read [OF assms] data_pages.write_invar [OF assms] by simp

theorem data_write_then_read_witness:
  "\<exists>f'. data_write byte_sum empty_file \<lparr>page_id = 2, page_lsn = 9, page_payload = [5]\<rparr> = (Inr (), f') \<and>
    data_read byte_sum f' 2 = Inr (Some \<lparr>page_id = 2, page_lsn = 9, page_payload = [5]\<rparr>) \<and>
    data_read byte_sum f' 0 = Inr None"
proof -
  let ?p = "\<lparr>page_id = 2, page_lsn = 9, page_payload = [5]\<rparr> :: page"
  let ?f = "file_put empty_file (page_encode byte_sum ?p) (2 * PAGE_SIZE)"
  have w: "data_write byte_sum empty_file ?p = (Inr (), ?f)"
    by (simp add: data_write_def page_offset_def PAGE_SIZE_def healthy_ops healthy_def empty_file_def)
  have al: "page_aligned empty_file" by (simp add: page_aligned_def empty_file_def)
  have wf: "page_wf ?p" by (simp add: page_wf_def page_consts)
  from data_write_then_read [OF al wf w, of 2] data_write_then_read [OF al wf w, of 0] w show ?thesis
    by (simp add: empty_data_read addressable_def PAGE_SIZE_def)
qed



text \<open>C4: once a segment has been synced, no crash loses a record it held then: after any number of
  further appends and syncs, successful or failed at any file operation, a scan of whatever the
  crash left of the file starts with all of those records.\<close>

theorem wal_synced_records_survive_crash:
  assumes "seg_log crc seg rs" "on_file sync_data seg = (Inr (), synced)"
    "seg_step\<^sup>*\<^sup>* synced seg'" "crash_image (seg_file seg') g"
  shows "\<exists>extra. fst (scan_loop crc g 0 0) = rs @ extra"
  using sync_makes_durable [OF assms(1,2)] synced_records_survive [OF _ _ assms(3,4)] by blast

lemma fresh_seg_log: "seg_log crc fresh_segment []"
proof -
  have "wal_inv crc (st_wal fresh_store) (\<lambda>_. [])" using fresh_store_inv by (simp add: store_inv_def)
  then have "seg_log crc (segment_at (st_wal fresh_store) 0) []" by (simp add: wal_inv_def wal_logs_def)
  then show ?thesis by (simp add: segment_at_def fresh_store_def)
qed

theorem wal_synced_records_survive_crash_witness:
  "\<exists>seg synced rs. seg_log byte_sum seg rs \<and> rs \<noteq> [] \<and> on_file sync_data seg = (Inr (), synced) \<and>
    (\<exists>extra. fst (scan_loop byte_sum (seg_file synced) 0 0) = rs @ extra)"
proof -
  have h: "healthy (seg_file fresh_segment)" by (simp add: fresh_segment_def healthy_def empty_file_def)
  obtain seg where a: "append_record fresh_segment (record_header byte_sum 1 3 NO_PAGE_ID []) [] = (Inr (), seg)"
    "healthy (seg_file seg)"
    using append_record_total [OF h, of "[]" "record_header byte_sum 1 3 NO_PAGE_ID []"]
    by (auto simp: fresh_segment_def WAL_HEADER_SIZE_def WAL_PREALLOCATE_BYTES_def)
  have log: "seg_log byte_sum seg ([] @ [\<lparr>rec_lsn = 1, rec_kind = Checkpoint\<rparr>])"
    by (rule append_record_log [OF fresh_seg_log _ _ _ a(1)]) simp_all
  obtain f where f: "sync_data (seg_file seg) = (Inr (), f)" using healthy_sync [OF a(2)] by blast
  then have s: "on_file sync_data seg = (Inr (), seg\<lparr>seg_file := f\<rparr>)" by (simp add: on_file_def)
  have c: "crash_image (seg_file (seg\<lparr>seg_file := f\<rparr>)) (seg_file (seg\<lparr>seg_file := f\<rparr>))"
    using sync_data_okD [OF f] by (simp add: crash_image_def)
  from wal_synced_records_survive_crash [OF log s _ c] log s show ?thesis by (auto intro!: exI)
qed

text \<open>C16: an append whose framed payload exceeds the page capacity is written and acknowledged, but
  the scan refuses it: after the append the log still reads as before it, so the record (and
  whatever is appended behind it) is lost at the next start. Appends of 8125 to 8128 bytes are
  accepted by \<open>append_page_tail\<close> and have such a framed payload.\<close>

theorem wal_oversized_append_lost:
  assumes "wal_logs crc w L" "MAX_PAGE_PAYLOAD < length payload + 4" "length payload \<le> MAX_PAGE_PAYLOAD"
    "append_page_tail crc pid offset payload w = (Inr lsn, w')"
  shows "wal_records w' = wal_records w @ [\<lparr>rec_lsn = lsn, rec_kind = PageAppend pid offset payload\<rparr>]
    \<and> fst (scan_loop crc (seg_file (segment_at w' (active w))) 0 0) = L (active w)"
proof -
  have ok: "wal_append crc (PageAppend pid offset payload) w = (Inr lsn, w')"
    using assms(3,4) by (simp add: append_page_tail_def)
  from ok obtain nxt ty pid' payload' seg where
    k: "kind_fields (PageAppend pid offset payload) = (ty, pid', payload')"
    and ar: "append_record (segment_at w (active w)) (record_header crc lsn ty pid' payload') payload' = (Inr (), seg)"
    and w': "w' = (set_segment (active w) seg (w\<lparr>next_lsn := nxt\<rparr>))
       \<lparr>wal_records := wal_records w @ [\<lparr>rec_lsn = lsn, rec_kind = PageAppend pid offset payload\<rparr>]\<rparr>"
    by (rule wal_append_okE)
  have act: "active w < 2" "seg_log crc (segment_at w (active w)) (L (active w))"
    using assms(1) by (simp_all add: wal_logs_def)
  have "MAX_PAGE_PAYLOAD < length payload'" "40 + length payload' < 2 ^ 32"
    using k assms(2,3) by (auto simp: page_consts)
  from append_record_oversized_lost [OF act(2) k this ar] show ?thesis using w' act(1) by simp
qed

theorem wal_oversized_append_lost_witness:
  "\<exists>w' lsn. append_page_tail byte_sum 4 0 (replicate 8126 7) (st_wal fresh_store) = (Inr lsn, w') \<and>
    wal_records w' \<noteq> [] \<and> fst (scan_loop byte_sum (seg_file (segment_at w' 0)) 0 0) = []"
proof -
  let ?w = "st_wal fresh_store" and ?p = "replicate 8126 7 :: bytes"
  have logs: "wal_logs byte_sum ?w (\<lambda>_. [])" using fresh_store_inv by (simp add: store_inv_def wal_inv_def)
  have h: "healthy (seg_file fresh_segment)" by (simp add: fresh_segment_def healthy_def empty_file_def)
  obtain seg where seg: "append_record fresh_segment (record_header byte_sum 1 4 4 (le_u32 0 @ ?p)) (le_u32 0 @ ?p) = (Inr (), seg)"
    using append_record_total [OF h, of "le_u32 0 @ ?p" "record_header byte_sum 1 4 4 (le_u32 0 @ ?p)"]
    by (auto simp: fresh_segment_def WAL_HEADER_SIZE_def WAL_PREALLOCATE_BYTES_def)
  have "\<exists>w'. append_page_tail byte_sum 4 0 ?p ?w = (Inr 1, w')"
    using seg by (simp add: append_page_tail_def page_consts wal_append_def Let_def fresh_store_def segment_at_def
        checked_add_u64_def checked_add_usize_def usize_max_def WAL_HEADER_SIZE_def on_segment_def)
  then obtain w' where w: "append_page_tail byte_sum 4 0 ?p ?w = (Inr 1, w')" by blast
  from wal_oversized_append_lost [OF logs _ _ w] w show ?thesis
    by (auto simp: page_consts fresh_store_def)
qed

text \<open>C8: opening the log works on two arbitrary files. If it succeeds and the LSN space is not used
  up, the records it offers to recovery are exactly the log that its two segments hold from then
  on, oldest first with strictly rising LSNs, the next LSN is above all of them, and a segment
  that carried an unusable log has been sealed.\<close>

theorem wal_open_recovers_log:
  assumes "wal_open crc primary secondary = Inr w"
    "wal_records w \<noteq> [] \<Longrightarrow> rec_lsn (last (wal_records w)) \<noteq> - 1"
  shows "wal_records w = fst (choose_records (fst (scan_loop crc primary 0 0)) (fst (scan_loop crc secondary 0 0))) \<and>
    (\<exists>L. wal_inv crc w L \<and> L (1 - active w) @ L (active w) = wal_records w \<and>
      (\<forall>i<2. fst (scan_loop crc (seg_file (segment_at w i)) 0 0) = L i) \<and>
      lsns_rise 0 (wal_records w) \<and> last_lsn 0 (wal_records w) < next_lsn w)"
proof -
  note o = wal_open_inv [OF assms]
  obtain L where L: "wal_inv crc w L" "disk_records w L = wal_records w" using o(1) by blast
  have "\<forall>i<2. fst (scan_loop crc (seg_file (segment_at w i)) 0 0) = L i"
    using L(1) seg_logD(1) by (fastforce simp: wal_inv_def wal_logs_def)
  moreover have "lsns_rise 0 (wal_records w)" using L by (simp add: wal_inv_def)
  ultimately have "wal_inv crc w L \<and> L (1 - active w) @ L (active w) = wal_records w \<and>
      (\<forall>i<2. fst (scan_loop crc (seg_file (segment_at w i)) 0 0) = L i) \<and>
      lsns_rise 0 (wal_records w) \<and> last_lsn 0 (wal_records w) < next_lsn w"
    using L last_lsn_disk [OF L(1)] by (simp add: disk_records_def)
  then show ?thesis using o(2) by blast
qed

theorem wal_open_recovers_log_witness:
  "\<exists>w. wal_open byte_sum empty_file empty_file = Inr w \<and> wal_records w = [] \<and> 0 < next_lsn w"
proof -
  have w: "wal_open byte_sum empty_file empty_file = Inr (st_wal fresh_store)"
    by (simp add: wal_open_def segment_open_empty choose_records_def fresh_store_def)
  have r: "wal_records (st_wal fresh_store) = []" by (simp add: fresh_store_def)
  from wal_open_recovers_log [OF w] r w show ?thesis by auto
qed

section \<open>Recovery\<close>

fun log_of_batches :: "(committed_write list \<times> committed_write list \<times> u64) list \<Rightarrow> wal_record list" where
  "log_of_batches [] = []"
| "log_of_batches ((orphans, xs, lsn) # bs) = map rec_of orphans @ batch_records xs lsn @ log_of_batches bs"

lemma collect_batches:
  assumes "\<forall>(orphans, xs, lsn)\<in>set bs. length xs < 2 ^ 32"
  shows "collect_committed (log_of_batches bs @ map rec_of unfinished) [] committed =
    Inr (committed @ concat (map (\<lambda>(orphans, xs, lsn). xs) bs))"
  using assms
proof (induction bs arbitrary: committed)
  case Nil
  then show ?case using collect_pages [of unfinished "[]" "[]" committed] by simp
next
  case (Cons b bs)
  obtain orphans xs lsn where b: "b = (orphans, xs, lsn)" by (metis prod_cases3)
  have "length xs < 2 ^ 32" using Cons.prems by (simp add: b)
  note c = collect_batch [OF this, of lsn "log_of_batches bs @ map rec_of unfinished" orphans committed]
  show ?case using Cons c by (simp add: b collect_pages)
qed

text \<open>C3: recovery takes exactly the completed batches of a log, in order. A log that consists,
  after its last checkpoint, of batches each closed by its commit record, possibly preceded by
  page records that an earlier crash left without a commit, and followed by an unfinished batch,
  yields the changes of the completed batches and nothing else: every batch is kept or dropped as
  a unit.\<close>

theorem committed_batches_are_atomic:
  assumes "is_checkpoint r" "\<forall>(orphans, xs, lsn)\<in>set bs. length xs < 2 ^ 32"
  shows "committed_page_images (before @ [r] @ log_of_batches bs @ map rec_of unfinished) =
    Inr (concat (map (\<lambda>(orphans, xs, lsn). xs) bs))"
proof -
  have "\<not> is_checkpoint \<lparr>rec_lsn = l, rec_kind = BatchCommit n\<rparr>" for l n by (simp add: is_checkpoint_def)
  then have "\<forall>x\<in>set (log_of_batches bs @ map rec_of unfinished). \<not> is_checkpoint x"
    by (induction bs rule: log_of_batches.induct) (auto simp: batch_records_def)
  from since_checkpoint_append [OF this, of "before @ [r]"] collect_batches [OF assms(2), of unfinished "[]"]
  show ?thesis using assms(1) by (simp add: committed_since) (simp add: since_checkpoint_def rposition_append)
qed

theorem committed_batches_are_atomic_witness:
  "committed_page_images
    [\<lparr>rec_lsn = 1, rec_kind = Checkpoint\<rparr>, \<lparr>rec_lsn = 2, rec_kind = PageImage 5 [1]\<rparr>,
     \<lparr>rec_lsn = 3, rec_kind = PageAppend 6 2 [9]\<rparr>, \<lparr>rec_lsn = 4, rec_kind = BatchCommit 1\<rparr>,
     \<lparr>rec_lsn = 5, rec_kind = PageImage 7 [2]\<rparr>] =
    Inr [\<lparr>cw_lsn = 3, cw_page_id = 6, cw_payload = [9], cw_append_at = Some 2\<rparr>]"
  using committed_batches_are_atomic [of "\<lparr>rec_lsn = 1, rec_kind = Checkpoint\<rparr>"
    "[([\<lparr>cw_lsn = 2, cw_page_id = 5, cw_payload = [1], cw_append_at = None\<rparr>],
       [\<lparr>cw_lsn = 3, cw_page_id = 6, cw_payload = [9], cw_append_at = Some 2\<rparr>], 4)]" "[]"
    "[\<lparr>cw_lsn = 5, cw_page_id = 7, cw_payload = [2], cw_append_at = None\<rparr>]"]
  by (simp add: is_checkpoint_def batch_records_def rec_of_def)

text \<open>C2: recovery implements the replay of the committed changes, and it may be cut short and
  repeated any number of times: whatever prefix of the changes each page already holds, after
  \<open>recover_writes\<close> every page reads as the replay of all changes on its content at the checkpoint,
  and the run that \<open>recover_writes\<close> performs on a working disk does not fail.\<close>

theorem recovery_is_idempotent_replay:
  assumes "page_aligned f" "healthy f" "\<forall>x\<in>set ws. fits x"
    "\<forall>pid. addressable pid \<longrightarrow> (\<exists>k. data_read crc f pid = Inr (replay (take k ws) base pid))"
  shows "\<exists>wrote f'. recover_writes crc ws False f = (Inr wrote, f') \<and>
    (\<forall>pid. addressable pid \<longrightarrow> data_read crc f' pid = Inr (replay ws base pid))"
proof -
  obtain wrote f' where r: "recover_writes crc ws False f = (Inr wrote, f')"
    using recover_writes_total [OF assms(2,3)] by blast
  have "crash_page_ok crc f base ws pid" if "addressable pid" for pid
    using assms(4) that by (simp add: crash_page_ok_def)
  from recovered_reads [OF assms(1) r this] r show ?thesis by blast
qed

theorem recovery_is_idempotent_replay_witness:
  "\<exists>wrote f'. recover_writes byte_sum
      [\<lparr>cw_lsn = 1, cw_page_id = 3, cw_payload = [7, 8], cw_append_at = None\<rparr>,
       \<lparr>cw_lsn = 2, cw_page_id = 3, cw_payload = [9], cw_append_at = Some 4\<rparr>] False empty_file = (Inr wrote, f') \<and>
    data_read byte_sum f' 3 = Inr (Some \<lparr>page_id = 3, page_lsn = 2, page_payload = [7, 8, 0, 0, 9]\<rparr>)"
proof -
  let ?ws = "[\<lparr>cw_lsn = 1, cw_page_id = 3, cw_payload = [7, 8], cw_append_at = None\<rparr>,
       \<lparr>cw_lsn = 2, cw_page_id = 3, cw_payload = [9], cw_append_at = Some 4\<rparr>] :: committed_write list"
  have "\<forall>pid. addressable pid \<longrightarrow>
      (\<exists>k. data_read byte_sum empty_file pid = Inr (replay (take k ?ws) (\<lambda>_. None) pid))"
    by (auto simp: empty_data_read intro: exI [of _ 0])
  moreover have "page_aligned empty_file" "healthy empty_file"
    by (simp_all add: page_aligned_def empty_file_def healthy_def)
  moreover have "\<forall>x\<in>set ?ws. fits x" by (simp add: fits_def addressable_def page_consts)
  ultimately obtain wrote f' where r: "recover_writes byte_sum ?ws False empty_file = (Inr wrote, f')"
    "\<forall>pid. addressable pid \<longrightarrow> data_read byte_sum f' pid = Inr (replay ?ws (\<lambda>_. None) pid)"
    using recovery_is_idempotent_replay by blast
  have "replay ?ws (\<lambda>_. None) 3 = Some \<lparr>page_id = 3, page_lsn = 2, page_payload = [7, 8, 0, 0, 9]\<rparr>"
    by code_simp
  with r show ?thesis by (auto simp: addressable_def page_consts)
qed

text \<open>C17: a torn page is replayed as if it had been empty. When the page on disk fails its checksum
  and the first change logged for it is an append, recovery accepts it and the page then holds
  only zero bytes and the appended ones: what the page held before the checkpoint is gone.\<close>

theorem torn_page_append_loses_content:
  assumes "page_aligned f" "data_read crc f (cw_page_id x) = Inl (CorruptPage pid reason)"
    "cw_append_at x = Some offset" "recover_write crc x f = (Inr wrote, f')"
  shows "data_read crc f' (cw_page_id x) = Inr (Some \<lparr>page_id = cw_page_id x, page_lsn = cw_lsn x,
    page_payload = replicate (unat offset) 0 @ cw_payload x\<rparr>)"
  using recover_write_spec(2) [OF assms(1,4)] assms(2,3)
  by (simp add: data_view_def write_effect_def newer_or_equal_def splice_def patch_def Let_def)


theorem torn_page_append_loses_content_witness:
  "\<exists>wrote f'. recover_write byte_sum \<lparr>cw_lsn = 4, cw_page_id = 0, cw_payload = [9], cw_append_at = Some 2\<rparr>
      (empty_file\<lparr>fdata := (\<lambda>_. 1), flen := PAGE_SIZE\<rparr>) = (Inr wrote, f') \<and>
    data_read byte_sum f' 0 = Inr (Some \<lparr>page_id = 0, page_lsn = 4, page_payload = [0, 0, 9]\<rparr>)"
proof -
  let ?f = "empty_file\<lparr>fdata := (\<lambda>_. 1), flen := PAGE_SIZE\<rparr>"
  let ?x = "\<lparr>cw_lsn = 4, cw_page_id = 0, cw_payload = [9], cw_append_at = Some 2\<rparr> :: committed_write"
  have h: "healthy ?f" "page_aligned ?f" by (simp_all add: healthy_def empty_file_def page_aligned_def)
  have "hd (file_read ?f 0 4) = 1" by (simp add: file_read_def hd_map)
  then have "file_read ?f 0 4 \<noteq> PAGE_MAGIC" by (auto simp: PAGE_MAGIC_def)
  moreover have "slice (file_read ?f 0 PAGE_SIZE) 0 4 = file_read ?f 0 4"
    by (simp add: slice_file_read PAGE_SIZE_def)
  ultimately have "\<exists>pid r. page_decode byte_sum (file_read ?f 0 PAGE_SIZE) = Inl (CorruptPage pid r)"
    by (simp add: page_decode_def Let_def MAGIC_OFFSET_def)
  moreover have "\<not> list_all (\<lambda>b. b = 0) (file_read ?f 0 PAGE_SIZE)"
    by (auto simp: list_all_iff file_read_def PAGE_SIZE_def intro: exI [of _ 0])
  ultimately obtain pid r where c: "data_read byte_sum ?f (cw_page_id ?x) = Inl (CorruptPage pid r)"
    by (auto simp: data_read_def read_shared_def page_offset_def)
  obtain w f' where w: "recover_write byte_sum ?x ?f = (Inr w, f')"
    using recover_write_total [OF h(1), of ?x byte_sum] by (auto simp: fits_def addressable_def page_consts)
  have "replicate (unat (2 :: u32)) (0 :: u8) @ [9] = [0, 0, 9]" by code_simp
  with torn_page_append_loses_content [OF h(2) c _ w] w show ?thesis by auto
qed

section \<open>The store\<close>

text \<open>C5: a batch of page writes that returns is visible as a whole: each page reads as the last
  write of the batch to it, with the LSN that was returned for that write, every other page
  reads as before, and the invariant of the store holds again.\<close>

theorem store_write_then_read:
  assumes "store_inv crc s L base ws" "\<forall>x\<in>set writes. addressable (pw_page_id x)"
    "write_pages crc writes s = (Inr lsns, s')"
  shows "(\<exists>L' ws'. store_inv crc s' L' base ws') \<and> length lsns = length writes \<and>
    (\<forall>pid. addressable pid \<longrightarrow> read_page crc pid s' =
      (case find (\<lambda>(x, l). pw_page_id x = pid) (rev (zip writes lsns)) of
         Some (x, l) \<Rightarrow> Inr (Some \<lparr>page_id = pid, page_lsn = l, page_payload = pw_payload x\<rparr>)
       | None \<Rightarrow> read_page crc pid s))"
proof -
  have "(\<exists>L' ws'. store_inv crc s' L' base ws') \<and> length lsns = length writes"
  proof (cases "writes = []")
    case True
    then show ?thesis using write_pages_ok(2) [OF assms(3)] assms(1) by auto
  next
    case False
    then have i: "write_pages_inner crc writes True s = (Inr lsns, s')" using write_pages_ok(2) [OF assms(3)] by simp
    from write_pages_inner_inv(1,3) [OF assms(1,2) i] show ?thesis by blast
  qed
  with write_pages_reads [OF assms] show ?thesis by blast
qed

theorem store_write_then_read_witness:
  "\<exists>lsns s'. write_pages byte_sum [\<lparr>pw_page_id = 3, pw_payload = [1]\<rparr>, \<lparr>pw_page_id = 3, pw_payload = [2]\<rparr>] fresh_store
      = (Inr lsns, s') \<and>
    read_page byte_sum 3 s' = Inr (Some \<lparr>page_id = 3, page_lsn = lsns ! 1, page_payload = [2]\<rparr>) \<and>
    read_page byte_sum 4 s' = Inr None"
proof -
  let ?ws = "[\<lparr>pw_page_id = 3, pw_payload = [1]\<rparr>, \<lparr>pw_page_id = 3, pw_payload = [2]\<rparr>] :: page_write list"
  obtain lsns s' where w: "write_pages byte_sum ?ws fresh_store = (Inr lsns, s')"
    using write_pages_total [of ?ws fresh_store byte_sum] fresh_store_ready [of "Suc (length ?ws)"]
      fresh_store_durable(2) by (fastforce simp: NO_PAGE_ID_def page_consts)
  have "\<forall>x\<in>set ?ws. addressable (pw_page_id x)" "addressable 3" "addressable 4"
    by (simp_all add: addressable_def page_consts)
  note t = store_write_then_read [OF fresh_store_inv this(1) w] and ad = this(2,3)
  from t obtain a b where "lsns = [a, b]" by (auto simp: length_Suc_conv numeral_2_eq_2)
  with t ad w show ?thesis
    by (auto simp: read_page_def dirty_get_def fresh_store_def empty_data_read)
qed

text \<open>C6: appends inside pages refine the replay of the corresponding log records. When a batch of
  appends returns, every page reads as its old content with the appended bytes put at their
  offsets in order; the batch fails before anything is logged if a page would outgrow its limit.\<close>

theorem store_append_then_read:
  assumes "store_inv crc s L base ws" "\<forall>x\<in>set appends. addressable (pa_page_id x)"
    "\<forall>x\<in>set appends. length (pa_payload x) + 4 \<le> MAX_PAGE_PAYLOAD"
    "append_pages crc appends s = (Inr lsns, s')"
  shows "(\<exists>L' ws'. store_inv crc s' L' base ws') \<and> length lsns = length appends \<and>
    (\<forall>pid old. addressable pid \<longrightarrow> read_page crc pid s = Inr old \<longrightarrow>
      read_page crc pid s' = Inr (replay (map2 cw_tail appends lsns) (\<lambda>_. old) pid))"
proof (cases "appends = []")
  case True
  then show ?thesis using assms(1,4) by (auto simp: append_pages_def)
next
  case False
  then have i: "append_pages_inner crc appends True s = (Inr lsns, s')"
    using assms(4) by (auto simp: append_pages_def poisoning_def split: if_splits sum.splits prod.splits)
  obtain l where inv': "store_inv crc s' (extend_log L (active (st_wal s)) (batch_records (map2 cw_tail appends lsns) l))
      base (ws @ map2 cw_tail appends lsns)"
    using append_pages_inner_inv(1) [OF assms(1-3) i] by blast
  moreover have "length lsns = length appends" by (rule append_pages_inner_inv(3) [OF assms(1-3) i])
  moreover have "read_page crc pid s' = Inr (replay (map2 cw_tail appends lsns) (\<lambda>_. old) pid)"
    if "addressable pid" "read_page crc pid s = Inr old" for pid old
    using store_inv_read [OF inv' that(1)] store_inv_read [OF assms(1) that(1)] that(2)
    by (simp add: replay_append) (simp add: replay_def)
  ultimately show ?thesis by blast
qed

theorem store_append_then_read_witness:
  "\<exists>lsns s'. append_pages byte_sum [\<lparr>pa_page_id = 3, pa_offset = 2, pa_payload = [8, 9], pa_sealed = True\<rparr>] fresh_store
      = (Inr lsns, s') \<and>
    read_page byte_sum 3 s' = Inr (Some \<lparr>page_id = 3, page_lsn = lsns ! 0, page_payload = [0, 0, 8, 9]\<rparr>)"
proof -
  let ?x = "\<lparr>pa_page_id = 3, pa_offset = 2, pa_payload = [8, 9], pa_sealed = True\<rparr> :: page_append"
  have sp: "splice [] (unat (2 :: u32)) [8, 9] = [0, 0, 8, 9]" by code_simp
  have ad: "addressable 3" by (simp add: addressable_def page_consts)
  then have old: "read_page byte_sum 3 fresh_store = Inr None"
    by (simp add: read_page_def dirty_get_def fresh_store_def empty_data_read)
  then have "append_base byte_sum 3 fresh_store = Inr []"
    by (simp add: read_page_def append_base_def dirty_get_def fresh_store_def)
  then have g: "grow_pages byte_sum fresh_store [?x] [] = Inr [(3, [0, 0, 8, 9])]"
    using sp by (simp add: checked_add_usize_def usize_max_def page_consts)
  obtain lsns s' where w: "append_pages byte_sum [?x] fresh_store = (Inr lsns, s')"
    using append_pages_total [OF _ _ _ _ g] fresh_store_ready [of "Suc (length [?x])"]
      fresh_store_durable(2) by (fastforce simp: NO_PAGE_ID_def page_consts)
  have t: "length lsns = 1" "read_page byte_sum 3 s' = Inr (replay (map2 cw_tail [?x] lsns) (\<lambda>_. None) 3)"
    using store_append_then_read [OF fresh_store_inv _ _ w] ad old by (simp_all add: page_consts)
  then obtain l where "lsns = [l]" by (auto simp: length_Suc_conv)
  with t w sp show ?thesis by (auto simp: replay_def write_effect_def newer_or_equal_def)
qed

text \<open>C7: a checkpoint changes nothing that readers see and leaves the dirty table, the flush queue
  and the log empty, with every page in the synced data file.\<close>

theorem checkpoint_keeps_contents:
  assumes "store_inv crc s L base ws" "checkpoint crc s = (Inr lsn, s')"
  shows "store_inv crc s' (\<lambda>_. []) (replay ws base) [] \<and> dirty s' = [] \<and> flush_queue s' = [] \<and>
    wal_records (st_wal s') = [] \<and> unsynced (st_data s') = {} \<and>
    (\<forall>pid. addressable pid \<longrightarrow>
      read_page crc pid s' = read_page crc pid s \<and> data_read crc (st_data s') pid = read_page crc pid s)"
proof -
  have c: "\<not> checkpoint_in_flight s" "checkpoint_inner crc s = (Inr lsn, s')"
    using assms(2) by (auto simp: checkpoint_def poisoning_def split: if_splits sum.splits prod.splits)
  note i = checkpoint_inner_inv [OF assms(1) c]
  have "read_page crc pid s' = read_page crc pid s \<and> data_read crc (st_data s') pid = read_page crc pid s"
    if "addressable pid" for pid
    using store_inv_read [OF i(1) that] store_inv_read [OF assms(1) that] i(2)
    by (simp add: read_page_def dirty_get_def)
  with i show ?thesis by simp
qed

lemma checkpoint_fresh: "\<exists>lsn s'. checkpoint crc fresh_store = (Inr lsn, s')"
proof -
  let ?w = "st_wal fresh_store"
  obtain w1 where w1: "wal_append crc Checkpoint ?w = (Inr (next_lsn ?w), w1)" "wal_ready 0 w1"
    using wal_append_total [OF fresh_store_ready [of "Suc 0"], of Checkpoint crc] by auto
  obtain w2 where w2: "wal_sync w1 = (Inr (), w2)" "wal_ready 0 w2" using wal_sync_total [OF w1(2)] by blast
  have act: "active ?w = 0" by (simp add: fresh_store_def)
  note s1 = wal_append_spare [OF w1(1)] and s2 = wal_sync_spare [OF w2(1)]
  have a2: "active w2 = 0" "spare w2 = spare ?w" using s1 s2 act by simp_all
  have e1: "end_offset (segment_at w2 1) = 0"
    using a2 by (simp add: spare_def act) (simp add: fresh_store_def fresh_segment_def segment_at_def)
  have "healthy (seg_file (segment_at w2 0))" using w2(2) a2(1) by (simp add: wal_ready_def)
  then obtain seg where seg: "seal_and_sync (segment_at w2 0) = (Inr (), seg)" using seal_and_sync_total by blast
  have "\<exists>w3. reset_after_checkpoint w2 = (Inr (), w3)"
    using e1 seg by (simp add: reset_after_checkpoint_def reset_segment_def on_segment_def)
  then obtain w3 where w3: "reset_after_checkpoint w2 = (Inr (), w3)" by blast
  have fa: "flush_all crc fresh_store = (Inr (), fresh_store)"
    by (subst flush_all.simps) (simp add: flush_some_dirty_def fresh_store_def)
  have "fresh_store\<lparr>flush_queue := flush_queue fresh_store @ open_pages fresh_store, open_pages := []\<rparr> = fresh_store"
    by (simp add: fresh_store_def)
  moreover have "data_sync (st_data fresh_store) = (Inr (), empty_file)"
    by (simp add: data_sync_def fresh_store_def healthy_ops healthy_def empty_file_def)
  ultimately have "\<exists>lsn s'. checkpoint_inner crc fresh_store = (Inr lsn, s')"
    using fa w1(1) w2(1) w3 by (simp add: checkpoint_inner_def Let_def on_data_def on_wal_def append_checkpoint_def)
  then show ?thesis by (auto simp: checkpoint_def poisoning_def fresh_store_def)
qed

theorem checkpoint_keeps_contents_witness:
  "\<exists>lsn s'. checkpoint byte_sum fresh_store = (Inr lsn, s') \<and> dirty s' = [] \<and>
    read_page byte_sum 1 s' = read_page byte_sum 1 fresh_store"
proof -
  obtain lsn s' where c: "checkpoint byte_sum fresh_store = (Inr lsn, s')" using checkpoint_fresh by blast
  from checkpoint_keeps_contents [OF fresh_store_inv c] c show ?thesis
    by (auto simp: addressable_def page_consts)
qed



text \<open>C11: progress. On a working disk a batch of page writes to a store that is not poisoned
  succeeds, as long as the log has room for its records below the limits of offsets and LSNs.\<close>

theorem write_pages_succeeds:
  assumes "wal_ready (Suc (length writes)) (st_wal s)" "\<not> poisoned s" "length writes < 2 ^ 32"
    "\<forall>x\<in>set writes. length (pw_payload x) \<le> MAX_PAGE_PAYLOAD \<and> pw_page_id x \<noteq> NO_PAGE_ID"
  shows "\<exists>lsns s'. write_pages crc writes s = (Inr lsns, s')"
  using write_pages_total [OF assms(1,2,4,3)] .

theorem write_pages_succeeds_witness:
  "\<exists>lsns s'. write_pages byte_sum [\<lparr>pw_page_id = 3, pw_payload = [1, 2]\<rparr>] fresh_store = (Inr lsns, s')"
  using write_pages_succeeds [of "[\<lparr>pw_page_id = 3, pw_payload = [1, 2]\<rparr>]" fresh_store byte_sum]
    fresh_store_ready [of "Suc (length [\<lparr>pw_page_id = 3, pw_payload = [1, 2]\<rparr> :: page_write])"] fresh_store_durable(2)
  by (simp add: NO_PAGE_ID_def page_consts)



text \<open>C10: the allocator never hands out a page twice. A reservation returns as many distinct page
  identifiers as were asked for; each was free or above every identifier handed out so far, and
  none of them is free afterwards, so a later reservation cannot return it until it is released.\<close>

theorem reserve_distinct_fresh:
  assumes "alloc_ok st" "reserve count st = (Inr ids, st')" "reserve count' st' = (Inr ids', st'')"
  shows "length ids = count \<and> distinct (ids @ ids') \<and> alloc_ok st'' \<and>
    (\<forall>p\<in>set ids. p \<in> set (free_pages st) \<or> next_page_id st \<le> p)"
proof -
  note a = reserve_ok [OF assms(1,2)]
  note b = reserve_ok [OF a(3) assms(3)]
  have "p \<notin> set ids" if "p \<in> set ids'" for p
    using b(5) [OF that] a(4) a(5) [of p] by (auto simp: not_le [symmetric])
  then have "set ids \<inter> set ids' = {}" by blast
  then show ?thesis using a(1,2,5) b(2,3) by simp
qed

theorem reserve_distinct_fresh_witness:
  "reserve 2 \<lparr>next_page_id = 5, free_pages = [1]\<rparr> = (Inr [1, 5], \<lparr>next_page_id = 6, free_pages = []\<rparr>) \<and>
   reserve 1 \<lparr>next_page_id = 6, free_pages = []\<rparr> = (Inr [6], \<lparr>next_page_id = 7, free_pages = []\<rparr>) \<and>
   distinct ([1, 5] @ [6] :: u64 list)"
proof -
  have a: "reserve 2 \<lparr>next_page_id = 5, free_pages = [1]\<rparr> = (Inr [1, 5], \<lparr>next_page_id = 6, free_pages = []\<rparr>)"
    by (simp add: reserve_def checked_add_u64_def upt_rec)
  have b: "reserve 1 \<lparr>next_page_id = 6, free_pages = []\<rparr> = (Inr [6], \<lparr>next_page_id = 7, free_pages = []\<rparr>)"
    by (simp add: reserve_def checked_add_u64_def upt_rec)
  from reserve_distinct_fresh [OF _ a b] a b show ?thesis by (simp add: alloc_ok_def)
qed

end
