(* ===== verification/Buffer_Pool.thy ===== *)
theory Buffer_Pool
  imports Store_Spec
begin

text \<open>
  Model of \<open>storage/src/buffer_pool.rs\<close>: a bounded write-through page cache in front of the durable
  store. The frames are a \<open>HashMap\<close>, here an association list; the iteration order in which the
  code looks for the least recently used frame is the order of that list, and a frame with the
  smallest access time is taken, the first one on a tie. The pool is shown to give the same
  answers as the bare store.
\<close>

record pool_stats =
  ps_hits :: u64
  ps_misses :: u64
  ps_evictions :: u64

record frame =
  frame_page :: page
  last_access :: u64

record pool =
  bp_store :: store
  bp_capacity :: nat
  bp_clock :: u64
  frames :: "(u64 \<times> frame) list"
  bp_stats :: pool_stats

definition pool_new :: "store \<Rightarrow> nat \<Rightarrow> storage_error + pool" where
  "pool_new s capacity =
    (if capacity = 0 then
       Inl (Configuration (Reason ''buffer pool capacity must be greater than zero'' []))
     else Inr \<lparr>bp_store = s, bp_capacity = capacity, bp_clock = 0, frames = [],
       bp_stats = \<lparr>ps_hits = 0, ps_misses = 0, ps_evictions = 0\<rparr>\<rparr>)"

text \<open>\<open>min_by_key\<close> over the frames.\<close>

fun least_recent :: "(u64 \<times> frame) list \<Rightarrow> (u64 \<times> frame) option" where
  "least_recent [] = None"
| "least_recent (x # xs) =
    (case least_recent xs of
       None \<Rightarrow> Some x
     | Some y \<Rightarrow> if last_access (snd x) \<le> last_access (snd y) then Some x else Some y)"

definition make_room :: "u64 \<Rightarrow> pool \<Rightarrow> (storage_error + unit) \<times> pool" where
  "make_room incoming b =
    (if map_of (frames b) incoming \<noteq> None \<or> length (frames b) < bp_capacity b then (Inr (), b)
     else case least_recent (frames b) of
       None \<Rightarrow> (Inl (BufferPoolExhausted (bp_capacity b)), b)
     | Some (victim, _) \<Rightarrow>
         (Inr (), b\<lparr>frames := AList.delete victim (frames b),
           bp_stats := (bp_stats b)\<lparr>ps_evictions := saturating_add_u64 (ps_evictions (bp_stats b)) 1\<rparr>\<rparr>))"

definition put_frame :: "u64 \<Rightarrow> page \<Rightarrow> pool \<Rightarrow> pool" where
  "put_frame pid p b =
    b\<lparr>frames := AList.update pid \<lparr>frame_page = p, last_access = bp_clock b\<rparr> (frames b)\<rparr>"

definition pool_get :: "(bytes \<Rightarrow> u32) \<Rightarrow> u64 \<Rightarrow> pool \<Rightarrow> (storage_error + page option) \<times> pool" where
  "pool_get crc pid b =
    (let b = b\<lparr>bp_clock := saturating_add_u64 (bp_clock b) 1\<rparr> in
     case map_of (frames b) pid of
       Some fr \<Rightarrow>
         (Inr (Some (frame_page fr)),
          b\<lparr>bp_stats := (bp_stats b)\<lparr>ps_hits := saturating_add_u64 (ps_hits (bp_stats b)) 1\<rparr>,
            frames := AList.update pid (fr\<lparr>last_access := bp_clock b\<rparr>) (frames b)\<rparr>)
     | None \<Rightarrow>
         let b = b\<lparr>bp_stats := (bp_stats b)\<lparr>ps_misses := saturating_add_u64 (ps_misses (bp_stats b)) 1\<rparr>\<rparr> in
         (case read_page crc pid (bp_store b) of
            Inl e \<Rightarrow> (Inl e, b)
          | Inr None \<Rightarrow> (Inr None, b)
          | Inr (Some p) \<Rightarrow>
              try_then (make_room pid b) (\<lambda>_ b.
              let b = put_frame pid p b in
              (Inr (map_option frame_page (map_of (frames b) pid)), b))))"

definition insert_frame :: "page \<Rightarrow> pool \<Rightarrow> (storage_error + unit) \<times> pool" where
  "insert_frame p b =
    (let b = b\<lparr>bp_clock := saturating_add_u64 (bp_clock b) 1\<rparr> in
     try_then (if map_of (frames b) (page_id p) = None then make_room (page_id p) b else (Inr (), b)) (\<lambda>_ b.
     (Inr (), put_frame (page_id p) p b)))"

definition on_store :: "(store \<Rightarrow> (storage_error + 'a) \<times> store) \<Rightarrow> pool \<Rightarrow> (storage_error + 'a) \<times> pool" where
  "on_store op b = (case op (bp_store b) of (r, s) \<Rightarrow> (r, b\<lparr>bp_store := s\<rparr>))"

definition pool_allocate :: "(bytes \<Rightarrow> u32) \<Rightarrow> bytes \<Rightarrow> pool \<Rightarrow> (storage_error + u64) \<times> pool" where
  "pool_allocate crc payload b =
    try_then (on_store (allocate_page crc payload) b) (\<lambda>pid b.
    case read_page crc pid (bp_store b) of
      Inl e \<Rightarrow> (Inl e, b)
    | Inr None \<Rightarrow> (Inl (PageNotFound pid), b)
    | Inr (Some p) \<Rightarrow> try_then (insert_frame p b) (\<lambda>_ b. (Inr pid, b)))"

definition pool_write :: "(bytes \<Rightarrow> u32) \<Rightarrow> u64 \<Rightarrow> bytes \<Rightarrow> pool \<Rightarrow> (storage_error + u64) \<times> pool" where
  "pool_write crc pid payload b =
    try_then (on_store (write_page crc pid payload) b) (\<lambda>lsn b.
    case page_with_lsn pid lsn payload of
      Inl e \<Rightarrow> (Inl e, b)
    | Inr p \<Rightarrow> try_then (insert_frame p b) (\<lambda>_ b. (Inr lsn, b)))"

definition pool_checkpoint :: "(bytes \<Rightarrow> u32) \<Rightarrow> pool \<Rightarrow> (storage_error + u64) \<times> pool" where
  "pool_checkpoint crc b = on_store (checkpoint crc) b"

definition pool_len :: "pool \<Rightarrow> nat" where "pool_len b = length (frames b)"
definition pool_is_empty :: "pool \<Rightarrow> bool" where "pool_is_empty b = (frames b = [])"

section \<open>Reads after one store write\<close>

lemma read_page_cong:
  "dirty s' = dirty s \<Longrightarrow> st_data s' = st_data s \<Longrightarrow> read_page crc q s' = read_page crc q s"
  by (simp add: read_page_def dirty_get_def split: option.splits)

lemma on_wal_reads:
  "on_wal op s = (r, s') \<Longrightarrow> dirty s' = dirty s \<and> st_data s' = st_data s"
  by (auto simp: on_wal_def split: prod.splits)

lemma append_writes_single:
  "append_writes crc [x] w = (Inr lsns, w') \<Longrightarrow> \<exists>lsn. lsns = [lsn]"
  by (auto elim!: try_then_okE)

lemma try_then_errE:
  assumes "try_then m k = (Inl e, s')"
  obtains "m = (Inl e, s')" | a s where "m = (Inr a, s)" "k a s = (Inl e, s')"
  using assms by (cases m; cases "fst m") auto

lemma write_pages_inner_single:
  assumes "length (pw_payload x) \<le> MAX_PAGE_PAYLOAD"
    and "write_pages_inner crc [x] durable s = (r, s')"
  shows "case r of
      Inl e \<Rightarrow> dirty s' = dirty s \<and> st_data s' = st_data s
    | Inr lsns \<Rightarrow> \<exists>lsn. lsns = [lsn] \<and> st_data s' = st_data s \<and>
        dirty s' = AList.update (pw_page_id x)
          \<lparr>page_id = pw_page_id x, page_lsn = lsn, page_payload = pw_payload x\<rparr> (dirty s)"
proof (cases r)
  case (Inl e)
  have total: "install_writes (zip [x] lsns) t \<noteq> (Inl e, t')" for lsns t t'
    using assms(1) by (cases lsns) (auto simp: page_with_lsn_def)
  from assms(2) Inl show ?thesis
    unfolding write_pages_inner_def
    by (auto elim!: try_then_errE simp: total split: if_splits dest!: on_wal_reads)
next
  case (Inr lsns)
  from assms(2) [unfolded Inr write_pages_inner_def] obtain s1 s2 s3 u
    where a: "on_wal (append_writes crc [x]) s = (Inr lsns, s1)"
      and b: "on_wal (append_batch_commit crc (length [x])) s1 = (Inr u, s2)"
      and c: "(if durable then on_wal wal_sync s2 else (Inr (), s2)) = (Inr (), s3)"
      and d: "install_writes (zip [x] lsns) s3 = (Inr (), s')"
    by (auto elim!: try_then_okE)
  obtain lsn where lsn: "lsns = [lsn]"
    using a append_writes_single [of crc x "st_wal s"]
    by (auto simp: on_wal_def simp del: append_writes.simps split: prod.splits)
  have "dirty s3 = dirty s \<and> st_data s3 = st_data s"
    using on_wal_reads [OF a] on_wal_reads [OF b] c on_wal_reads [of wal_sync s2]
    by (auto split: if_splits)
  with d lsn assms(1) Inr show ?thesis by (auto simp: page_with_lsn_def)
qed

lemma write_page_reads:
  assumes "write_page crc pid payload s = (r, s')"
  shows "read_page crc q s' =
    (case r of
       Inl e \<Rightarrow> read_page crc q s
     | Inr lsn \<Rightarrow> if q = pid then Inr (Some \<lparr>page_id = pid, page_lsn = lsn, page_payload = payload\<rparr>)
         else read_page crc q s)"
    and "r = Inr lsn \<Longrightarrow> length payload \<le> MAX_PAGE_PAYLOAD"
proof -
  let ?x = "\<lparr>pw_page_id = pid, pw_payload = payload\<rparr>"
  have "read_page crc q s' =
    (case r of
       Inl e \<Rightarrow> read_page crc q s
     | Inr lsn \<Rightarrow> if q = pid then Inr (Some \<lparr>page_id = pid, page_lsn = lsn, page_payload = payload\<rparr>)
         else read_page crc q s) \<and> (r = Inr lsn \<longrightarrow> length payload \<le> MAX_PAGE_PAYLOAD)"
  proof (cases "poisoned s \<or> length payload > MAX_PAGE_PAYLOAD")
    case True
    then show ?thesis
      using assms
      by (auto simp: write_page_def write_pages_def write_pages_with_def page_new_def page_with_lsn_def
          split: if_splits)
  next
    case False
    obtain r1 s1 where w: "write_pages_inner crc [?x] True s = (r1, s1)" by force
    from False assms w show ?thesis
      using write_pages_inner_single [OF _ w]
      by (cases r1)
        (auto simp: write_page_def write_pages_def write_pages_with_def page_new_def page_with_lsn_def
          poisoning_def read_page_def dirty_get_def update_conv' split: option.splits)
  qed
  then show "read_page crc q s' =
    (case r of
       Inl e \<Rightarrow> read_page crc q s
     | Inr lsn \<Rightarrow> if q = pid then Inr (Some \<lparr>page_id = pid, page_lsn = lsn, page_payload = payload\<rparr>)
         else read_page crc q s)"
    "r = Inr lsn \<Longrightarrow> length payload \<le> MAX_PAGE_PAYLOAD" by simp_all
qed

section \<open>The invariant\<close>

text \<open>Every resident page, those in \<open>X\<close> excepted, is what the store reads.\<close>

definition pool_wf :: "(bytes \<Rightarrow> u32) \<Rightarrow> u64 set \<Rightarrow> pool \<Rightarrow> bool" where
  "pool_wf crc X b \<longleftrightarrow>
    bp_capacity b > 0 \<and> length (frames b) \<le> bp_capacity b \<and>
    (\<forall>pid fr. map_of (frames b) pid = Some fr \<longrightarrow> pid \<notin> X \<longrightarrow>
      read_page crc pid (bp_store b) = Inr (Some (frame_page fr)))"

abbreviation pool_inv :: "(bytes \<Rightarrow> u32) \<Rightarrow> pool \<Rightarrow> bool" where
  "pool_inv crc \<equiv> pool_wf crc {}"

lemma length_update:
  "length (AList.update k v xs) = (if map_of xs k = None then Suc (length xs) else length xs)"
  by (induction xs) auto

lemma length_delete_less: "(k, v) \<in> set xs \<Longrightarrow> length (AList.delete k xs) < length xs"
proof (induction xs)
  case (Cons x xs)
  then show ?case
    using length_delete_le [of k xs] by (cases x) (auto intro: le_imp_less_Suc)
qed simp

lemma least_recent_mem: "least_recent xs = Some x \<Longrightarrow> x \<in> set xs"
  by (induction xs arbitrary: x) (auto split: option.splits if_splits)

lemma least_recent_None: "least_recent xs = None \<longleftrightarrow> xs = []"
  by (cases xs) (auto split: option.splits)

lemma make_room_ok:
  assumes "pool_wf crc X b"
  shows "\<exists>b'. make_room pid b = (Inr (), b') \<and> pool_wf crc X b' \<and> bp_store b' = bp_store b \<and>
    bp_clock b' = bp_clock b \<and> (map_of (frames b') pid \<noteq> None \<or> length (frames b') < bp_capacity b')"
proof (cases "map_of (frames b) pid \<noteq> None \<or> length (frames b) < bp_capacity b")
  case True
  with assms show ?thesis by (auto simp: make_room_def)
next
  case False
  then have "frames b \<noteq> []" using assms by (auto simp: pool_wf_def)
  then obtain q fr where v: "least_recent (frames b) = Some (q, fr)"
    by (metis least_recent_None option.exhaust prod.exhaust)
  from length_delete_less [OF least_recent_mem [OF v]] False assms v show ?thesis
    by (auto simp: make_room_def pool_wf_def delete_conv' split: if_splits)
qed

lemma put_frame_inv:
  assumes "pool_wf crc X b" "read_page crc pid (bp_store b) = Inr (Some p)" "X \<subseteq> {pid}"
    and "map_of (frames b) pid \<noteq> None \<or> length (frames b) < bp_capacity b"
  shows "pool_inv crc (put_frame pid p b)"
  using assms by (auto simp: pool_wf_def put_frame_def length_update update_conv')

lemma pool_wf_clock [simp]:
  "pool_wf crc X (b\<lparr>bp_clock := k\<rparr>) = pool_wf crc X b" "pool_wf crc X (b\<lparr>bp_stats := x\<rparr>) = pool_wf crc X b"
  by (simp_all add: pool_wf_def)

lemma insert_frame_inv:
  assumes "pool_wf crc {page_id p} b" "read_page crc (page_id p) (bp_store b) = Inr (Some p)"
  shows "\<exists>b'. insert_frame p b = (Inr (), b') \<and> pool_inv crc b' \<and> bp_store b' = bp_store b"
proof -
  let ?b = "b\<lparr>bp_clock := saturating_add_u64 (bp_clock b) 1\<rparr>"
  have i: "pool_wf crc {page_id p} ?b" "read_page crc (page_id p) (bp_store ?b) = Inr (Some p)"
    using assms by simp_all
  show ?thesis
  proof (cases "map_of (frames b) (page_id p)")
    case None
    obtain b' where b': "make_room (page_id p) ?b = (Inr (), b')" "pool_wf crc {page_id p} b'"
      "bp_store b' = bp_store ?b"
      "map_of (frames b') (page_id p) \<noteq> None \<or> length (frames b') < bp_capacity b'"
      using make_room_ok [OF i(1)] by blast
    then have "pool_inv crc (put_frame (page_id p) p b')" using i(2) by (intro put_frame_inv [of _ "{page_id p}"]) simp_all
    with b' None show ?thesis by (simp add: insert_frame_def Let_def) (simp add: put_frame_def)
  next
    case (Some fr)
    with put_frame_inv [OF i] show ?thesis
      by (simp add: insert_frame_def Let_def) (simp add: put_frame_def)
  qed
qed

lemma pool_get_ok:
  assumes inv: "pool_inv crc b"
  shows "\<exists>b'. pool_get crc pid b = (read_page crc pid (bp_store b), b') \<and> pool_inv crc b' \<and>
    bp_store b' = bp_store b"
proof (cases "map_of (frames b) pid")
  case (Some fr)
  with inv show ?thesis
    by (auto simp: pool_get_def Let_def pool_wf_def length_update update_conv')
next
  case None
  let ?b = "b\<lparr>bp_clock := saturating_add_u64 (bp_clock b) 1,
    bp_stats := (bp_stats b)\<lparr>ps_misses := saturating_add_u64 (ps_misses (bp_stats b)) 1\<rparr>\<rparr>"
  have i: "pool_inv crc ?b" using inv by simp
  show ?thesis
  proof (cases "\<exists>p. read_page crc pid (bp_store b) = Inr (Some p)")
    case True
    then obtain p where p: "read_page crc pid (bp_store b) = Inr (Some p)" by blast
    obtain b' where b': "make_room pid ?b = (Inr (), b')" "pool_inv crc b'" "bp_store b' = bp_store ?b"
      "map_of (frames b') pid \<noteq> None \<or> length (frames b') < bp_capacity b'"
      using make_room_ok [OF i] by blast
    then have "pool_inv crc (put_frame pid p b')" using p by (intro put_frame_inv [of _ "{}"]) simp_all
    with b' None p show ?thesis
      by (simp add: pool_get_def Let_def) (simp add: put_frame_def update_conv')
  next
    case False
    with None i show ?thesis
      by (cases "read_page crc pid (bp_store b)"; cases "projr (read_page crc pid (bp_store b))")
        (auto simp: pool_get_def Let_def)
  qed
qed

section \<open>The pool against the bare store\<close>

datatype page_op = ReadPage u64 | WritePage u64 bytes | AllocatePage bytes
datatype page_answer = PageRead "storage_error + page option" | PageWritten "storage_error + u64"

fun store_step :: "(bytes \<Rightarrow> u32) \<Rightarrow> page_op \<Rightarrow> store \<Rightarrow> page_answer \<times> store" where
  "store_step crc (ReadPage pid) s = (PageRead (read_page crc pid s), s)"
| "store_step crc (WritePage pid payload) s =
    (case write_page crc pid payload s of (r, s) \<Rightarrow> (PageWritten r, s))"
| "store_step crc (AllocatePage payload) s =
    (case allocate_page crc payload s of (r, s) \<Rightarrow> (PageWritten r, s))"

fun pool_step :: "(bytes \<Rightarrow> u32) \<Rightarrow> page_op \<Rightarrow> pool \<Rightarrow> page_answer \<times> pool" where
  "pool_step crc (ReadPage pid) b = (case pool_get crc pid b of (r, b) \<Rightarrow> (PageRead r, b))"
| "pool_step crc (WritePage pid payload) b =
    (case pool_write crc pid payload b of (r, b) \<Rightarrow> (PageWritten r, b))"
| "pool_step crc (AllocatePage payload) b =
    (case pool_allocate crc payload b of (r, b) \<Rightarrow> (PageWritten r, b))"

fun answers :: "('o \<Rightarrow> 's \<Rightarrow> 'a \<times> 's) \<Rightarrow> 'o list \<Rightarrow> 's \<Rightarrow> 'a list \<times> 's" where
  "answers step [] s = ([], s)"
| "answers step (x # xs) s =
    (case step x s of (a, s) \<Rightarrow> case answers step xs s of (as, s) \<Rightarrow> (a # as, s))"

lemma pool_wf_store:
  assumes "pool_inv crc b"
    and "\<And>q. q \<notin> X \<Longrightarrow> read_page crc q s = read_page crc q (bp_store b)"
  shows "pool_wf crc X (b\<lparr>bp_store := s\<rparr>)"
  using assms by (simp add: pool_wf_def)

lemma pool_write_ok:
  assumes inv: "pool_inv crc b" and w: "write_page crc pid payload (bp_store b) = (r, s)"
  shows "\<exists>b'. pool_write crc pid payload b = (r, b') \<and> pool_inv crc b' \<and> bp_store b' = s"
proof (cases r)
  case (Inl e)
  have "pool_inv crc (b\<lparr>bp_store := s\<rparr>)"
    using write_page_reads(1) [OF w] Inl by (intro pool_wf_store [OF inv]) simp
  with w Inl show ?thesis by (simp add: pool_write_def on_store_def)
next
  case (Inr lsn)
  let ?p = "\<lparr>page_id = pid, page_lsn = lsn, page_payload = payload\<rparr>"
  have "pool_wf crc {pid} (b\<lparr>bp_store := s\<rparr>)"
    using write_page_reads(1) [OF w] Inr by (intro pool_wf_store [OF inv]) simp
  moreover have "read_page crc pid s = Inr (Some ?p)" using write_page_reads(1) [OF w] Inr by simp
  ultimately obtain b' where "insert_frame ?p (b\<lparr>bp_store := s\<rparr>) = (Inr (), b')" "pool_inv crc b'" "bp_store b' = s"
    using insert_frame_inv [of crc ?p "b\<lparr>bp_store := s\<rparr>"] by auto
  with w Inr write_page_reads(2) [OF w Inr] show ?thesis
    by (simp add: pool_write_def on_store_def page_with_lsn_def)
qed

lemma allocate_page_reads:
  assumes "allocate_page crc payload s = (r, s')"
  shows "case r of
      Inl e \<Rightarrow> \<forall>q. read_page crc q s' = read_page crc q s
    | Inr pid \<Rightarrow> \<exists>lsn. \<forall>q. read_page crc q s' =
        (if q = pid then Inr (Some \<lparr>page_id = pid, page_lsn = lsn, page_payload = payload\<rparr>)
         else read_page crc q s)"
proof -
  have same: "read_page crc q (s\<lparr>allocator := a\<rparr>) = read_page crc q s" for q a
    by (rule read_page_cong) simp_all
  obtain r0 a where res: "reserve 1 (allocator s) = (r0, a)" by force
  show ?thesis
  proof (cases "\<exists>pid ids. r0 = Inr (pid # ids)")
    case True
    then obtain pid ids where r0: "r0 = Inr (pid # ids)" by blast
    obtain r1 s1 where w: "write_page crc pid payload (s\<lparr>allocator := a\<rparr>) = (r1, s1)" by force
    show ?thesis
      using assms res r0 w write_page_reads(1) [OF w]
      by (cases r1) (auto simp: allocate_page_def Let_def same)
  next
    case False
    then show ?thesis
      using assms res by (cases r0) (auto simp: allocate_page_def Let_def same split: list.splits)
  qed
qed

lemma pool_allocate_ok:
  assumes inv: "pool_inv crc b" and w: "allocate_page crc payload (bp_store b) = (r, s)"
  shows "\<exists>b'. pool_allocate crc payload b = (r, b') \<and> pool_inv crc b' \<and> bp_store b' = s"
proof (cases r)
  case (Inl e)
  have "pool_inv crc (b\<lparr>bp_store := s\<rparr>)"
    using allocate_page_reads [OF w] Inl by (intro pool_wf_store [OF inv]) simp
  with w Inl show ?thesis by (simp add: pool_allocate_def on_store_def)
next
  case (Inr pid)
  then obtain lsn where reads: "\<And>q. read_page crc q s =
      (if q = pid then Inr (Some \<lparr>page_id = pid, page_lsn = lsn, page_payload = payload\<rparr>)
       else read_page crc q (bp_store b))"
    using allocate_page_reads [OF w] by auto
  let ?p = "\<lparr>page_id = pid, page_lsn = lsn, page_payload = payload\<rparr>"
  have "pool_wf crc {pid} (b\<lparr>bp_store := s\<rparr>)" using reads by (intro pool_wf_store [OF inv]) simp
  then obtain b' where "insert_frame ?p (b\<lparr>bp_store := s\<rparr>) = (Inr (), b')" "pool_inv crc b'" "bp_store b' = s"
    using insert_frame_inv [of crc ?p "b\<lparr>bp_store := s\<rparr>"] reads by auto
  with w Inr reads show ?thesis by (simp add: pool_allocate_def on_store_def)
qed

lemma pool_step_simulates:
  assumes "pool_inv crc b" "store_step crc x (bp_store b) = (a, s)"
  shows "\<exists>b'. pool_step crc x b = (a, b') \<and> pool_inv crc b' \<and> bp_store b' = s"
proof (cases x)
  case (ReadPage pid)
  with assms pool_get_ok [OF assms(1), of pid] show ?thesis by auto
next
  case (WritePage pid payload)
  with assms pool_write_ok [OF assms(1), of pid payload] show ?thesis
    by (auto split: prod.splits)
next
  case (AllocatePage payload)
  with assms pool_allocate_ok [OF assms(1), of payload] show ?thesis
    by (auto split: prod.splits)
qed

lemma pool_run_simulates:
  "pool_inv crc b \<Longrightarrow> answers (store_step crc) xs (bp_store b) = (as, s) \<Longrightarrow>
    \<exists>b'. answers (pool_step crc) xs b = (as, b') \<and> pool_inv crc b' \<and> bp_store b' = s"
proof (induction xs arbitrary: b as)
  case (Cons x xs)
  obtain a t where step: "store_step crc x (bp_store b) = (a, t)" by force
  obtain b' where b': "pool_step crc x b = (a, b')" "pool_inv crc b'" "bp_store b' = t"
    using pool_step_simulates [OF Cons.prems(1) step] by blast
  obtain bs where bs: "answers (store_step crc) xs t = (bs, s)" "as = a # bs"
    using Cons.prems(2) step by (auto split: prod.splits)
  from Cons.IH [OF b'(2), of bs] bs b' show ?case by auto
qed simp

lemma pool_new_inv: "pool_new s n = Inr b \<Longrightarrow> pool_inv crc b \<and> bp_store b = s \<and> bp_capacity b = n"
  by (auto simp: pool_new_def pool_wf_def split: if_splits)

lemma capacity_make_room: "make_room pid b = (r, b') \<Longrightarrow> bp_capacity b' = bp_capacity b"
  by (auto simp: make_room_def split: if_splits option.splits)

lemma capacity_insert_frame: "insert_frame p b = (r, b') \<Longrightarrow> bp_capacity b' = bp_capacity b"
  by (auto simp: insert_frame_def try_then_def Let_def put_frame_def split: prod.splits sum.splits if_splits
      dest!: capacity_make_room)

lemma capacity_pool_step: "pool_step crc x b = (a, b') \<Longrightarrow> bp_capacity b' = bp_capacity b"
  by (cases x)
    (auto simp: pool_get_def pool_write_def pool_allocate_def on_store_def try_then_def Let_def
      put_frame_def split: prod.splits sum.splits option.splits if_splits
      dest!: capacity_make_room capacity_insert_frame)

lemma capacity_pool_run: "answers (pool_step crc) xs b = (as, b') \<Longrightarrow> bp_capacity b' = bp_capacity b"
  by (induction xs arbitrary: b as) (auto split: prod.splits dest!: capacity_pool_step)

lemma read_page_addressable:
  assumes "store_inv crc s L base ws" "read_page crc pid s = Inr (Some p)"
  shows "addressable pid"
proof (cases "map_of (dirty s) pid")
  case None
  with assms(2) show ?thesis
    by (auto simp: read_page_def dirty_get_def data_read_def read_shared_def page_offset_def addressable_def
        split: if_splits)
next
  case (Some q)
  with assms(1) show ?thesis
    by (auto simp: store_inv_def table_inv_def dest!: spec [of _ pid])
qed

lemma pool_checkpoint_inv:
  assumes inv: "pool_inv crc b" and st: "store_inv crc (bp_store b) L base ws"
    and ok: "pool_checkpoint crc b = (Inr lsn, b')"
  shows "pool_inv crc b'"
proof -
  obtain s' where s': "checkpoint crc (bp_store b) = (Inr lsn, s')" "b' = b\<lparr>bp_store := s'\<rparr>"
    using ok by (auto simp: pool_checkpoint_def on_store_def split: prod.splits)
  then have c: "\<not> checkpoint_in_flight (bp_store b)" "checkpoint_inner crc (bp_store b) = (Inr lsn, s')"
    by (auto simp: checkpoint_def poisoning_def split: if_splits sum.splits prod.splits)
  have "read_page crc pid s' = read_page crc pid (bp_store b)" if "addressable pid" for pid
    using store_inv_read [OF checkpoint_inner_inv(1) [OF st c] that] store_inv_read [OF st that]
    by simp
  then show ?thesis
    using inv read_page_addressable [OF st] by (auto simp: s' pool_wf_def)
qed

section \<open>Properties\<close>

text \<open>C21: a buffer pool is invisible: a client that reads, writes and allocates pages through a new
  pool of any positive capacity gets the same answers, errors included, as one that uses the
  store directly, the store ends in the same state, and the pool never holds more pages than its
  capacity.\<close>

theorem pool_answers_like_store:
  assumes "pool_new s n = Inr b"
  shows "fst (answers (pool_step crc) xs b) = fst (answers (store_step crc) xs s) \<and>
    bp_store (snd (answers (pool_step crc) xs b)) = snd (answers (store_step crc) xs s) \<and>
    pool_len (snd (answers (pool_step crc) xs b)) \<le> n"
proof -
  obtain as t where st: "answers (store_step crc) xs s = (as, t)" by force
  have b: "pool_inv crc b" "bp_store b = s" "bp_capacity b = n" using pool_new_inv [OF assms] by auto
  obtain b' where b': "answers (pool_step crc) xs b = (as, b')" "pool_inv crc b'" "bp_store b' = t"
    using pool_run_simulates [OF b(1)] st b(2) by blast
  with st capacity_pool_run [OF b'(1)] b(3) show ?thesis by (simp add: pool_len_def pool_wf_def)
qed

theorem pool_answers_like_store_witness:
  "\<exists>b. pool_new fresh_store 1 = Inr b \<and>
    fst (answers (pool_step byte_sum) [WritePage 0 [1], WritePage 1 [2], ReadPage 0] b) =
    fst (answers (store_step byte_sum) [WritePage 0 [1], WritePage 1 [2], ReadPage 0] fresh_store) \<and>
    pool_len (snd (answers (pool_step byte_sum) [WritePage 0 [1], WritePage 1 [2], ReadPage 0] b)) \<le> 1"
proof -
  obtain b where b: "pool_new fresh_store 1 = Inr b" by (simp add: pool_new_def)
  from pool_answers_like_store [OF b, of byte_sum "[WritePage 0 [1], WritePage 1 [2], ReadPage 0]"] b
  show ?thesis by blast
qed

end
