(* ===== verification/Containers.thy ===== *)
theory Containers
  imports Prelude "HOL-Library.AList" "HOL-Library.List_Lexorder"
begin

text \<open>
  The ordered containers of the Rust standard library as the code above the storage layer uses
  them. A \<open>BTreeMap\<close> is an association list in strictly increasing key order, with insertion,
  removal and \<open>pop_first\<close>; a \<open>HashMap\<close> is an association list with distinct keys
  (\<^const>\<open>AList.update\<close>, \<^const>\<open>AList.delete\<close>). Byte strings are compared
  lexicographically, which is the list order. \<open>binary_search_by\<close> and \<open>partition_point\<close> are given
  by their results on sorted slices.
\<close>

section \<open>Ordered maps\<close>

fun bt_insert :: "'k :: linorder \<Rightarrow> 'v \<Rightarrow> ('k \<times> 'v) list \<Rightarrow> ('k \<times> 'v) list" where
  "bt_insert k v [] = [(k, v)]"
| "bt_insert k v ((k', v') # xs) =
    (if k < k' then (k, v) # (k', v') # xs
     else if k = k' then (k, v) # xs
     else (k', v') # bt_insert k v xs)"

definition bt_remove :: "'k \<Rightarrow> ('k \<times> 'v) list \<Rightarrow> ('k \<times> 'v) list" where
  "bt_remove k xs = filter (\<lambda>kv. fst kv \<noteq> k) xs"

abbreviation bt_sorted :: "('k :: linorder \<times> 'v) list \<Rightarrow> bool" where
  "bt_sorted xs \<equiv> sorted_wrt (<) (map fst xs)"

lemma set_bt_insert: "fst ` set (bt_insert k v xs) = insert k (fst ` set xs)"
  by (induction k v xs rule: bt_insert.induct) auto

lemma bt_sorted_insert: "bt_sorted xs \<Longrightarrow> bt_sorted (bt_insert k v xs)"
proof (induction k v xs rule: bt_insert.induct)
  case (2 k v k' v' xs)
  then show ?case
    using set_bt_insert [of k v xs] by (auto simp: image_iff)
qed simp

lemma bt_sorted_distinct: "bt_sorted xs \<Longrightarrow> distinct (map fst xs)"
  by (simp add: strict_sorted_iff)

lemma map_of_bt_insert:
  "bt_sorted xs \<Longrightarrow> map_of (bt_insert k v xs) = (map_of xs)(k \<mapsto> v)"
proof (induction k v xs rule: bt_insert.induct)
  case (2 k v k' v' xs)
  then show ?case
    by (auto simp: fun_eq_iff map_of_eq_None_iff [symmetric])
qed auto

lemma bt_insert_last:
  "(\<forall>x\<in>set xs. fst x < k) \<Longrightarrow> bt_insert k v xs = xs @ [(k, v)]"
  by (induction xs) (auto dest: less_not_sym)

lemma bt_sorted_remove: "bt_sorted xs \<Longrightarrow> bt_sorted (bt_remove k xs)"
  by (induction xs) (auto simp: bt_remove_def)

lemma set_bt_remove: "set (bt_remove k xs) = {x \<in> set xs. fst x \<noteq> k}"
  by (auto simp: bt_remove_def)

lemma map_of_bt_remove: "map_of (bt_remove k xs) = (map_of xs)(k := None)"
  by (induction xs) (auto simp: bt_remove_def fun_eq_iff)

section \<open>Searching sorted slices\<close>

text \<open>
  \<open>partition_point P xs\<close> is the length of the longest prefix whose elements satisfy \<open>P\<close>; the
  standard library promises it for slices in which no element that satisfies \<open>P\<close> follows one
  that does not. \<open>binary_search\<close> gives the position of the key (\<open>Ok\<close>, on the right) or the one
  where it would be inserted (\<open>Err\<close>, on the left), on slices whose keys are strictly increasing.
\<close>

definition partition_point :: "('a \<Rightarrow> bool) \<Rightarrow> 'a list \<Rightarrow> nat" where
  "partition_point P xs = length (takeWhile P xs)"

fun binary_search :: "('a \<Rightarrow> 'k :: linorder) \<Rightarrow> 'k \<Rightarrow> 'a list \<Rightarrow> nat + nat" where
  "binary_search key k xs =
    (let i = partition_point (\<lambda>x. key x < k) xs in
     if i < length xs \<and> key (xs ! i) = k then Inr i else Inl i)"

lemma partition_point_le: "partition_point P xs \<le> length xs"
  by (simp add: partition_point_def length_takeWhile_le)

lemma partition_point_prefix: "i < partition_point P xs \<Longrightarrow> P (xs ! i)"
  unfolding partition_point_def
  by (metis nth_mem set_takeWhileD takeWhile_nth)

lemma partition_point_stop: "partition_point P xs < length xs \<Longrightarrow> \<not> P (xs ! partition_point P xs)"
  unfolding partition_point_def by (rule nth_length_takeWhile)

declare binary_search.simps [simp del]

lemma binary_search_found:
  "binary_search key k xs = Inr i \<Longrightarrow> i < length xs \<and> key (xs ! i) = k"
  by (auto simp: binary_search.simps Let_def split: if_splits)

lemma binary_search_split:
  assumes "sorted_wrt (<) (map key xs)"
  shows "\<exists>as bs. xs = as @ bs \<and> (\<forall>a\<in>set as. key a < k) \<and>
    (case binary_search key k xs of
       Inl i \<Rightarrow> i = length as \<and> (\<forall>b\<in>set bs. k < key b)
     | Inr i \<Rightarrow> i = length as \<and> (\<exists>b cs. bs = b # cs \<and> key b = k \<and> (\<forall>c\<in>set cs. k < key c)))"
proof -
  let ?P = "\<lambda>x. key x < k"
  define as bs where ab: "as = takeWhile ?P xs" "bs = dropWhile ?P xs"
  have xs: "xs = as @ bs" by (simp add: ab)
  have srt: "sorted_wrt (<) (map key bs)"
    using assms unfolding xs by (simp add: sorted_wrt_append)
  have as: "\<forall>a\<in>set as. key a < k" unfolding ab using set_takeWhileD by fastforce
  have hd: "\<not> key b < k" if "bs = b # cs" for b cs
    using hd_dropWhile [of ?P xs] that ab(2) by (metis list.discI list.sel(1))
  have search: "binary_search key k xs =
      (case bs of [] \<Rightarrow> Inl (length as)
       | b # cs \<Rightarrow> if key b = k then Inr (length as) else Inl (length as))"
    unfolding binary_search.simps partition_point_def Let_def ab(1) [symmetric]
    unfolding xs by (cases bs) simp_all
  show ?thesis
  proof (intro exI conjI)
    show "case binary_search key k xs of
       Inl i \<Rightarrow> i = length as \<and> (\<forall>b\<in>set bs. k < key b)
     | Inr i \<Rightarrow> i = length as \<and> (\<exists>b cs. bs = b # cs \<and> key b = k \<and> (\<forall>c\<in>set cs. k < key c))"
      unfolding search using srt hd by (cases bs) (auto intro: less_trans)
  qed (rule xs, rule as)
qed

end
