(* ===== verification/Index_Node.thy ===== *)
theory Index_Node
  imports Page Containers
begin

text \<open>
  Model of \<open>index/src/error.rs\<close> and \<open>index/src/node.rs\<close>: the errors of the index, the two kinds of
  B+ tree nodes and their encoding into the payload of a page. Keys are byte strings compared
  lexicographically. The memory sizes \<open>size_of\<close> that the cache accounting adds up are parameters:
  the language does not fix the layout of an enum.
\<close>

section \<open>Errors and nodes\<close>

datatype index_error =
    IndexStorage storage_error
  | KeysNotStrictlyIncreasing
  | KeyTooLarge nat nat
  | EntryCountOverflow
  | CorruptNode u64 reason

record index_entry =
  ie_key :: bytes
  ie_value :: u64

datatype node =
    Leaf "index_entry list" "u64 option"
  | Internal u16 u64 "(bytes \<times> u64) list"

definition NODE_MAGIC :: bytes where "NODE_MAGIC = [0x51, 0x4E, 0x49, 0x58]"
definition NODE_FORMAT_VERSION :: u16 where "NODE_FORMAT_VERSION = 1"
definition NODE_HEADER_SIZE :: nat where "NODE_HEADER_SIZE = 32"
definition LEAF_KIND :: u8 where "LEAF_KIND = 1"
definition INTERNAL_KIND :: u8 where "INTERNAL_KIND = 2"
definition NO_PAGE :: u64 where "NO_PAGE = - 1"
definition LEAF_ENTRY_OVERHEAD :: nat where "LEAF_ENTRY_OVERHEAD = 12"
definition INTERNAL_ENTRY_OVERHEAD :: nat where "INTERNAL_ENTRY_OVERHEAD = 12"

lemmas node_consts =
  NODE_MAGIC_def NODE_FORMAT_VERSION_def NODE_HEADER_SIZE_def LEAF_KIND_def INTERNAL_KIND_def
  LEAF_ENTRY_OVERHEAD_def INTERNAL_ENTRY_OVERHEAD_def

fun node_level :: "node \<Rightarrow> u16" where
  "node_level (Leaf _ _) = 0"
| "node_level (Internal level _ _) = level"

fun approximate_bytes :: "nat \<Rightarrow> nat \<Rightarrow> nat \<Rightarrow> node \<Rightarrow> nat" where
  "approximate_bytes node_size entry_size pair_size (Leaf entries _) =
    foldl (\<lambda>n e. n + length (ie_key e) + entry_size) node_size entries"
| "approximate_bytes node_size entry_size pair_size (Internal _ _ separators) =
    foldl (\<lambda>n (key, _). n + length key + pair_size) node_size separators"

section \<open>Byte fields\<close>

definition node_write_u16 :: "bytes \<Rightarrow> nat \<Rightarrow> u16 \<Rightarrow> bytes" where
  "node_write_u16 bs offset value = patch bs offset (le_u16 value)"

definition node_write_u32 :: "bytes \<Rightarrow> nat \<Rightarrow> u32 \<Rightarrow> bytes" where
  "node_write_u32 bs offset value = patch bs offset (le_u32 value)"

definition node_write_u64 :: "bytes \<Rightarrow> nat \<Rightarrow> u64 \<Rightarrow> bytes" where
  "node_write_u64 bs offset value = patch bs offset (le_u64 value)"

definition node_read_u16 :: "bytes \<Rightarrow> nat \<Rightarrow> u16" where
  "node_read_u16 bs offset = of_le_u16 (slice bs offset (offset + 2))"

definition node_read_u32 :: "bytes \<Rightarrow> nat \<Rightarrow> u32" where
  "node_read_u32 bs offset = of_le_u32 (slice bs offset (offset + 4))"

definition node_read_u64 :: "bytes \<Rightarrow> nat \<Rightarrow> u64" where
  "node_read_u64 bs offset = of_le_u64 (slice bs offset (offset + 8))"

lemmas node_fields =
  node_write_u16_def node_write_u32_def node_write_u64_def
  node_read_u16_def node_read_u32_def node_read_u64_def

section \<open>Encoding\<close>

definition corrupt :: "u64 \<Rightarrow> string \<Rightarrow> nat list \<Rightarrow> index_error" where
  "corrupt pid msg ns = CorruptNode pid (Reason msg ns)"

definition leaf_entry_size :: "nat \<Rightarrow> nat option" where
  "leaf_entry_size key_length = checked_add_usize key_length LEAF_ENTRY_OVERHEAD"

definition internal_entry_size :: "nat \<Rightarrow> nat option" where
  "internal_entry_size key_length = checked_add_usize key_length INTERNAL_ENTRY_OVERHEAD"

definition header_size :: nat where "header_size = NODE_HEADER_SIZE"

definition checked_entry_length :: "nat \<Rightarrow> nat \<Rightarrow> nat \<Rightarrow> index_error + nat" where
  "checked_entry_length len key_length overhead =
    (case Option.bind (checked_add_usize len key_length) (\<lambda>l. checked_add_usize l overhead) of
       None \<Rightarrow> Inl (KeyTooLarge usize_max MAX_PAGE_PAYLOAD)
     | Some l \<Rightarrow> Inr l)"

definition count_u32 :: "nat \<Rightarrow> index_error + u32" where
  "count_u32 count = (if count < 2 ^ 32 then Inr (word_of_nat count) else Inl EntryCountOverflow)"

fun entry_lengths :: "nat \<Rightarrow> nat list \<Rightarrow> nat \<Rightarrow> index_error + nat" where
  "entry_lengths len [] overhead = Inr len"
| "entry_lengths len (k # ks) overhead =
    (case checked_entry_length len k overhead of
       Inl e \<Rightarrow> Inl e
     | Inr len \<Rightarrow> entry_lengths len ks overhead)"

fun encoded_length :: "node \<Rightarrow> index_error + nat" where
  "encoded_length (Leaf entries _) =
    entry_lengths NODE_HEADER_SIZE (map (\<lambda>e. length (ie_key e)) entries) LEAF_ENTRY_OVERHEAD"
| "encoded_length (Internal _ _ separators) =
    entry_lengths NODE_HEADER_SIZE (map (\<lambda>(key, _). length key) separators) INTERNAL_ENTRY_OVERHEAD"

definition write_key :: "bytes \<Rightarrow> nat \<Rightarrow> bytes \<Rightarrow> bytes \<times> nat" where
  "write_key bs cursor key =
    (let bs = node_write_u32 bs cursor (word_of_nat (length key));
         cursor = cursor + 4
     in (patch bs cursor key, cursor + length key))"

fun write_pairs :: "bytes \<Rightarrow> nat \<Rightarrow> (bytes \<times> u64) list \<Rightarrow> bytes" where
  "write_pairs bs cursor [] = bs"
| "write_pairs bs cursor ((key, v) # xs) =
    (case write_key bs cursor key of (bs, cursor) \<Rightarrow>
      write_pairs (node_write_u64 bs cursor v) (cursor + 8) xs)"

definition node_prefix :: "nat \<Rightarrow> u16 \<Rightarrow> bytes" where
  "node_prefix len level =
    (let bs = replicate len 0;
         bs = patch bs 0 NODE_MAGIC;
         bs = node_write_u16 bs 4 NODE_FORMAT_VERSION
     in node_write_u16 bs 12 level)"

definition node_encode :: "node \<Rightarrow> index_error + bytes" where
  "node_encode n =
    (case encoded_length n of
       Inl e \<Rightarrow> Inl e
     | Inr len \<Rightarrow>
         if len > MAX_PAGE_PAYLOAD then Inl (KeyTooLarge len MAX_PAGE_PAYLOAD)
         else let bs = node_prefix len (node_level n) in
           (case n of
              Leaf entries next \<Rightarrow>
                let bs = bs[6 := LEAF_KIND] in
                (case count_u32 (length entries) of
                   Inl e \<Rightarrow> Inl e
                 | Inr count \<Rightarrow>
                     let bs = node_write_u32 bs 8 count;
                         bs = node_write_u64 bs 16 (case next of None \<Rightarrow> NO_PAGE | Some p \<Rightarrow> p)
                     in Inr (write_pairs bs NODE_HEADER_SIZE (map (\<lambda>e. (ie_key e, ie_value e)) entries)))
            | Internal level first_child separators \<Rightarrow>
                let bs = bs[6 := INTERNAL_KIND] in
                (case count_u32 (length separators) of
                   Inl e \<Rightarrow> Inl e
                 | Inr count \<Rightarrow>
                     let bs = node_write_u32 bs 8 count;
                         bs = node_write_u64 bs 16 first_child
                     in Inr (write_pairs bs NODE_HEADER_SIZE separators))))"

section \<open>Decoding\<close>

definition read_required_u32 :: "u64 \<Rightarrow> bytes \<Rightarrow> nat \<Rightarrow> index_error + (u32 \<times> nat)" where
  "read_required_u32 pid bs cursor =
    (case checked_add_usize cursor 4 of
       None \<Rightarrow> Inl (corrupt pid ''field offset overflow'' [])
     | Some e \<Rightarrow>
         if e > length bs then Inl (corrupt pid ''node ends inside a 32-bit field'' [])
         else Inr (node_read_u32 bs cursor, e))"

definition read_required_u64 :: "u64 \<Rightarrow> bytes \<Rightarrow> nat \<Rightarrow> index_error + (u64 \<times> nat)" where
  "read_required_u64 pid bs cursor =
    (case checked_add_usize cursor 8 of
       None \<Rightarrow> Inl (corrupt pid ''field offset overflow'' [])
     | Some e \<Rightarrow>
         if e > length bs then Inl (corrupt pid ''node ends inside a 64-bit field'' [])
         else Inr (node_read_u64 bs cursor, e))"

definition read_key :: "u64 \<Rightarrow> bytes \<Rightarrow> nat \<Rightarrow> index_error + (bytes \<times> nat)" where
  "read_key pid bs cursor =
    (case read_required_u32 pid bs cursor of
       Inl e \<Rightarrow> Inl e
     | Inr (len, cursor) \<Rightarrow>
         (case checked_add_usize cursor (unat len) of
            None \<Rightarrow> Inl (corrupt pid ''key length overflow'' [])
          | Some e \<Rightarrow>
              if e > length bs then Inl (corrupt pid ''key extends past node boundary'' [])
              else Inr (slice bs cursor e, e)))"

primrec read_entries :: "u64 \<Rightarrow> bytes \<Rightarrow> nat \<Rightarrow> nat \<Rightarrow> index_error + (index_entry list \<times> nat)" where
  "read_entries pid bs 0 cursor = Inr ([], cursor)"
| "read_entries pid bs (Suc count) cursor =
    (case read_key pid bs cursor of
       Inl e \<Rightarrow> Inl e
     | Inr (key, cursor) \<Rightarrow>
         (case read_required_u64 pid bs cursor of
            Inl e \<Rightarrow> Inl e
          | Inr (v, cursor) \<Rightarrow>
              (case read_entries pid bs count cursor of
                 Inl e \<Rightarrow> Inl e
               | Inr (es, cursor) \<Rightarrow> Inr (\<lparr>ie_key = key, ie_value = v\<rparr> # es, cursor))))"

primrec read_separators :: "u64 \<Rightarrow> bytes \<Rightarrow> nat \<Rightarrow> nat \<Rightarrow> index_error + ((bytes \<times> u64) list \<times> nat)" where
  "read_separators pid bs 0 cursor = Inr ([], cursor)"
| "read_separators pid bs (Suc count) cursor =
    (case read_key pid bs cursor of
       Inl e \<Rightarrow> Inl e
     | Inr (key, cursor) \<Rightarrow>
         (case read_required_u64 pid bs cursor of
            Inl e \<Rightarrow> Inl e
          | Inr (child, cursor) \<Rightarrow>
              if child = NO_PAGE then Inl (corrupt pid ''separator has no child'' [])
              else (case read_separators pid bs count cursor of
                 Inl e \<Rightarrow> Inl e
               | Inr (xs, cursor) \<Rightarrow> Inr ((key, child) # xs, cursor))))"

definition ensure_finished :: "u64 \<Rightarrow> bytes \<Rightarrow> nat \<Rightarrow> index_error + unit" where
  "ensure_finished pid bs cursor =
    (if cursor \<noteq> length bs
     then Inl (corrupt pid ''node contains {} trailing bytes'' [length bs - cursor])
     else Inr ())"

fun strict_from :: "bytes \<Rightarrow> bytes list \<Rightarrow> bool" where
  "strict_from previous [] = True"
| "strict_from previous (key # keys) = (if previous \<ge> key then False else strict_from key keys)"

fun ensure_strict_keys :: "u64 \<Rightarrow> bytes list \<Rightarrow> index_error + unit" where
  "ensure_strict_keys pid [] = Inr ()"
| "ensure_strict_keys pid (previous # keys) =
    (if strict_from previous keys then Inr ()
     else Inl (corrupt pid ''node keys are not strictly increasing'' []))"

definition decode_leaf :: "u64 \<Rightarrow> bytes \<Rightarrow> nat \<Rightarrow> u16 \<Rightarrow> u64 \<Rightarrow> index_error + node" where
  "decode_leaf pid bs count level auxiliary =
    (if level \<noteq> 0 then Inl (corrupt pid ''leaf level must be zero'' [])
     else case read_entries pid bs count NODE_HEADER_SIZE of
       Inl e \<Rightarrow> Inl e
     | Inr (entries, cursor) \<Rightarrow>
         (case ensure_finished pid bs cursor of
            Inl e \<Rightarrow> Inl e
          | Inr _ \<Rightarrow>
              (case ensure_strict_keys pid (map ie_key entries) of
                 Inl e \<Rightarrow> Inl e
               | Inr _ \<Rightarrow> Inr (Leaf entries (if auxiliary \<noteq> NO_PAGE then Some auxiliary else None)))))"

definition decode_internal :: "u64 \<Rightarrow> bytes \<Rightarrow> nat \<Rightarrow> u16 \<Rightarrow> u64 \<Rightarrow> index_error + node" where
  "decode_internal pid bs count level auxiliary =
    (if level = 0 then Inl (corrupt pid ''internal level must be positive'' [])
     else if auxiliary = NO_PAGE then Inl (corrupt pid ''internal node has no first child'' [])
     else case read_separators pid bs count NODE_HEADER_SIZE of
       Inl e \<Rightarrow> Inl e
     | Inr (separators, cursor) \<Rightarrow>
         (case ensure_finished pid bs cursor of
            Inl e \<Rightarrow> Inl e
          | Inr _ \<Rightarrow>
              (case ensure_strict_keys pid (map fst separators) of
                 Inl e \<Rightarrow> Inl e
               | Inr _ \<Rightarrow> Inr (Internal level auxiliary separators))))"

definition node_decode :: "u64 \<Rightarrow> bytes \<Rightarrow> index_error + node" where
  "node_decode pid bs =
    (if length bs < NODE_HEADER_SIZE then Inl (corrupt pid ''node is shorter than its header'' [])
     else if slice bs 0 4 \<noteq> NODE_MAGIC then Inl (corrupt pid ''invalid node magic'' [])
     else let version = node_read_u16 bs 4 in
     if version \<noteq> NODE_FORMAT_VERSION
     then Inl (corrupt pid ''unsupported node format version {version}'' [unat version])
     else if bs ! 7 \<noteq> 0 \<or> list_ex (\<lambda>b. b \<noteq> 0) (slice bs 14 16) \<or> list_ex (\<lambda>b. b \<noteq> 0) (slice bs 24 32)
     then Inl (corrupt pid ''reserved header bytes are not zero'' [])
     else let kind = bs ! 6;
              count = unat (node_read_u32 bs 8);
              level = node_read_u16 bs 12;
              auxiliary = node_read_u64 bs 16 in
     if kind = LEAF_KIND then decode_leaf pid bs count level auxiliary
     else if kind = INTERNAL_KIND then decode_internal pid bs count level auxiliary
     else Inl (corrupt pid ''unknown node kind {kind}'' [unat kind]))"

section \<open>Round trip\<close>

definition pair_bytes :: "bytes \<times> u64 \<Rightarrow> bytes" where
  "pair_bytes x = le_u32 (word_of_nat (length (fst x))) @ fst x @ le_u64 (snd x)"

abbreviation pairs_bytes :: "(bytes \<times> u64) list \<Rightarrow> bytes" where
  "pairs_bytes xs \<equiv> concat (map pair_bytes xs)"

lemma length_pair_bytes [simp]: "length (pair_bytes x) = length (fst x) + 12"
  by (simp add: pair_bytes_def)

lemma patch_middle:
  "off = length pre \<Longrightarrow> length old = length new \<Longrightarrow> patch (pre @ old @ suf) off new = pre @ new @ suf"
  by (simp add: patch_def)

lemma split_zeros:
  "n \<le> m \<Longrightarrow> replicate m x = replicate n x @ replicate (m - n) x"
  by (metis le_add_diff_inverse replicate_add)

lemma patch_zeros:
  assumes "off = length pre" "length new \<le> m"
  shows "patch (pre @ replicate m 0) off new = pre @ new @ replicate (m - length new) 0"
  unfolding split_zeros [OF assms(2)] using assms(1) by (intro patch_middle) simp_all

lemma write_pairs_zeros:
  "length (pairs_bytes xs) \<le> m \<Longrightarrow> cursor = length pre \<Longrightarrow>
    write_pairs (pre @ replicate m 0) cursor xs =
    pre @ pairs_bytes xs @ replicate (m - length (pairs_bytes xs)) 0"
proof (induction xs arbitrary: pre m cursor)
  case (Cons x xs)
  obtain k v where x: "x = (k, v)" by force
  let ?n = "le_u32 (word_of_nat (length k))"
  have m: "length k + 12 + length (pairs_bytes xs) \<le> m" using Cons.prems by (simp add: x)
  have k: "write_key (pre @ replicate m 0) cursor k =
      ((pre @ ?n @ k) @ replicate (m - 4 - length k) 0, cursor + 4 + length k)"
  proof -
    have "node_write_u32 (pre @ replicate m 0) cursor (word_of_nat (length k)) =
        (pre @ ?n) @ replicate (m - 4) 0"
      using m Cons.prems by (simp add: node_fields patch_zeros)
    moreover have "patch ((pre @ ?n) @ replicate (m - 4) 0) (cursor + 4) k =
        (pre @ ?n) @ k @ replicate (m - 4 - length k) 0"
      using m Cons.prems by (intro patch_zeros) simp_all
    ultimately show ?thesis by (simp add: write_key_def Let_def)
  qed
  have v: "node_write_u64 ((pre @ ?n @ k) @ replicate (m - 4 - length k) 0) (cursor + 4 + length k) v =
      (pre @ pair_bytes x) @ replicate (m - 12 - length k) 0"
  proof -
    have "patch ((pre @ ?n @ k) @ replicate (m - 4 - length k) 0) (cursor + 4 + length k) (le_u64 v) =
        (pre @ ?n @ k) @ le_u64 v @ replicate (m - 4 - length k - length (le_u64 v)) 0"
      using m Cons.prems by (intro patch_zeros) simp_all
    then show ?thesis by (simp add: node_fields pair_bytes_def x add.commute)
  qed
  have "write_pairs ((pre @ pair_bytes x) @ replicate (m - 12 - length k) 0) (cursor + 4 + length k + 8) xs =
      (pre @ pair_bytes x) @ pairs_bytes xs @ replicate (m - 12 - length k - length (pairs_bytes xs)) 0"
    using m Cons.prems by (intro Cons.IH) (simp_all add: x)
  then show ?case using k v by (simp add: x add.commute)
qed simp

text \<open>The image of a node: a 32-byte header and its length-prefixed pairs.\<close>

definition node_header :: "u8 \<Rightarrow> u32 \<Rightarrow> u16 \<Rightarrow> u64 \<Rightarrow> bytes" where
  "node_header kind count level auxiliary =
    NODE_MAGIC @ le_u16 NODE_FORMAT_VERSION @ [kind, 0] @ le_u32 count @ le_u16 level @ [0, 0] @
    le_u64 auxiliary @ replicate 8 0"

lemma length_node_header [simp]: "length (node_header kind count level auxiliary) = 32"
  by (simp add: node_header_def NODE_MAGIC_def)

fun node_pairs :: "node \<Rightarrow> (bytes \<times> u64) list" where
  "node_pairs (Leaf entries _) = map (\<lambda>e. (ie_key e, ie_value e)) entries"
| "node_pairs (Internal _ _ separators) = separators"

fun node_kind :: "node \<Rightarrow> u8" where
  "node_kind (Leaf _ _) = LEAF_KIND"
| "node_kind (Internal _ _ _) = INTERNAL_KIND"

fun node_auxiliary :: "node \<Rightarrow> u64" where
  "node_auxiliary (Leaf _ next) = (case next of None \<Rightarrow> NO_PAGE | Some p \<Rightarrow> p)"
| "node_auxiliary (Internal _ first_child _) = first_child"

definition node_image :: "node \<Rightarrow> bytes" where
  "node_image n =
    node_header (node_kind n) (word_of_nat (length (node_pairs n))) (node_level n) (node_auxiliary n) @
    pairs_bytes (node_pairs n)"

definition node_size :: "node \<Rightarrow> nat" where
  "node_size n = 32 + (\<Sum>x\<leftarrow>node_pairs n. length (fst x) + 12)"

lemma length_pairs_bytes: "length (pairs_bytes xs) = (\<Sum>x\<leftarrow>xs. length (fst x) + 12)"
  by (induction xs) simp_all

lemma length_node_image [simp]: "length (node_image n) = node_size n"
  by (simp add: node_image_def node_size_def length_pairs_bytes)

lemma count_le_size: "12 * length xs \<le> (\<Sum>x\<leftarrow>xs. length (fst x) + 12)"
  by (induction xs) simp_all

lemma header_prefix:
  assumes "32 \<le> len"
  shows "node_write_u64 (node_write_u32 ((node_prefix len level)[6 := kind]) 8 count) 16 auxiliary =
    node_header kind count level auxiliary @ replicate (len - 32) 0"
proof -
  have s: "replicate len (0 :: u8) = replicate 32 0 @ replicate (len - 32) 0"
    by (rule split_zeros [OF assms])
  have over: "patch (xs @ ys) off zs = patch xs off zs @ ys" if "off + length zs \<le> length xs"
    for xs ys zs :: bytes and off
    using that by (simp add: patch_def)
  have "node_write_u64 (node_write_u32 ((node_prefix 32 level)[6 := kind]) 8 count) 16 auxiliary =
      node_header kind count level auxiliary"
    by (simp add: node_prefix_def Let_def node_fields patch_def node_header_def NODE_MAGIC_def
        list_update_append numeral_eq_Suc replicate_append_same [symmetric])
  then show ?thesis
    unfolding node_prefix_def Let_def node_fields s
    by (simp add: over NODE_MAGIC_def list_update_append1)
qed

lemma entry_lengths_eq:
  "len + (\<Sum>k\<leftarrow>ks. k + c) \<le> usize_max \<Longrightarrow> entry_lengths len ks c = Inr (len + (\<Sum>k\<leftarrow>ks. k + c))"
  by (induction ks arbitrary: len) (simp_all add: checked_entry_length_def checked_add_usize_def add.assoc)

lemma encoded_length_eq: "node_size n \<le> usize_max \<Longrightarrow> encoded_length n = Inr (node_size n)"
  by (cases n) (simp_all add: entry_lengths_eq node_size_def node_consts comp_def case_prod_beta)

lemma node_encode_eq:
  assumes "node_size n \<le> MAX_PAGE_PAYLOAD"
  shows "node_encode n = Inr (node_image n)"
proof -
  have len: "encoded_length n = Inr (node_size n)"
    using assms by (intro encoded_length_eq) (simp add: page_consts usize_max_def)
  have "12 * length (node_pairs n) \<le> 8128"
    using assms count_le_size [of "node_pairs n"] by (simp add: node_size_def page_consts)
  then have count: "count_u32 (length (node_pairs n)) = Inr (word_of_nat (length (node_pairs n)))"
    by (simp add: count_u32_def)
  have big: "32 \<le> node_size n" by (simp add: node_size_def)
  have pairs: "write_pairs (node_header k c l a @ replicate (node_size n - 32) 0) 32 (node_pairs n) =
      node_header k c l a @ pairs_bytes (node_pairs n)" for k c l a
    by (subst write_pairs_zeros) (simp_all add: length_pairs_bytes node_size_def)
  show ?thesis
    using assms len count pairs big
    by (cases n) (simp_all add: node_encode_def Let_def header_prefix node_image_def NODE_HEADER_SIZE_def)
qed

lemma slice_middle: "i = length pre \<Longrightarrow> j = i + length xs \<Longrightarrow> slice (pre @ xs @ suf) i j = xs"
  by (simp add: slice_def)

lemma read_required_u32_at:
  assumes "cursor = length pre" "length pre + 4 \<le> usize_max"
  shows "read_required_u32 pid (pre @ le_u32 v @ suf) cursor = Inr (v, cursor + 4)"
  using assms by (simp add: read_required_u32_def checked_add_usize_def node_fields slice_middle)

lemma read_required_u64_at:
  assumes "cursor = length pre" "length pre + 8 \<le> usize_max"
  shows "read_required_u64 pid (pre @ le_u64 v @ suf) cursor = Inr (v, cursor + 8)"
  using assms by (simp add: read_required_u64_def checked_add_usize_def node_fields slice_middle)

lemma read_key_at:
  assumes "cursor = length pre" "length pre + 4 + length key \<le> usize_max" "length key < 2 ^ 32"
  shows "read_key pid (pre @ le_u32 (word_of_nat (length key)) @ key @ suf) cursor =
    Inr (key, cursor + 4 + length key)"
proof -
  let ?n = "le_u32 (word_of_nat (length key))"
  have r: "read_required_u32 pid (pre @ ?n @ key @ suf) cursor = Inr (word_of_nat (length key), cursor + 4)"
    using assms by (intro read_required_u32_at) simp_all
  have s: "slice ((pre @ ?n) @ key @ suf) (cursor + 4) (cursor + 4 + length key) = key"
    using assms(1) by (intro slice_middle) simp_all
  show ?thesis
    unfolding read_key_def r
    using assms s by (simp add: unat_word_of_nat_u32 checked_add_usize_def)
qed

text \<open>Both readers consume exactly the bytes of the pairs in front of them.\<close>

lemma read_pair_at:
  assumes "cursor = length pre" "length pre + length (pair_bytes (k, v)) \<le> usize_max" "length k < 2 ^ 32"
  shows "read_key pid (pre @ pair_bytes (k, v) @ suf) cursor = Inr (k, cursor + 4 + length k)"
    "read_required_u64 pid (pre @ pair_bytes (k, v) @ suf) (cursor + 4 + length k) =
      Inr (v, cursor + length (pair_bytes (k, v)))"
proof -
  show "read_key pid (pre @ pair_bytes (k, v) @ suf) cursor = Inr (k, cursor + 4 + length k)"
    using read_key_at [of cursor pre k pid "le_u64 v @ suf"] assms by (simp add: pair_bytes_def)
  show "read_required_u64 pid (pre @ pair_bytes (k, v) @ suf) (cursor + 4 + length k) =
      Inr (v, cursor + length (pair_bytes (k, v)))"
    using read_required_u64_at [of "cursor + 4 + length k"
        "pre @ le_u32 (word_of_nat (length k)) @ k" pid v suf] assms
    by (simp add: pair_bytes_def add.commute)
qed

lemma read_separators_at:
  "cursor = length pre \<Longrightarrow> length pre + length (pairs_bytes xs) \<le> usize_max \<Longrightarrow>
    \<forall>x\<in>set xs. length (fst x) < 2 ^ 32 \<and> snd x \<noteq> NO_PAGE \<Longrightarrow>
    read_separators pid (pre @ pairs_bytes xs @ suf) (length xs) cursor =
      Inr (xs, cursor + length (pairs_bytes xs))"
proof (induction xs arbitrary: pre cursor)
  case (Cons x xs)
  obtain k v where x: "x = (k, v)" by force
  have "read_separators pid ((pre @ pair_bytes x) @ pairs_bytes xs @ suf) (length xs)
      (cursor + length (pair_bytes x)) = Inr (xs, cursor + length (pair_bytes x) + length (pairs_bytes xs))"
    using Cons.prems by (intro Cons.IH) simp_all
  with read_pair_at [of cursor pre k v pid "pairs_bytes xs @ suf"] Cons.prems show ?case
    by (simp add: x)
qed simp

lemma read_entries_at:
  "cursor = length pre \<Longrightarrow> length pre + length (pairs_bytes xs) \<le> usize_max \<Longrightarrow>
    \<forall>x\<in>set xs. length (fst x) < 2 ^ 32 \<Longrightarrow>
    read_entries pid (pre @ pairs_bytes xs @ suf) (length xs) cursor =
      Inr (map (\<lambda>(k, v). \<lparr>ie_key = k, ie_value = v\<rparr>) xs, cursor + length (pairs_bytes xs))"
proof (induction xs arbitrary: pre cursor)
  case (Cons x xs)
  obtain k v where x: "x = (k, v)" by force
  have "read_entries pid ((pre @ pair_bytes x) @ pairs_bytes xs @ suf) (length xs)
      (cursor + length (pair_bytes x)) =
      Inr (map (\<lambda>(k, v). \<lparr>ie_key = k, ie_value = v\<rparr>) xs, cursor + length (pair_bytes x) + length (pairs_bytes xs))"
    using Cons.prems by (intro Cons.IH) simp_all
  with read_pair_at [of cursor pre k v pid "pairs_bytes xs @ suf"] Cons.prems show ?case
    by (simp add: x)
qed simp

lemma strict_from_iff: "strict_from k ks \<longleftrightarrow> sorted_wrt (<) (k # ks)"
proof (induction ks arbitrary: k)
  case (Cons x ks)
  then show ?case by (auto intro: less_trans)
qed simp

lemma ensure_strict_keys_iff [simp]: "is_ok (ensure_strict_keys pid ks) \<longleftrightarrow> sorted_wrt (<) ks"
  by (cases ks) (simp_all add: strict_from_iff del: sorted_wrt.simps(2))

lemma ensure_strict_keys_eq: "ensure_strict_keys pid ks =
    (if sorted_wrt (<) ks then Inr () else Inl (corrupt pid ''node keys are not strictly increasing'' []))"
  by (cases ks) (simp_all add: strict_from_iff del: sorted_wrt.simps(2))

text \<open>Well-formed nodes: what the format can represent.\<close>

fun node_wf :: "node \<Rightarrow> bool" where
  "node_wf (Leaf entries next) \<longleftrightarrow>
    sorted_wrt (<) (map ie_key entries) \<and> next \<noteq> Some NO_PAGE \<and> node_size (Leaf entries next) \<le> MAX_PAGE_PAYLOAD"
| "node_wf (Internal level first_child separators) \<longleftrightarrow>
    sorted_wrt (<) (map fst separators) \<and> level \<noteq> 0 \<and> first_child \<noteq> NO_PAGE \<and>
    NO_PAGE \<notin> snd ` set separators \<and> node_size (Internal level first_child separators) \<le> MAX_PAGE_PAYLOAD"

lemma node_wf_size: "node_wf n \<Longrightarrow> node_size n \<le> MAX_PAGE_PAYLOAD"
  by (cases n) simp_all

lemma header_fields:
  "slice (node_header k c l a @ xs) 0 4 = NODE_MAGIC"
  "node_read_u16 (node_header k c l a @ xs) 4 = NODE_FORMAT_VERSION"
  "(node_header k c l a @ xs) ! 6 = k" "(node_header k c l a @ xs) ! 7 = 0"
  "node_read_u32 (node_header k c l a @ xs) 8 = c"
  "node_read_u16 (node_header k c l a @ xs) 12 = l"
  "slice (node_header k c l a @ xs) 14 16 = [0, 0]"
  "node_read_u64 (node_header k c l a @ xs) 16 = a"
  "slice (node_header k c l a @ xs) 24 32 = replicate 8 0"
  by (simp_all add: node_header_def node_fields slice_def NODE_MAGIC_def nth_append)

lemma key_le_size: "x \<in> set xs \<Longrightarrow> length (fst x) \<le> (\<Sum>x\<leftarrow>xs. length (fst x) + 12)"
  by (induction xs) auto

lemma entry_eta [simp]: "\<lparr>ie_key = ie_key e, ie_value = ie_value e\<rparr> = e"
  by simp

lemma node_decode_image:
  assumes wf: "node_wf n"
  shows "node_decode pid (node_image n) = Inr n"
proof -
  let ?xs = "node_pairs n"
  have size: "node_size n \<le> 8128" using node_wf_size [OF wf] by (simp add: page_consts)
  then have keys: "\<forall>x\<in>set ?xs. length (fst x) < 2 ^ 32"
    using key_le_size [of _ ?xs] by (fastforce simp: node_size_def)
  have "12 * length ?xs \<le> 8128" using size count_le_size [of ?xs] by (simp add: node_size_def)
  then have count: "unat (word_of_nat (length ?xs) :: u32) = length ?xs"
    by (intro unat_word_of_nat_u32) simp
  have fits: "32 + length (pairs_bytes ?xs) \<le> usize_max"
    using size by (simp add: node_size_def length_pairs_bytes usize_max_def)
  have fin: "ensure_finished pid (node_image n) (32 + length (pairs_bytes ?xs)) = Inr ()"
    by (simp add: ensure_finished_def node_size_def length_pairs_bytes)
  have dispatch: "node_decode pid (node_image n) =
    (if node_kind n = LEAF_KIND then decode_leaf pid (node_image n) (length ?xs) (node_level n) (node_auxiliary n)
     else decode_internal pid (node_image n) (length ?xs) (node_level n) (node_auxiliary n))"
    unfolding node_decode_def
    by (simp add: node_size_def NODE_HEADER_SIZE_def) (simp add: node_image_def header_fields count Let_def
        list_ex_iff; cases n; simp add: node_consts)
  show ?thesis
  proof (cases n)
    case (Leaf es nx)
    have "read_entries pid (node_image n) (length ?xs) 32 =
        Inr (map (\<lambda>(k, v). \<lparr>ie_key = k, ie_value = v\<rparr>) ?xs, 32 + length (pairs_bytes ?xs))"
      using read_entries_at [of 32 _ ?xs pid "[]"] fits keys by (simp add: node_image_def)
    then show ?thesis
      using dispatch fin wf Leaf
      by (auto simp: decode_leaf_def NODE_HEADER_SIZE_def ensure_strict_keys_eq comp_def split: option.splits)
  next
    case (Internal l fc xs)
    have "\<forall>x\<in>set ?xs. length (fst x) < 2 ^ 32 \<and> snd x \<noteq> NO_PAGE"
      using keys wf Internal by (auto simp: image_iff)
    then have "read_separators pid (node_image n) (length ?xs) 32 = Inr (?xs, 32 + length (pairs_bytes ?xs))"
      using read_separators_at [of 32 _ ?xs pid "[]"] fits by (simp add: node_image_def)
    then show ?thesis
      using dispatch fin wf Internal
      by (simp add: decode_internal_def NODE_HEADER_SIZE_def ensure_strict_keys_eq node_consts)
  qed
qed

lemma node_roundtrip: "node_wf n \<Longrightarrow> node_decode pid (projr (node_encode n)) = Inr n"
  by (simp add: node_encode_eq node_wf_size node_decode_image)

interpretation node_codec: codec "\<lambda>n. projr (node_encode n)" "node_decode pid" node_wf for pid
  by unfold_locales (rule node_roundtrip)

section \<open>What a decoded node promises\<close>

lemma read_key_bounds:
  assumes "read_key pid bs cursor = Inr (k, c)"
  shows "c = cursor + 4 + length k" "c \<le> length bs" "cursor + 4 \<le> length bs"
    "slice bs cursor c = le_u32 (word_of_nat (length k)) @ k"
proof -
  obtain len where a: "cursor + 4 \<le> length bs" "len = node_read_u32 bs cursor"
    "c = cursor + 4 + unat len" "c \<le> length bs" "k = slice bs (cursor + 4) c"
    using assms
    by (auto simp: read_key_def read_required_u32_def checked_add_usize_def split: if_splits option.splits sum.splits)
  show c: "c = cursor + 4 + length k" "c \<le> length bs" "cursor + 4 \<le> length bs"
    using a(1,3,4) arg_cong [OF a(5), of length] by simp_all
  have "length k = unat len" using a(3) c(1) by linarith
  then have n: "le_u32 (word_of_nat (length k)) = slice bs cursor (cursor + 4)"
    using a(1,2) by (simp add: node_fields le_u32_of_le)
  have "slice bs cursor c = slice bs cursor (cursor + 4) @ slice bs (cursor + 4) c"
    by (rule slice_concat [symmetric]) (use a(3,4) in linarith)+
  then show "slice bs cursor c = le_u32 (word_of_nat (length k)) @ k"
    unfolding n using a(5) by metis
qed

lemma read_u64_bounds:
  assumes "read_required_u64 pid bs cursor = Inr (v, c)"
  shows "c = cursor + 8" "c \<le> length bs" "slice bs cursor c = le_u64 v"
  using assms
  by (auto simp: read_required_u64_def checked_add_usize_def node_fields le_u64_of_le split: if_splits option.splits)

lemma read_pair_bytes:
  assumes "read_key pid bs cursor = Inr (k, c)" "read_required_u64 pid bs c = Inr (v, d)"
  shows "slice bs cursor d = pair_bytes (k, v)" "cursor \<le> d" "d \<le> length bs"
  using read_key_bounds [OF assms(1)] read_u64_bounds [OF assms(2)]
    slice_concat [of cursor c d bs] by (auto simp: pair_bytes_def)

lemma read_entries_bytes:
  "read_entries pid bs n cursor = Inr (es, c) \<Longrightarrow> cursor \<le> length bs \<Longrightarrow>
    slice bs cursor c = pairs_bytes (map (\<lambda>e. (ie_key e, ie_value e)) es) \<and> cursor \<le> c \<and> c \<le> length bs \<and>
    length es = n"
proof (induction n arbitrary: cursor es)
  case (Suc n)
  then obtain k c1 v c2 xs where r: "read_key pid bs cursor = Inr (k, c1)"
    "read_required_u64 pid bs c1 = Inr (v, c2)" "read_entries pid bs n c2 = Inr (xs, c)"
    "es = \<lparr>ie_key = k, ie_value = v\<rparr> # xs"
    by (auto split: sum.splits prod.splits)
  note p = read_pair_bytes [OF r(1,2)]
  with Suc.IH [OF r(3)] r(4) slice_concat [of cursor c2 c bs] show ?case by fastforce
qed simp

lemma read_separators_bytes:
  "read_separators pid bs n cursor = Inr (xs, c) \<Longrightarrow> cursor \<le> length bs \<Longrightarrow>
    slice bs cursor c = pairs_bytes xs \<and> cursor \<le> c \<and> c \<le> length bs \<and> length xs = n \<and>
    NO_PAGE \<notin> snd ` set xs"
proof (induction n arbitrary: cursor xs)
  case (Suc n)
  then obtain k c1 v c2 ys where r: "read_key pid bs cursor = Inr (k, c1)"
    "read_required_u64 pid bs c1 = Inr (v, c2)" "read_separators pid bs n c2 = Inr (ys, c)"
    "xs = (k, v) # ys" "v \<noteq> NO_PAGE"
    by (auto split: sum.splits prod.splits if_splits)
  note p = read_pair_bytes [OF r(1,2)]
  with Suc.IH [OF r(3)] r(4,5) slice_concat [of cursor c2 c bs] show ?case by fastforce
qed simp

lemma node_decode_wf:
  assumes dec: "node_decode pid bs = Inr n" and len: "length bs \<le> MAX_PAGE_PAYLOAD"
  shows "node_wf n \<and> node_size n = length bs"
proof -
  let ?count = "unat (node_read_u32 bs 8)" and ?aux = "node_read_u64 bs 16"
  have big: "32 \<le> length bs"
    using dec by (auto simp: node_decode_def NODE_HEADER_SIZE_def split: if_splits)
  consider level where "decode_leaf pid bs ?count level ?aux = Inr n"
    | level where "decode_internal pid bs ?count level ?aux = Inr n"
    using dec by (auto simp: node_decode_def Let_def split: if_splits)
  then show ?thesis
  proof cases
    case 1
    then obtain es where r: "read_entries pid bs ?count 32 = Inr (es, length bs)"
      and n: "n = Leaf es (if ?aux \<noteq> NO_PAGE then Some ?aux else None)" "sorted_wrt (<) (map ie_key es)"
      by (auto simp: decode_leaf_def ensure_finished_def ensure_strict_keys_eq NODE_HEADER_SIZE_def
          split: if_splits sum.splits prod.splits)
    from read_entries_bytes [OF r] big have "length (pairs_bytes (node_pairs n)) = length bs - 32"
      using length_slice [of "length bs" bs 32] by (simp add: n(1))
    then have "node_size n = length bs" using big by (simp add: node_size_def length_pairs_bytes)
    with n len show ?thesis by auto
  next
    case 2
    then obtain xs where r: "read_separators pid bs ?count 32 = Inr (xs, length bs)"
      and n: "n = Internal level ?aux xs" "sorted_wrt (<) (map fst xs)" "level \<noteq> 0" "?aux \<noteq> NO_PAGE"
      by (auto simp: decode_internal_def ensure_finished_def ensure_strict_keys_eq NODE_HEADER_SIZE_def
          split: if_splits sum.splits prod.splits)
    from read_separators_bytes [OF r] big have "length (pairs_bytes xs) = length bs - 32" "NO_PAGE \<notin> snd ` set xs"
      using length_slice [of "length bs" bs 32] by auto
    then have "node_size n = length bs" "NO_PAGE \<notin> snd ` set xs"
      using big by (simp_all add: node_size_def length_pairs_bytes n(1))
    with n len show ?thesis by auto
  qed
qed

text \<open>The reserved bytes and the trailing-bytes check leave no freedom: an accepted image is the one
  the encoder writes.\<close>

lemma le_u16_of_le: "length bs = 2 \<Longrightarrow> le_u16 (of_le_u16 bs) = bs"
  using le_nat_bound [of bs]
  by (simp add: le_u16_def of_le_u16_def unat_of_nat le_bytes_le_nat)

lemma zeros_replicate: "\<not> list_ex (\<lambda>b. b \<noteq> 0) xs \<Longrightarrow> xs = replicate (length xs) (0 :: u8)"
  by (induction xs) auto

lemma header_slices:
  assumes "32 \<le> length bs"
  shows "bs = slice bs 0 4 @ slice bs 4 6 @ [bs ! 6, bs ! 7] @ slice bs 8 12 @ slice bs 12 14 @
    slice bs 14 16 @ slice bs 16 24 @ slice bs 24 32 @ slice bs 32 (length bs)"
proof -
  have "slice bs 6 8 = [bs ! 6, bs ! 7]"
    using assms by (auto intro!: nth_equalityI simp: nth_slice less_Suc_eq numeral_2_eq_2)
  moreover have "slice bs 0 4 @ slice bs 4 6 @ slice bs 6 8 @ slice bs 8 12 @ slice bs 12 14 @
    slice bs 14 16 @ slice bs 16 24 @ slice bs 24 32 @ slice bs 32 (length bs) = slice bs 0 (length bs)"
    using assms by (simp add: slice_concat)
  ultimately show ?thesis by (simp only: slice_full)
qed

lemma header_canonical:
  assumes "32 \<le> length bs" "slice bs 0 4 = NODE_MAGIC" "node_read_u16 bs 4 = NODE_FORMAT_VERSION"
    "bs ! 7 = 0" "\<not> list_ex (\<lambda>b. b \<noteq> 0) (slice bs 14 16)" "\<not> list_ex (\<lambda>b. b \<noteq> 0) (slice bs 24 32)"
  shows "bs = node_header (bs ! 6) (node_read_u32 bs 8) (node_read_u16 bs 12) (node_read_u64 bs 16) @
    slice bs 32 (length bs)"
proof -
  have f: "slice bs 4 6 = le_u16 NODE_FORMAT_VERSION" "slice bs 8 12 = le_u32 (node_read_u32 bs 8)"
    "slice bs 12 14 = le_u16 (node_read_u16 bs 12)" "slice bs 16 24 = le_u64 (node_read_u64 bs 16)"
    "slice bs 14 16 = [0, 0]" "slice bs 24 32 = replicate 8 0"
    using assms zeros_replicate [OF assms(5)] zeros_replicate [OF assms(6)]
    by (simp_all add: node_fields le_u16_of_le le_u32_of_le le_u64_of_le numeral_2_eq_2 flip: assms(3))
  show ?thesis
    by (subst header_slices [OF assms(1)], simp only: f assms(2,4)) (simp add: node_header_def)
qed

lemma node_decode_canonical:
  assumes dec: "node_decode pid bs = Inr n" and len: "length bs \<le> MAX_PAGE_PAYLOAD"
  shows "bs = node_image n"
proof -
  let ?count = "unat (node_read_u32 bs 8)" and ?aux = "node_read_u64 bs 16" and ?level = "node_read_u16 bs 12"
  have big: "32 \<le> length bs" and hdr: "bs = node_header (bs ! 6) (node_read_u32 bs 8) ?level ?aux @ slice bs 32 (length bs)"
    and kind: "bs ! 6 = LEAF_KIND \<and> decode_leaf pid bs ?count ?level ?aux = Inr n \<or>
      bs ! 6 = INTERNAL_KIND \<and> decode_internal pid bs ?count ?level ?aux = Inr n"
    using dec header_canonical [of bs]
    by (auto simp: node_decode_def Let_def NODE_HEADER_SIZE_def split: if_splits)
  from kind show ?thesis
  proof
    assume l: "bs ! 6 = LEAF_KIND \<and> decode_leaf pid bs ?count ?level ?aux = Inr n"
    then obtain es where r: "read_entries pid bs ?count 32 = Inr (es, length bs)" "?level = 0"
      and n: "n = Leaf es (if ?aux \<noteq> NO_PAGE then Some ?aux else None)"
      by (auto simp: decode_leaf_def ensure_finished_def ensure_strict_keys_eq NODE_HEADER_SIZE_def
          split: if_splits sum.splits prod.splits)
    from read_entries_bytes [OF r(1) big] have
      "slice bs 32 (length bs) = pairs_bytes (node_pairs n)" "word_of_nat (length es) = node_read_u32 bs 8"
      by (auto simp: n)
    then have "node_image n = node_header (bs ! 6) (node_read_u32 bs 8) ?level ?aux @ slice bs 32 (length bs)"
      using conjunct1 [OF l] r(2) by (simp add: node_image_def n)
    with hdr show ?thesis by simp
  next
    assume l: "bs ! 6 = INTERNAL_KIND \<and> decode_internal pid bs ?count ?level ?aux = Inr n"
    then obtain xs where r: "read_separators pid bs ?count 32 = Inr (xs, length bs)"
      and n: "n = Internal ?level ?aux xs"
      by (auto simp: decode_internal_def ensure_finished_def ensure_strict_keys_eq NODE_HEADER_SIZE_def
          split: if_splits sum.splits prod.splits)
    from read_separators_bytes [OF r big] have
      "slice bs 32 (length bs) = pairs_bytes (node_pairs n)" "word_of_nat (length xs) = node_read_u32 bs 8"
      by (auto simp: n)
    then have "node_image n = node_header (bs ! 6) (node_read_u32 bs 8) ?level ?aux @ slice bs 32 (length bs)"
      using conjunct1 [OF l] by (simp add: node_image_def n)
    with hdr show ?thesis by simp
  qed
qed

section \<open>Properties\<close>

text \<open>C22: the decoder accepts exactly the images the encoder writes for well-formed nodes: a page
  payload decodes to a node just when the node has strictly increasing keys, a level and page
  references the format allows and fits into a page, and its encoding is that payload.\<close>

theorem node_decode_iff_encode:
  assumes "length bs \<le> MAX_PAGE_PAYLOAD"
  shows "node_decode pid bs = Inr n \<longleftrightarrow> node_wf n \<and> node_encode n = Inr bs"
proof
  assume dec: "node_decode pid bs = Inr n"
  have wf: "node_wf n" using node_decode_wf [OF dec assms] by blast
  show "node_wf n \<and> node_encode n = Inr bs"
    unfolding node_encode_eq [OF node_wf_size [OF wf]] node_decode_canonical [OF dec assms, symmetric]
    using wf by simp
next
  assume "node_wf n \<and> node_encode n = Inr bs"
  then show "node_decode pid bs = Inr n" using node_codec.roundtrip [of n pid] by simp
qed

definition sample_leaf :: node where
  "sample_leaf = Leaf [\<lparr>ie_key = [1], ie_value = 7\<rparr>, \<lparr>ie_key = [1, 2], ie_value = 9\<rparr>] (Some 4)"

lemma sample_leaf_wf: "node_wf sample_leaf"
  by (simp add: sample_leaf_def node_size_def page_consts NO_PAGE_def)

theorem node_decode_iff_encode_witness:
  "node_decode 3 (node_image sample_leaf) = Inr sample_leaf"
  using node_decode_iff_encode [of "node_image sample_leaf" 3 sample_leaf]
    sample_leaf_wf node_wf_size [OF sample_leaf_wf] node_encode_eq [of sample_leaf] by simp

end
