(* ===== verification/Byte_Lru.thy ===== *)
theory Byte_Lru
  imports Containers
begin

text \<open>
  Model of \<open>storage/src/byte_lru.rs\<close>: the byte-bounded LRU cache of values derived from immutable
  pages. The mutex is not part of the state and is assumed not to be poisoned; an \<open>Arc\<close> is the
  value it points to. The counters are \<open>u64\<close> and wrap like release builds do. The locale
  \<open>page_cache\<close> is what the readers above the storage layer rely on; the lemmas about reading
  through a cache are proved in it once.
\<close>

section \<open>State\<close>

record cache_stats =
  cs_hits :: u64
  cs_misses :: u64
  cs_entries :: nat
  cs_bytes :: nat

record 'v lru_entry =
  entry_value :: 'v
  entry_bytes :: nat
  entry_tick :: u64

record 'v lru =
  lru_map :: "(u64 \<times> 'v lru_entry) list"
  recency :: "(u64 \<times> u64) list"
  next_tick :: u64
  lru_bytes :: nat
  lru_capacity :: nat
  lru_hits :: u64
  lru_misses :: u64

section \<open>Operations\<close>

definition lru_new :: "nat \<Rightarrow> 'v lru" where
  "lru_new capacity_bytes =
    \<lparr>lru_map = [], recency = [], next_tick = 0, lru_bytes = 0, lru_capacity = capacity_bytes,
     lru_hits = 0, lru_misses = 0\<rparr>"

definition lru_stats :: "'v lru \<Rightarrow> cache_stats" where
  "lru_stats c =
    \<lparr>cs_hits = lru_hits c, cs_misses = lru_misses c, cs_entries = length (lru_map c),
     cs_bytes = lru_bytes c\<rparr>"

definition take_tick :: "'v lru \<Rightarrow> u64 \<times> 'v lru" where
  "take_tick c = (next_tick c, c\<lparr>next_tick := next_tick c + 1\<rparr>)"

definition lru_get :: "u64 \<Rightarrow> 'v lru \<Rightarrow> 'v option \<times> 'v lru" where
  "lru_get pid c =
    (case take_tick c of (tick, c) \<Rightarrow>
      (case map_of (lru_map c) pid of
         Some entry \<Rightarrow>
           (Some (entry_value entry),
            c\<lparr>lru_map := AList.update pid (entry\<lparr>entry_tick := tick\<rparr>) (lru_map c),
              recency := bt_insert tick pid (bt_remove (entry_tick entry) (recency c)),
              lru_hits := lru_hits c + 1\<rparr>)
       | None \<Rightarrow> (None, c\<lparr>lru_misses := lru_misses c + 1\<rparr>)))"

definition lru_remove :: "u64 \<Rightarrow> 'v lru \<Rightarrow> 'v lru" where
  "lru_remove pid c =
    (case map_of (lru_map c) pid of
       Some entry \<Rightarrow>
         c\<lparr>lru_map := AList.delete pid (lru_map c),
           recency := bt_remove (entry_tick entry) (recency c),
           lru_bytes := lru_bytes c - entry_bytes entry\<rparr>
     | None \<Rightarrow> c)"

text \<open>The part of \<open>insert\<close> that replaces the entry, and its eviction loop.\<close>

definition lru_replace :: "u64 \<Rightarrow> 'v \<Rightarrow> nat \<Rightarrow> 'v lru \<Rightarrow> 'v lru" where
  "lru_replace pid v n c =
    (case take_tick c of (tick, c) \<Rightarrow>
      let previous = map_of (lru_map c) pid;
          c = c\<lparr>lru_map := AList.update pid \<lparr>entry_value = v, entry_bytes = n, entry_tick = tick\<rparr> (lru_map c)\<rparr>;
          c = (case previous of
                 Some entry \<Rightarrow>
                   c\<lparr>recency := bt_remove (entry_tick entry) (recency c),
                     lru_bytes := lru_bytes c - entry_bytes entry\<rparr>
               | None \<Rightarrow> c)
      in c\<lparr>recency := bt_insert tick pid (recency c), lru_bytes := lru_bytes c + n\<rparr>)"

definition evict_oldest :: "u64 \<Rightarrow> (u64 \<times> u64) list \<Rightarrow> 'v lru \<Rightarrow> 'v lru" where
  "evict_oldest oldest rest c =
    (case map_of (lru_map c) oldest of
       Some evicted \<Rightarrow>
         c\<lparr>recency := rest, lru_map := AList.delete oldest (lru_map c),
           lru_bytes := lru_bytes c - entry_bytes evicted\<rparr>
     | None \<Rightarrow> c\<lparr>recency := rest\<rparr>)"

lemma recency_evict_oldest [simp]: "recency (evict_oldest p r c) = r"
  by (simp add: evict_oldest_def split: option.splits)

function evict :: "'v lru \<Rightarrow> 'v lru" where
  "evict c =
    (if lru_bytes c > lru_capacity c then
       (case recency c of
          [] \<Rightarrow> c
        | (_, oldest) # rest \<Rightarrow> evict (evict_oldest oldest rest c))
     else c)"
  by pat_completeness auto
termination
  by (relation "measure (\<lambda>c. length (recency c))") auto

declare evict.simps [simp del]

lemma evict_stop: "lru_bytes c \<le> lru_capacity c \<or> recency c = [] \<Longrightarrow> evict c = c"
  by (subst evict.simps) auto

lemma evict_step:
  "lru_bytes c > lru_capacity c \<Longrightarrow> recency c = (t, p) # r \<Longrightarrow> evict c = evict (evict_oldest p r c)"
  by (subst evict.simps) simp

lemma evict_induct [case_names Stop Step]:
  assumes "\<And>c. lru_bytes c \<le> lru_capacity c \<or> recency c = [] \<Longrightarrow> P c"
    and "\<And>c t p r. lru_bytes c > lru_capacity c \<Longrightarrow> recency c = (t, p) # r \<Longrightarrow>
      P (evict_oldest p r c) \<Longrightarrow> P c"
  shows "P c"
proof (induction c rule: evict.induct)
  case (1 c)
  show ?case
  proof (cases "lru_bytes c > lru_capacity c \<and> recency c \<noteq> []")
    case True
    then obtain x r where x: "recency c = x # r" by (meson list.exhaust)
    obtain t p where "x = (t, p)" by force
    with x have r: "recency c = (t, p) # r" by simp
    with 1 True have "P (evict_oldest p r c)" by blast
    with True r show ?thesis by (blast intro: assms(2))
  qed (use assms(1) in auto)
qed

definition lru_insert :: "u64 \<Rightarrow> 'v \<Rightarrow> nat \<Rightarrow> 'v lru \<Rightarrow> 'v lru" where
  "lru_insert pid v n c = (if n > lru_capacity c then c else evict (lru_replace pid v n c))"

section \<open>What a cache holds\<close>

definition lru_lookup :: "'v lru \<Rightarrow> u64 \<Rightarrow> 'v option" where
  "lru_lookup c pid = map_option entry_value (map_of (lru_map c) pid)"

definition cache_coherent :: "(u64 \<Rightarrow> 'v option) \<Rightarrow> (u64 \<Rightarrow> 'e + 'v) \<Rightarrow> bool" where
  "cache_coherent look load \<longleftrightarrow> (\<forall>p v. look p = Some v \<longrightarrow> load p = Inr v)"

definition read_through ::
    "(u64 \<Rightarrow> 'c \<Rightarrow> 'v option \<times> 'c) \<Rightarrow> (u64 \<Rightarrow> 'v \<Rightarrow> 'c \<Rightarrow> 'c) \<Rightarrow> (u64 \<Rightarrow> 'e + 'v) \<Rightarrow> u64 \<Rightarrow> 'c \<Rightarrow>
     ('e + 'v) \<times> 'c" where
  "read_through get put load pid c =
    (case get pid c of
       (Some v, c) \<Rightarrow> (Inr v, c)
     | (None, c) \<Rightarrow>
         (case load pid of
            Inl e \<Rightarrow> (Inl e, c)
          | Inr v \<Rightarrow> (Inr v, put pid v c)))"

locale page_cache =
  fixes look :: "'c \<Rightarrow> u64 \<Rightarrow> 'v option"
    and get :: "u64 \<Rightarrow> 'c \<Rightarrow> 'v option \<times> 'c"
    and put :: "u64 \<Rightarrow> 'v \<Rightarrow> 'c \<Rightarrow> 'c"
  assumes get_value: "fst (get p c) = look c p"
    and get_keeps: "look (snd (get p c)) q = look c q"
    and put_sound: "look (put p v c) q = Some w \<Longrightarrow> q = p \<and> w = v \<or> look c q = Some w"
begin

lemma read_through_value:
  assumes "cache_coherent (look c) load"
  shows "fst (read_through get put load p c) = load p"
  using assms get_value [of p c, symmetric]
  by (auto simp: read_through_def cache_coherent_def split: prod.splits option.splits sum.splits)

lemma read_through_coherent:
  assumes "cache_coherent (look c) load"
  shows "cache_coherent (look (snd (read_through get put load p c))) load"
proof (cases "load p")
  case (Inl e)
  then show ?thesis
    using assms get_keeps [of p c]
    by (auto simp: read_through_def cache_coherent_def split: prod.splits option.splits)
next
  case (Inr v)
  then show ?thesis
    using assms get_keeps [of p c] put_sound [of p v "snd (get p c)"]
    by (fastforce simp: read_through_def cache_coherent_def split: prod.splits option.splits)
qed

end

lemma lookup_evict: "lru_lookup (evict c) q = Some w \<Longrightarrow> lru_lookup c q = Some w"
proof (induction c rule: evict_induct)
  case (Step c t p r)
  then have "lru_lookup (evict_oldest p r c) q = Some w" by (simp add: evict_step)
  then show ?case
    by (auto simp: lru_lookup_def evict_oldest_def delete_conv' split: option.splits if_splits)
qed (simp add: evict_stop)

lemma lookup_replace: "lru_lookup (lru_replace p v n c) q = (if q = p then Some v else lru_lookup c q)"
  by (simp add: lru_replace_def take_tick_def lru_lookup_def Let_def update_conv' split: option.splits)

interpretation lru_cache: page_cache lru_lookup lru_get "\<lambda>p v. lru_insert p v (size_of v)" for size_of
proof unfold_locales
  show "fst (lru_get p c) = lru_lookup c p" for p and c :: "'a lru"
    by (simp add: lru_get_def take_tick_def lru_lookup_def split: option.splits)
  show "lru_lookup (snd (lru_get p c)) q = lru_lookup c q" for p q and c :: "'a lru"
    by (simp add: lru_get_def take_tick_def lru_lookup_def update_conv' split: option.splits)
  show "q = p \<and> w = v \<or> lru_lookup c q = Some w"
    if "lru_lookup (lru_insert p v (size_of v) c) q = Some w" for p q v w and c :: "'a lru"
    using that lookup_evict [of "lru_replace p v (size_of v) c" q w]
    by (auto simp: lru_insert_def lookup_replace split: if_splits)
qed

section \<open>The invariant\<close>

definition lru_total :: "(u64 \<times> 'v lru_entry) list \<Rightarrow> nat" where
  "lru_total m = (\<Sum>(p, e)\<leftarrow>m. entry_bytes e)"

definition lru_inv :: "'v lru \<Rightarrow> bool" where
  "lru_inv c \<longleftrightarrow>
    distinct (map fst (lru_map c)) \<and> bt_sorted (recency c) \<and>
    (\<forall>x\<in>set (recency c). fst x < next_tick c) \<and>
    (\<forall>t p. (t, p) \<in> set (recency c) \<longleftrightarrow> map_option entry_tick (map_of (lru_map c) p) = Some t) \<and>
    lru_bytes c = lru_total (lru_map c)"

lemma lru_total_simps [simp]:
  "lru_total [] = 0" "lru_total ((p, e) # m) = entry_bytes e + lru_total m"
  by (simp_all add: lru_total_def)

lemma lru_total_ge: "map_of m p = Some e \<Longrightarrow> entry_bytes e \<le> lru_total m"
  by (induction m) (auto split: if_splits)

lemma delete_fresh: "p \<notin> fst ` set m \<Longrightarrow> AList.delete p m = m"
  by (simp add: delete_id)

lemma lru_total_delete:
  "distinct (map fst m) \<Longrightarrow> map_of m p = Some e \<Longrightarrow>
    lru_total (AList.delete p m) = lru_total m - entry_bytes e"
proof (induction m)
  case (Cons x m)
  obtain q d where x: "x = (q, d)" by force
  show ?case
  proof (cases "p = q")
    case True
    with Cons.prems x show ?thesis by (simp add: delete_fresh)
  next
    case False
    with Cons x have "lru_total (AList.delete p m) = lru_total m - entry_bytes e" "map_of m p = Some e"
      by auto
    with False x show ?thesis using lru_total_ge [of m p e] by simp
  qed
qed simp

lemma lru_total_update:
  assumes "distinct (map fst m)"
  shows "lru_total (AList.update p e m) =
    (case map_of m p of Some d \<Rightarrow> lru_total m - entry_bytes d | None \<Rightarrow> lru_total m) + entry_bytes e"
  using assms
proof (induction m)
  case (Cons x m)
  obtain q d where x: "x = (q, d)" by force
  with Cons have IH: "lru_total (AList.update p e m) =
    (case map_of m p of Some d \<Rightarrow> lru_total m - entry_bytes d | None \<Rightarrow> lru_total m) + entry_bytes e"
    by simp
  show ?case
  proof (cases "map_of m p")
    case None
    with x IH show ?thesis by auto
  next
    case (Some b)
    with x IH lru_total_ge [OF Some] Cons.prems show ?thesis by (auto simp: rev_image_eqI)
  qed
qed simp

lemma lru_invD:
  assumes "lru_inv c"
  shows "distinct (map fst (lru_map c))" "bt_sorted (recency c)"
    and "x \<in> set (recency c) \<Longrightarrow> fst x < next_tick c"
    and "(t, p) \<in> set (recency c) \<longleftrightarrow> map_option entry_tick (map_of (lru_map c) p) = Some t"
    and "lru_bytes c = lru_total (lru_map c)"
  using assms by (simp_all add: lru_inv_def)

lemma lru_invI:
  assumes "distinct (map fst (lru_map c))" "bt_sorted (recency c)"
    and "\<And>x. x \<in> set (recency c) \<Longrightarrow> fst x < next_tick c"
    and "\<And>t p. (t, p) \<in> set (recency c) \<longleftrightarrow> map_option entry_tick (map_of (lru_map c) p) = Some t"
    and "lru_bytes c = lru_total (lru_map c)"
  shows "lru_inv c"
  unfolding lru_inv_def using assms by blast

lemma lru_inv_new: "lru_inv (lru_new n)"
  by (simp add: lru_inv_def lru_new_def)

lemma lru_inv_empty_recency: "lru_inv c \<Longrightarrow> recency c = [] \<Longrightarrow> lru_map c = []"
  by (cases "lru_map c") (auto simp: lru_inv_def split: if_splits)

text \<open>Dropping a page from the map and its tick from the recency order.\<close>

lemma lru_inv_drop:
  assumes inv: "lru_inv c" and e: "map_of (lru_map c) p = Some e"
  shows "lru_inv (c\<lparr>recency := bt_remove (entry_tick e) (recency c),
    lru_map := AList.delete p (lru_map c), lru_bytes := lru_bytes c - entry_bytes e\<rparr>)"
proof -
  note D = lru_invD [OF inv]
  have unique: "q = p" if "(entry_tick e, q) \<in> set (recency c)" for q
  proof -
    have "(entry_tick e, p) \<in> set (recency c)" using D(4) e by simp
    with that show ?thesis using bt_sorted_distinct [OF D(2)] by (meson eq_key_imp_eq_value)
  qed
  have iff: "(t, q) \<in> set (bt_remove (entry_tick e) (recency c)) \<longleftrightarrow>
      map_option entry_tick (map_of (AList.delete p (lru_map c)) q) = Some t" for t q
    using unique [of q] D(4) [of t q] e by (auto simp: set_bt_remove delete_conv')
  show ?thesis
  proof (rule lru_invI, goal_cases)
    case 1
    then show ?case using D(1) by (simp add: distinct_delete)
  next
    case 5
    then show ?case using D(1,5) e by (simp add: lru_total_delete)
  qed (use bt_sorted_remove [OF D(2)] D(3) iff in \<open>auto simp: set_bt_remove simp del: map_option_eq_Some\<close>)
qed

lemma bt_remove_hd: "bt_sorted ((t, p) # r) \<Longrightarrow> bt_remove t ((t, p) # r) = r"
  by (auto simp: bt_remove_def intro!: filter_True)

lemma lru_inv_evict_oldest:
  assumes inv: "lru_inv c" and r: "recency c = (t, p) # r"
  shows "lru_inv (evict_oldest p r c)"
proof -
  obtain e where e: "map_of (lru_map c) p = Some e" "entry_tick e = t"
    using lru_invD(4) [OF inv, of t p] r by auto
  have "bt_remove t (recency c) = r"
    using lru_invD(2) [OF inv] r bt_remove_hd [of t p r] by simp
  with lru_inv_drop [OF inv e(1)] e show ?thesis by (simp add: evict_oldest_def)
qed

lemma lru_inv_evict: "lru_inv c \<Longrightarrow> lru_inv (evict c)"
  by (induction c rule: evict_induct) (simp_all add: evict_stop evict_step lru_inv_evict_oldest)

lemma capacity_evict_oldest [simp]: "lru_capacity (evict_oldest p r c) = lru_capacity c"
  by (simp add: evict_oldest_def split: option.splits)

lemma capacity_evict [simp]: "lru_capacity (evict c) = lru_capacity c"
  by (induction c rule: evict_induct) (simp_all add: evict_stop evict_step)

lemma evict_within_budget: "lru_inv c \<Longrightarrow> lru_bytes (evict c) \<le> lru_capacity c"
proof (induction c rule: evict_induct)
  case (Stop c)
  then show ?case
    using lru_inv_empty_recency [of c] lru_invD(5) [of c] by (auto simp: evict_stop)
qed (simp add: evict_step lru_inv_evict_oldest)

lemma word_less_Suc:
  assumes "n \<noteq> - 1" "x \<le> n"
  shows "x < n + (1 :: u64)"
proof -
  have "1 + n \<noteq> 0" using assms(1) by (metis add.commute add_eq_0_iff)
  then have "unat (n + 1) = Suc (unat n)" using unatSuc [of n] by (simp add: add.commute)
  with assms(2) show ?thesis by (simp add: word_less_nat_alt word_le_nat_alt)
qed

text \<open>Giving a page, present before or not, an entry with the next tick.\<close>

definition without_tick :: "'v lru_entry option \<Rightarrow> (u64 \<times> u64) list \<Rightarrow> (u64 \<times> u64) list" where
  "without_tick previous r =
    (case previous of Some e \<Rightarrow> bt_remove (entry_tick e) r | None \<Rightarrow> r)"

lemma set_without_tick:
  assumes inv: "lru_inv c"
  shows "(t, q) \<in> set (without_tick (map_of (lru_map c) p) (recency c)) \<longleftrightarrow>
    q \<noteq> p \<and> (t, q) \<in> set (recency c)"
proof (cases "map_of (lru_map c) p")
  case None
  then show ?thesis using lru_invD(4) [OF inv, of t p] by (auto simp: without_tick_def)
next
  case (Some e)
  have "(entry_tick e, p) \<in> set (recency c)" using lru_invD(4) [OF inv] Some by simp
  then have "q = p" if "(entry_tick e, q) \<in> set (recency c)" for q
    using that bt_sorted_distinct [OF lru_invD(2) [OF inv]] by (meson eq_key_imp_eq_value)
  moreover have "t = entry_tick e" if "(t, p) \<in> set (recency c)"
    using that lru_invD(4) [OF inv, of t p] Some by simp
  ultimately show ?thesis using Some by (auto simp: without_tick_def set_bt_remove)
qed

lemma lru_inv_touch:
  assumes inv: "lru_inv c" and tick: "next_tick c \<noteq> - 1" and e: "entry_tick e = next_tick c"
  shows "lru_inv (c\<lparr>lru_map := AList.update p e (lru_map c),
    recency := bt_insert (next_tick c) p (without_tick (map_of (lru_map c) p) (recency c)),
    next_tick := next_tick c + 1,
    lru_bytes := (case map_of (lru_map c) p of Some d \<Rightarrow> lru_bytes c - entry_bytes d
       | None \<Rightarrow> lru_bytes c) + entry_bytes e\<rparr>)"
proof -
  note D = lru_invD [OF inv]
  let ?r = "without_tick (map_of (lru_map c) p) (recency c)"
  have srt: "bt_sorted ?r"
    using D(2) by (auto simp: without_tick_def bt_sorted_remove split: option.splits)
  have old: "fst x < next_tick c" if "x \<in> set ?r" for x
    using that D(3) by (auto simp: without_tick_def set_bt_remove split: option.splits)
  have ins: "bt_insert (next_tick c) p ?r = ?r @ [(next_tick c, p)]"
    using old by (simp add: bt_insert_last)
  have iff: "(t, q) \<in> set (?r @ [(next_tick c, p)]) \<longleftrightarrow>
      map_option entry_tick (map_of (AList.update p e (lru_map c)) q) = Some t" for t q
    using set_without_tick [OF inv, of t q p] D(4) [of t q] e
    by (cases "q = p") (auto simp: update_conv')
  show ?thesis
    unfolding ins
  proof (rule lru_invI, goal_cases)
    case 1
    then show ?case using D(1) by (simp add: distinct_update)
  next
    case 2
    then show ?case using srt old by (simp add: sorted_wrt_append)
  next
    case (3 x)
    then have "fst x \<le> next_tick c" using old [of x] by auto
    then show ?case using word_less_Suc [OF tick] by simp
  next
    case (4 t q)
    show ?case using iff [of t q] by simp
  next
    case 5
    then show ?case using D(1,5) by (simp add: lru_total_update split: option.splits)
  qed
qed

lemma lru_inv_counters [simp]:
  "lru_inv (c\<lparr>lru_hits := h\<rparr>) = lru_inv c" "lru_inv (c\<lparr>lru_misses := m\<rparr>) = lru_inv c"
  by (simp_all add: lru_inv_def)

lemma lru_inv_skip_tick:
  "lru_inv c \<Longrightarrow> next_tick c \<noteq> - 1 \<Longrightarrow> lru_inv (c\<lparr>next_tick := next_tick c + 1\<rparr>)"
  by (auto simp: lru_inv_def intro!: word_less_Suc)

lemma lru_inv_replace:
  assumes "lru_inv c" "next_tick c \<noteq> - 1"
  shows "lru_inv (lru_replace p v n c)"
proof -
  have "lru_replace p v n c = c\<lparr>lru_map := AList.update p \<lparr>entry_value = v, entry_bytes = n,
        entry_tick = next_tick c\<rparr> (lru_map c),
      recency := bt_insert (next_tick c) p (without_tick (map_of (lru_map c) p) (recency c)),
      next_tick := next_tick c + 1,
      lru_bytes := (case map_of (lru_map c) p of Some d \<Rightarrow> lru_bytes c - entry_bytes d
         | None \<Rightarrow> lru_bytes c) + n\<rparr>"
    by (simp add: lru_replace_def take_tick_def without_tick_def Let_def split: option.splits)
  with lru_inv_touch [OF assms, of "\<lparr>entry_value = v, entry_bytes = n, entry_tick = next_tick c\<rparr>" p]
  show ?thesis by simp
qed

lemma lru_inv_get:
  assumes inv: "lru_inv c" and tick: "next_tick c \<noteq> - 1"
  shows "lru_inv (snd (lru_get p c))"
proof (cases "map_of (lru_map c) p")
  case None
  with lru_inv_skip_tick [OF assms] show ?thesis by (simp add: lru_get_def take_tick_def)
next
  case (Some e)
  have "entry_bytes e \<le> lru_bytes c"
    using lru_total_ge [OF Some] lru_invD(5) [OF inv] by simp
  with lru_inv_touch [OF assms, of "e\<lparr>entry_tick := next_tick c\<rparr>" p] Some show ?thesis
    by (simp add: lru_get_def take_tick_def without_tick_def lru_inv_def)
qed

lemma lru_inv_remove:
  assumes "lru_inv c"
  shows "lru_inv (lru_remove p c)"
proof (cases "map_of (lru_map c) p")
  case (Some e)
  with lru_inv_drop [OF assms Some] show ?thesis by (simp add: lru_remove_def lru_inv_def)
qed (simp add: lru_remove_def assms)

lemma lru_inv_insert: "lru_inv c \<Longrightarrow> next_tick c \<noteq> - 1 \<Longrightarrow> lru_inv (lru_insert p v n c)"
  by (simp add: lru_insert_def lru_inv_evict lru_inv_replace)

section \<open>Budget and recency\<close>

lemma replace_last:
  assumes "lru_inv c"
  shows "\<exists>xs. recency (lru_replace p v n c) = xs @ [(next_tick c, p)]"
proof -
  have "\<forall>x\<in>set (without_tick (map_of (lru_map c) p) (recency c)). fst x < next_tick c"
    using lru_invD(3) [OF assms] by (auto simp: without_tick_def set_bt_remove split: option.splits)
  from bt_insert_last [OF this, of p] show ?thesis
    by (auto simp: lru_replace_def take_tick_def without_tick_def Let_def split: option.splits)
qed

text \<open>The page at the end of the recency order is never evicted when it fits by itself.\<close>

lemma evict_keeps_last:
  "lru_inv c \<Longrightarrow> recency c = xs @ [(t, p)] \<Longrightarrow> map_of (lru_map c) p = Some e \<Longrightarrow>
    entry_bytes e \<le> lru_capacity c \<Longrightarrow> map_of (lru_map (evict c)) p = Some e"
proof (induction c arbitrary: xs rule: evict_induct)
  case (Stop c)
  then show ?case by (simp add: evict_stop)
next
  case (Step c t' q r)
  note D = lru_invD [OF Step.prems(1)]
  show ?case
  proof (cases xs)
    case Nil
    with Step have one: "recency c = [(t, p)]" by simp
    have "fst ` set (lru_map c) \<subseteq> {p}"
    proof
      fix q assume "q \<in> fst ` set (lru_map c)"
      then obtain d where "map_of (lru_map c) q = Some d"
        by (metis domIff dom_map_of_conv_image_fst not_Some_eq)
      with D(4) [of "entry_tick d" q] one show "q \<in> {p}" by simp
    qed
    moreover have "(p, e) \<in> set (lru_map c)" using Step.prems(3) by (rule map_of_SomeD)
    ultimately have "lru_map c = [(p, e)]"
      using D(1) by (cases "lru_map c"; cases "tl (lru_map c)") auto
    with D(5) Step show ?thesis by simp
  next
    case (Cons y ys)
    with Step have y: "y = (t', q)" "r = ys @ [(t, p)]" by auto
    have "q \<noteq> p"
    proof
      assume "q = p"
      with y Step.prems(2) Cons D(4) [of t' p] D(4) [of t p] have "t' = t" by auto
      with y Step.prems(2) Cons bt_sorted_distinct [OF D(2)] show False by simp
    qed
    then have "map_of (lru_map (evict_oldest q r c)) p = Some e"
      using Step.prems(3) by (simp add: evict_oldest_def delete_conv' split: option.splits)
    with Step.IH [of ys] y Step.prems Step.hyps lru_inv_evict_oldest [OF Step.prems(1) Step.hyps(2)]
    show ?thesis by (simp add: evict_step)
  qed
qed

lemma evict_suffix: "\<exists>zs. recency c = zs @ recency (evict c)"
proof (induction c rule: evict_induct)
  case (Step c t p r)
  then obtain zs where "r = zs @ recency (evict (evict_oldest p r c))" by auto
  with Step show ?case by (intro exI [of _ "(t, p) # zs"]) (simp add: evict_step)
qed (simp add: evict_stop)

lemma evict_entry: "map_of (lru_map (evict c)) q = Some e \<Longrightarrow> map_of (lru_map c) q = Some e"
proof (induction c rule: evict_induct)
  case (Step c t p r)
  then have "map_of (lru_map (evict_oldest p r c)) q = Some e" by (simp add: evict_step)
  then show ?case by (auto simp: evict_oldest_def delete_conv' split: option.splits if_splits)
qed (simp add: evict_stop)

lemma evict_order:
  assumes inv: "lru_inv c"
    and gone: "map_of (lru_map c) q = Some d" "map_of (lru_map (evict c)) q = None"
    and kept: "map_of (lru_map (evict c)) r = Some e"
  shows "entry_tick d < entry_tick e"
proof -
  obtain zs where zs: "recency c = zs @ recency (evict c)" using evict_suffix by blast
  have "(entry_tick d, q) \<in> set (recency c)" using lru_invD(4) [OF inv] gone by simp
  moreover have "(entry_tick d, q) \<notin> set (recency (evict c))"
    using lru_invD(4) [OF lru_inv_evict [OF inv]] gone by simp
  ultimately have "(entry_tick d, q) \<in> set zs" using zs by simp
  moreover have "(entry_tick e, r) \<in> set (recency (evict c))"
    using lru_invD(4) [OF lru_inv_evict [OF inv]] kept by simp
  moreover have "bt_sorted (zs @ recency (evict c))" using lru_invD(2) [OF inv] zs by simp
  ultimately show ?thesis by (force simp: sorted_wrt_append)
qed

lemma map_of_replace_other:
  "q \<noteq> p \<Longrightarrow> map_of (lru_map (lru_replace p v n c)) q = map_of (lru_map c) q"
  by (simp add: lru_replace_def take_tick_def Let_def update_conv' split: option.splits)

lemma capacity_ops [simp]:
  "lru_capacity (snd (lru_get p c)) = lru_capacity c"
  "lru_capacity (lru_remove p c) = lru_capacity c"
  "lru_capacity (lru_replace p v n c) = lru_capacity c"
  by (simp_all add: lru_get_def lru_remove_def lru_replace_def take_tick_def Let_def split: option.splits)

lemma capacity_insert [simp]: "lru_capacity (lru_insert p v n c) = lru_capacity c"
  by (simp add: lru_insert_def)

lemma tick_evict_oldest [simp]: "next_tick (evict_oldest p r c) = next_tick c"
  by (simp add: evict_oldest_def split: option.splits)

lemma tick_evict [simp]: "next_tick (evict c) = next_tick c"
  by (induction c rule: evict_induct) (simp_all add: evict_stop evict_step)

section \<open>Sequences of operations\<close>

datatype 'v lru_op = Get u64 | Insert u64 'v nat | Remove u64

fun lru_apply :: "'v lru_op \<Rightarrow> 'v lru \<Rightarrow> 'v lru" where
  "lru_apply (Get p) c = snd (lru_get p c)"
| "lru_apply (Insert p v n) c = lru_insert p v n c"
| "lru_apply (Remove p) c = lru_remove p c"

definition lru_ok :: "nat \<Rightarrow> 'v lru \<Rightarrow> bool" where
  "lru_ok cap c \<longleftrightarrow> lru_inv c \<and> lru_capacity c = cap \<and> lru_bytes c \<le> cap"

lemma lru_ok_apply:
  assumes "lru_ok cap c" "next_tick c \<noteq> - 1"
  shows "lru_ok cap (lru_apply a c)"
proof -
  have inv: "lru_inv c" and cap: "lru_capacity c = cap" "lru_bytes c \<le> cap"
    using assms(1) by (simp_all add: lru_ok_def)
  show ?thesis
  proof (cases a)
    case (Get p)
    have "lru_bytes (snd (lru_get p c)) = lru_bytes c"
      by (simp add: lru_get_def take_tick_def split: option.splits)
    with Get cap lru_inv_get [OF inv assms(2)] show ?thesis by (simp add: lru_ok_def)
  next
    case (Insert p v n)
    have "lru_bytes (lru_insert p v n c) \<le> cap"
      using evict_within_budget [OF lru_inv_replace [OF inv assms(2)], of p v n] cap
      by (simp add: lru_insert_def)
    with Insert cap lru_inv_insert [OF inv assms(2)] show ?thesis by (simp add: lru_ok_def)
  next
    case (Remove p)
    have "lru_bytes (lru_remove p c) \<le> lru_bytes c"
      by (simp add: lru_remove_def split: option.splits)
    with Remove cap lru_inv_remove [OF inv] show ?thesis by (simp add: lru_ok_def)
  qed
qed

lemma tick_apply: "unat (next_tick (lru_apply a c)) \<le> Suc (unat (next_tick c))"
proof -
  have "unat (x + 1 :: u64) \<le> Suc (unat x)" for x
    by (simp add: unat_word_ariths)
  then show ?thesis
    by (cases a) (simp_all add: lru_get_def lru_remove_def lru_insert_def lru_replace_def
        take_tick_def Let_def split: option.splits)
qed

lemma lru_ok_run:
  "lru_ok cap c \<Longrightarrow> unat (next_tick c) + length ops < 2 ^ 64 \<Longrightarrow> lru_ok cap (fold lru_apply ops c)"
proof (induction ops arbitrary: c)
  case (Cons a ops)
  have "next_tick c \<noteq> - 1"
  proof
    assume "next_tick c = - 1"
    then have "unat (next_tick c) = 2 ^ 64 - 1" by (simp add: unsigned_minus_1_eq_mask mask_eq_exp_minus_1)
    with Cons.prems(2) show False by simp
  qed
  with Cons.prems have "lru_ok cap (lru_apply a c)" by (simp add: lru_ok_apply)
  moreover have "unat (next_tick (lru_apply a c)) + length ops < 2 ^ 64"
    using Cons.prems(2) tick_apply [of a c] by simp
  ultimately show ?case using Cons.IH by simp
qed simp

section \<open>Properties\<close>

text \<open>C23: whatever sequence of lookups, insertions and removals a cache has served, short of
  exhausting its 64-bit clock, the bytes it accounts for are exactly the sizes of the entries it
  holds and never exceed its capacity.\<close>

theorem lru_stays_within_budget:
  assumes "length ops < 2 ^ 64"
  shows "lru_bytes (fold lru_apply ops (lru_new cap)) = lru_total (lru_map (fold lru_apply ops (lru_new cap))) \<and>
    lru_bytes (fold lru_apply ops (lru_new cap)) \<le> cap"
proof -
  have "lru_ok cap (fold lru_apply ops (lru_new cap))"
    using assms lru_inv_new by (intro lru_ok_run) (auto simp: lru_ok_def lru_new_def)
  then show ?thesis using lru_invD(5) by (auto simp: lru_ok_def)
qed

theorem lru_stays_within_budget_witness:
  "lru_bytes (fold lru_apply [Insert 1 (0 :: nat) 60, Get 1, Insert 2 7 60] (lru_new 100)) \<le> 100"
  using lru_stays_within_budget [of "[Insert 1 (0 :: nat) 60, Get 1, Insert 2 7 60]" 100] by simp

text \<open>C24: a value that fits into the budget is found right after it was inserted: the eviction
  that makes room for it never drops it.\<close>

theorem lru_insert_then_get:
  assumes "lru_inv c" "next_tick c \<noteq> - 1" "n \<le> lru_capacity c"
  shows "fst (lru_get p (lru_insert p v n c)) = Some v"
proof -
  obtain xs where "recency (lru_replace p v n c) = xs @ [(next_tick c, p)]"
    using replace_last [OF assms(1)] by blast
  moreover have "map_of (lru_map (lru_replace p v n c)) p =
      Some \<lparr>entry_value = v, entry_bytes = n, entry_tick = next_tick c\<rparr>"
    by (simp add: lru_replace_def take_tick_def Let_def update_conv' split: option.splits)
  ultimately have "map_of (lru_map (lru_insert p v n c)) p =
      Some \<lparr>entry_value = v, entry_bytes = n, entry_tick = next_tick c\<rparr>"
    using evict_keeps_last [OF lru_inv_replace [OF assms(1,2)]] assms(3) by (simp add: lru_insert_def)
  then show ?thesis by (simp add: lru_cache.get_value lru_lookup_def)
qed

theorem lru_insert_then_get_witness:
  "fst (lru_get 5 (lru_insert 5 ''node'' 8 (lru_new 10))) = Some ''node''"
  using lru_insert_then_get [OF lru_inv_new, of 10 8 5 "''node''"] by (simp add: lru_new_def)

text \<open>C25: what an insertion evicts is least recently used: every entry it evicts was touched
  before every other entry it keeps.\<close>

theorem lru_insert_evicts_oldest:
  assumes "lru_inv c" "next_tick c \<noteq> - 1"
    and "map_of (lru_map c) q = Some d" "q \<noteq> p" "lru_lookup (lru_insert p v n c) q = None"
    and "map_of (lru_map c) r = Some e" "r \<noteq> p" "lru_lookup (lru_insert p v n c) r \<noteq> None"
  shows "entry_tick d < entry_tick e"
proof -
  let ?c = "lru_replace p v n c"
  have "n \<le> lru_capacity c"
    using assms(3,5) by (auto simp: lru_insert_def lru_lookup_def split: if_splits)
  then have gone: "map_of (lru_map (evict ?c)) q = None" "map_of (lru_map (evict ?c)) r \<noteq> None"
    using assms(5,8) by (simp_all add: lru_insert_def lru_lookup_def)
  then obtain e' where e': "map_of (lru_map (evict ?c)) r = Some e'" by blast
  then have "map_of (lru_map ?c) r = Some e'" by (rule evict_entry)
  then have "e' = e" using assms(6,7) map_of_replace_other [of r p v n c] by simp
  moreover have "map_of (lru_map ?c) q = Some d" using assms(3,4) by (simp add: map_of_replace_other)
  ultimately show ?thesis
    using evict_order [OF lru_inv_replace [OF assms(1,2)] _ gone(1) e'] by simp
qed

definition two_entry_cache :: "nat lru" where
  "two_entry_cache = lru_insert 2 20 4 (lru_insert 1 10 4 (lru_new 10))"

lemma two_entry_cache_simps:
  "two_entry_cache =
    \<lparr>lru_map = [(1, \<lparr>entry_value = 10, entry_bytes = 4, entry_tick = 0\<rparr>),
       (2, \<lparr>entry_value = 20, entry_bytes = 4, entry_tick = 1\<rparr>)],
     recency = [(0, 1), (1, 2)], next_tick = 2, lru_bytes = 8, lru_capacity = 10, lru_hits = 0,
     lru_misses = 0\<rparr>"
  by (simp add: two_entry_cache_def lru_insert_def lru_replace_def lru_new_def take_tick_def
      evict.simps)

theorem lru_insert_evicts_oldest_witness:
  "lru_lookup (lru_insert 3 30 5 two_entry_cache) 1 = None \<and>
   lru_lookup (lru_insert 3 30 5 two_entry_cache) 2 = Some 20 \<and>
   entry_tick (the (map_of (lru_map two_entry_cache) 1)) < entry_tick (the (map_of (lru_map two_entry_cache) 2))"
proof -
  have inv: "lru_inv two_entry_cache"
    unfolding two_entry_cache_def
    by (intro lru_inv_insert lru_inv_new)
      (simp_all add: lru_insert_def lru_replace_def lru_new_def take_tick_def)
  have looks: "lru_lookup (lru_insert 3 30 5 two_entry_cache) 1 = None"
      "lru_lookup (lru_insert 3 30 5 two_entry_cache) 2 = Some 20"
    by (simp_all add: two_entry_cache_simps lru_insert_def lru_replace_def take_tick_def
        lru_lookup_def evict.simps evict_oldest_def)
  have "entry_tick (the (map_of (lru_map two_entry_cache) 1)) <
      entry_tick (the (map_of (lru_map two_entry_cache) 2))"
    by (rule lru_insert_evicts_oldest [OF inv, of 1 _ 3 30 5 2])
      (simp_all add: looks, simp_all add: two_entry_cache_simps)
  with looks show ?thesis by simp
qed

end
