(* ===== verification/Group_Commit.thy ===== *)
theory Group_Commit
  imports Store_Spec
begin

text \<open>
  Model of \<open>storage/src/group_commit.rs\<close>: the committer that collects page changes of many clients
  into one batch with one sync. A client's response channel is the number it is answered under,
  and the answers a step gives are the list of what is sent on those channels. What the command
  channel yields, and when it goes quiet, is a script of receive events; a wait that ends because
  the batch deadline has passed is the event \<open>TimedOut\<close>. The checkpoint thread is a step of its
  own that takes a job from the one-place job channel; it runs as a whole here, between steps of
  the committer. Starting and joining the threads is not modelled.
\<close>

section \<open>Options and statistics\<close>

record group_options =
  queue_depth :: nat
  max_batch_pages :: nat
  max_delay :: nat
  checkpoint_after_wal_bytes :: nat
  flush_pages_per_batch :: nat

definition default_options :: group_options where
  "default_options =
    \<lparr>queue_depth = 1024, max_batch_pages = 256, max_delay = 200000,
     checkpoint_after_wal_bytes = 64 * 2 ^ 20, flush_pages_per_batch = 32\<rparr>"

definition validate_options :: "group_options \<Rightarrow> storage_error + group_options" where
  "validate_options opts =
    (if queue_depth opts = 0 then
       Inl (Configuration (Reason ''group commit queue depth must be greater than zero'' []))
     else if max_batch_pages opts = 0 then
       Inl (Configuration (Reason ''group commit batch size must be greater than zero'' []))
     else if max_delay opts = 0 then
       Inl (Configuration (Reason ''group commit delay must be greater than zero'' []))
     else Inr opts)"

record group_stats =
  gs_groups :: u64
  gs_requests :: u64
  gs_pages :: u64
  gs_automatic_checkpoints :: u64

section \<open>Requests\<close>

record commit_request =
  cr_writes :: "page_write list"
  cr_appends :: "page_append list"
  cr_durable :: bool
  cr_response :: nat

definition request_len :: "commit_request \<Rightarrow> nat" where
  "request_len r = length (cr_writes r) + length (cr_appends r)"

datatype command = Commit commit_request | CheckpointNow nat | Shutdown nat

datatype answer =
    Committed "storage_error + u64 list"
  | Checkpointed "storage_error + u64"
  | Stopped

record committer =
  gc_store :: store
  gc_stats :: group_stats
  gc_jobs :: "background_checkpoint list"
  gc_checkpointer :: bool

text \<open>
  What the handle does before it submits: an empty batch returns at once and a page that is too
  large is refused. \<open>Inl\<close> is the result the client gets without a submission.
\<close>

definition commit_with :: "page_write list \<Rightarrow> bool \<Rightarrow> nat \<Rightarrow> (storage_error + u64 list) + commit_request" where
  "commit_with writes durable response =
    (if writes = [] then Inl (Inr [])
     else case find (\<lambda>w. length (pw_payload w) > MAX_PAGE_PAYLOAD) writes of
       Some w \<Rightarrow> Inl (Inl (PageTooLarge (length (pw_payload w)) MAX_PAGE_PAYLOAD))
     | None \<Rightarrow> Inr \<lparr>cr_writes = writes, cr_appends = [], cr_durable = durable, cr_response = response\<rparr>)"

definition handle_commit :: "page_write list \<Rightarrow> nat \<Rightarrow> (storage_error + u64 list) + commit_request" where
  "handle_commit writes response = commit_with writes True response"

definition commit_relaxed :: "page_write list \<Rightarrow> nat \<Rightarrow> (storage_error + u64 list) + commit_request" where
  "commit_relaxed writes response = commit_with writes False response"

definition handle_append :: "page_append list \<Rightarrow> nat \<Rightarrow> (storage_error + u64 list) + commit_request" where
  "handle_append appends response =
    (if appends = [] then Inl (Inr [])
     else Inr \<lparr>cr_writes = [], cr_appends = appends, cr_durable = True, cr_response = response\<rparr>)"

section \<open>Executing a group\<close>

fun error_message :: "storage_error \<Rightarrow> reason" where
  "error_message Io = Reason ''I/O error: {0}'' []"
| "error_message (PageTooLarge a m) = Reason ''page payload is {actual} bytes; maximum is {maximum}'' [a, m]"
| "error_message (InvalidPageLength a e) =
    Reason ''invalid page image length {actual}; expected {expected}'' [a, e]"
| "error_message (CorruptPage pid (Reason msg ns)) =
    Reason (''corrupt page {page_id}: '' @ msg) (unat pid # ns)"
| "error_message (CorruptDataFile (Reason msg ns)) = Reason (''corrupt data file: '' @ msg) ns"
| "error_message (CorruptWal off (Reason msg ns)) = Reason (''corrupt WAL at byte {offset}: '' @ msg) (off # ns)"
| "error_message (PageNotFound pid) = Reason ''page {0} does not exist'' [unat pid]"
| "error_message (BufferPoolExhausted n) = Reason ''all {capacity} buffer frames are pinned'' [n]"
| "error_message (AlreadyOpen path) =
    Reason (''storage directory is already open by another process: '' @ path) []"
| "error_message (Configuration (Reason msg ns)) = Reason (''invalid storage configuration: '' @ msg) ns"
| "error_message CommitCoordinatorStopped = Reason ''group commit coordinator stopped'' []"
| "error_message (GroupCommit (Reason msg ns)) = Reason (''group commit failed: '' @ msg) ns"
| "error_message Poisoned =
    Reason ''storage writer is poisoned after a failed durability operation; reopen to recover'' []"

text \<open>The consecutive spans of the requests in a concatenation.\<close>

fun spans :: "nat \<Rightarrow> nat list \<Rightarrow> (nat \<times> nat) list" where
  "spans at [] = []"
| "spans at (n # ns) = (at, at + n) # spans (at + n) ns"

definition execute_group ::
    "(bytes \<Rightarrow> u32) \<Rightarrow> commit_request list \<Rightarrow> committer \<Rightarrow> (nat \<times> answer) list \<times> committer" where
  "execute_group crc requests g =
    (let write_spans = spans 0 (map (\<lambda>r. length (cr_writes r)) requests);
         append_spans = spans 0 (map (\<lambda>r. length (cr_appends r)) requests);
         writes = concat (map cr_writes requests);
         appends = concat (map cr_appends requests);
         durable = list_ex cr_durable requests in
     case apply_batch crc writes appends durable (gc_store g) of (result, s) \<Rightarrow>
       let st = gc_stats g;
           g = g\<lparr>gc_store := s,
             gc_stats := st\<lparr>gs_groups := gs_groups st + 1,
               gs_requests := gs_requests st + word_of_nat (length requests),
               gs_pages := gs_pages st + word_of_nat (sum_list (map request_len requests))\<rparr>\<rparr> in
       (case result of
          Inr (write_lsns, append_lsns) \<Rightarrow>
            (map (\<lambda>((r, w), a).
               (cr_response r,
                Committed (Inr (if cr_appends r = [] then slice write_lsns (fst w) (snd w)
                  else slice append_lsns (fst a) (snd a)))))
               (zip (zip requests write_spans) append_spans), g)
        | Inl e \<Rightarrow> (map (\<lambda>r. (cr_response r, Committed (Inl (GroupCommit (error_message e))))) requests, g)))"

text \<open>
  A client that submits a request blocks until the worker has answered it. \<open>submit\<close> is the case in
  which the worker executes the request as a group of its own.
\<close>

definition submit ::
    "(bytes \<Rightarrow> u32) \<Rightarrow> commit_request \<Rightarrow> committer \<Rightarrow> (storage_error + u64 list) \<times> committer" where
  "submit crc request g =
    (case execute_group crc [request] g of
       ((_, Committed result) # _, g) \<Rightarrow> (result, g)
     | (_, g) \<Rightarrow> (Inl CommitCoordinatorStopped, g))"

definition client_call ::
    "(bytes \<Rightarrow> u32) \<Rightarrow> (storage_error + u64 list) + commit_request \<Rightarrow> committer \<Rightarrow>
     (storage_error + u64 list) \<times> committer" where
  "client_call crc call g = (case call of Inl result \<Rightarrow> (result, g) | Inr request \<Rightarrow> submit crc request g)"

definition pace_flush :: "(bytes \<Rightarrow> u32) \<Rightarrow> group_options \<Rightarrow> committer \<Rightarrow> committer" where
  "pace_flush crc opts g =
    (if flush_pages_per_batch opts = 0 then g
     else g\<lparr>gc_store := snd (flush_some_dirty crc (flush_pages_per_batch opts) (gc_store g))\<rparr>)"

definition count_checkpoint :: "committer \<Rightarrow> committer" where
  "count_checkpoint g =
    g\<lparr>gc_stats := (gc_stats g)\<lparr>gs_automatic_checkpoints := gs_automatic_checkpoints (gc_stats g) + 1\<rparr>\<rparr>"

definition maybe_checkpoint :: "(bytes \<Rightarrow> u32) \<Rightarrow> group_options \<Rightarrow> committer \<Rightarrow> committer" where
  "maybe_checkpoint crc opts g =
    (if checkpoint_after_wal_bytes opts = 0 then g
     else let oversized = wal_size_bytes (gc_store g) \<ge> checkpoint_after_wal_bytes opts in
     if \<not> oversized \<or> checkpoint_in_flight (gc_store g) then g
     else if can_begin_background_checkpoint (gc_store g) then
       (case begin_background_checkpoint (gc_store g) of
          (Inl _, s) \<Rightarrow> g\<lparr>gc_store := s\<rparr>
        | (Inr job, s) \<Rightarrow>
            if gc_checkpointer g \<and> gc_jobs g = []
            then g\<lparr>gc_store := s, gc_jobs := gc_jobs g @ [job]\<rparr>
            else g\<lparr>gc_store := abort_background_checkpoint s\<rparr>)
     else case checkpoint crc (gc_store g) of
       (Inl _, s) \<Rightarrow> g\<lparr>gc_store := s\<rparr>
     | (Inr _, s) \<Rightarrow> count_checkpoint (g\<lparr>gc_store := s\<rparr>))"

text \<open>One round of the checkpoint thread.\<close>

definition checkpoint_worker :: "(bytes \<Rightarrow> u32) \<Rightarrow> committer \<Rightarrow> committer" where
  "checkpoint_worker crc g =
    (case gc_jobs g of
       [] \<Rightarrow> g
     | job # jobs \<Rightarrow>
         (case background_run crc job (gc_store g) of
            (Inr written, s) \<Rightarrow>
              (case complete_background_checkpoint job written s of
                 (r, s) \<Rightarrow>
                   let g = g\<lparr>gc_store := s, gc_jobs := jobs\<rparr> in
                   if is_ok r then count_checkpoint g else g)
          | (Inl _, s) \<Rightarrow> g\<lparr>gc_store := abort_background_checkpoint s, gc_jobs := jobs\<rparr>))"

text \<open>
  One round of the wait of an explicit checkpoint: nothing happens while a background checkpoint
  is in flight, which ends with the round of the checkpoint thread that completes it.
\<close>

definition explicit_checkpoint :: "(bytes \<Rightarrow> u32) \<Rightarrow> store \<Rightarrow> ((storage_error + u64) \<times> store) option" where
  "explicit_checkpoint crc s = (if checkpoint_in_flight s then None else Some (checkpoint crc s))"

definition await_checkpointer :: "(bytes \<Rightarrow> u32) \<Rightarrow> committer \<Rightarrow> committer" where
  "await_checkpointer crc g =
    (if checkpoint_in_flight (gc_store g) then checkpoint_worker crc g else g)"

section \<open>The commit worker\<close>

datatype recv = Received command | TimedOut | Disconnected

fun gather ::
    "group_options \<Rightarrow> recv list \<Rightarrow> nat \<Rightarrow> commit_request list \<Rightarrow>
     commit_request list \<times> command option \<times> recv list" where
  "gather opts [] pages requests = (requests, None, [])"
| "gather opts (ev # evs) pages requests =
    (if pages < max_batch_pages opts then
       (case ev of
          Received c \<Rightarrow>
            (case c of
               Commit r \<Rightarrow> gather opts evs (min (pages + request_len r) usize_max) (requests @ [r])
             | _ \<Rightarrow> (requests, Some c, evs))
        | TimedOut \<Rightarrow> (requests, None, evs)
        | Disconnected \<Rightarrow> (requests, None, Disconnected # evs))
     else (requests, None, ev # evs))"

definition commit_round ::
    "(bytes \<Rightarrow> u32) \<Rightarrow> group_options \<Rightarrow> commit_request list \<Rightarrow> committer \<Rightarrow> (nat \<times> answer) list \<times> committer" where
  "commit_round crc opts requests g =
    (case execute_group crc requests g of (out, g) \<Rightarrow>
      (out, maybe_checkpoint crc opts (pace_flush crc opts g)))"

text \<open>
  The next command and the events left: a pending command first, then the channel; \<open>None\<close> when
  the channel is closed or the script has no further command.
\<close>

fun next_command :: "command option \<Rightarrow> recv list \<Rightarrow> (command \<times> recv list) option" where
  "next_command (Some c) evs = Some (c, evs)"
| "next_command None [] = None"
| "next_command None (Received c # evs) = Some (c, evs)"
| "next_command None (TimedOut # evs) = next_command None evs"
| "next_command None (Disconnected # evs) = None"

lemma gather_length:
  "gather opts evs n rs = (rs', pending, evs') \<Longrightarrow>
    length evs' + (if pending = None then 0 else 1) \<le> length evs"
  by (induction opts evs n rs arbitrary: rs' pending evs' rule: gather.induct)
    (fastforce split: if_splits recv.splits command.splits)+

lemma next_command_length:
  "next_command pending evs = Some (c, evs') \<Longrightarrow>
    length evs' < length evs + (if pending = None then 0 else 1)"
  by (induction pending evs rule: next_command.induct) auto

function commit_worker ::
    "(bytes \<Rightarrow> u32) \<Rightarrow> group_options \<Rightarrow> command option \<Rightarrow> recv list \<Rightarrow> committer \<Rightarrow>
     (nat \<times> answer) list \<times> committer" where
  "commit_worker crc opts pending evs g =
    (case next_command pending evs of
       None \<Rightarrow> ([], g)
     | Some (Commit first, evs) \<Rightarrow>
         (case gather opts evs (request_len first) [first] of (requests, pending, evs) \<Rightarrow>
         (case commit_round crc opts requests g of (out, g) \<Rightarrow>
         (case commit_worker crc opts pending evs g of (out2, g) \<Rightarrow> (out @ out2, g))))
     | Some (CheckpointNow response, evs) \<Rightarrow>
         let g = await_checkpointer crc g in
         (case explicit_checkpoint crc (gc_store g) of
            None \<Rightarrow> ([], g)
          | Some (r, s) \<Rightarrow>
              (case commit_worker crc opts None evs (g\<lparr>gc_store := s\<rparr>) of (out, g) \<Rightarrow>
                ((response, Checkpointed r) # out, g)))
     | Some (Shutdown response, evs) \<Rightarrow> ([(response, Stopped)], g))"
  by pat_completeness auto
termination
  apply (relation "measure (\<lambda>(crc, opts, pending, evs, g). length evs + (if pending = None then 0 else 1))")
    apply (rule wf_measure)
   apply (drule sym [of "(_, _)" "gather _ _ _ _"], hypsubst)
   apply (drule next_command_length, drule gather_length, simp)
  apply (hypsubst, drule next_command_length, simp)
  done

declare commit_worker.simps [simp del]

section \<open>The in-flight flag\<close>

text \<open>No operation of the store but those of a background checkpoint touches the flag.\<close>

abbreviation in_flight :: "store \<Rightarrow> bool" where "in_flight s \<equiv> checkpoint_in_flight s"

lemma try_then_flag:
  assumes "in_flight (snd m) = x" "\<And>a t. in_flight t = x \<Longrightarrow> in_flight (snd (k a t)) = x"
  shows "in_flight (snd (try_then m k)) = x"
  using assms by (cases m; cases "fst m") auto

lemma on_wal_flag [simp]: "in_flight (snd (on_wal op s)) = in_flight s"
  by (simp add: on_wal_def split: prod.splits)

lemma sync_flag [simp]: "in_flight (snd (if d then on_wal op s else (r, s))) = in_flight s"
  by simp

lemma on_data_flag [simp]: "in_flight (snd (on_data op s)) = in_flight s"
  by (simp add: on_data_def split: prod.splits)

lemma poisoning_flag [simp]: "in_flight (snd (poisoning op s)) = in_flight (snd (op s))"
  by (auto simp: poisoning_def split: prod.splits sum.splits)

lemma install_writes_flag [simp]: "in_flight (snd (install_writes xs s)) = in_flight s"
  by (induction xs s rule: install_writes.induct) (auto split: sum.splits)

lemma install_grown_flag [simp]: "in_flight (snd (install_grown gr nw sl s)) = in_flight s"
  by (induction gr nw sl s rule: install_grown.induct) (auto simp: Let_def split: sum.splits)

lemma write_pages_inner_flag [simp]: "in_flight (snd (write_pages_inner crc ws d s)) = in_flight s"
  unfolding write_pages_inner_def by (intro try_then_flag) simp_all

lemma append_pages_inner_flag [simp]: "in_flight (snd (append_pages_inner crc xs d s)) = in_flight s"
  unfolding append_pages_inner_def
  by (cases "grow_pages crc s xs []"; simp only: sum.case; (intro try_then_flag)?; simp)

lemma apply_batch_flag [simp]: "in_flight (snd (apply_batch crc ws xs d s)) = in_flight s"
  unfolding apply_batch_def apply_batch_inner_def
  by (cases "poisoned s"; simp only: if_True if_False poisoning_flag; (intro try_then_flag)?; simp)

lemma write_pending_flag [simp]: "in_flight (snd (write_pending crc ps s)) = in_flight s"
  by (induction crc ps s rule: write_pending.induct; simp only: write_pending.simps; (intro try_then_flag)?; simp)

lemma flush_some_dirty_flag [simp]: "in_flight (snd (flush_some_dirty crc n s)) = in_flight s"
  unfolding flush_some_dirty_def
  by (cases "take_pending (dirty s) (flushed s) n (flush_queue s)"; cases "in_flight s"; simp)
    (intro try_then_flag [where x = False, simplified], simp_all)

lemma flush_all_flag [simp]: "in_flight (snd (flush_all crc s)) = in_flight s"
proof (induction crc s rule: flush_all.induct)
  case (1 crc s)
  have f: "in_flight (snd (flush_some_dirty crc usize_max s)) = in_flight s" by simp
  obtain r t where r: "flush_some_dirty crc usize_max s = (r, t)" by force
  show ?case
    by (subst flush_all.simps, cases r) (use 1 f r in simp_all)
qed

lemma checkpoint_flag [simp]: "in_flight (snd (checkpoint crc s)) = in_flight s"
  unfolding checkpoint_def checkpoint_inner_def Let_def
  by (simp only: if_distrib [of "\<lambda>p. in_flight (snd p)"] poisoning_flag, cases "poisoned s"; cases "in_flight s"; simp)
    (intro try_then_flag [where x = False, simplified], simp_all)

lemma write_chunk_flag [simp]: "in_flight (snd (write_chunk crc ps s)) = in_flight s"
  by (induction crc ps s rule: write_chunk.induct; simp only: write_chunk.simps; (intro try_then_flag)?; simp)

lemma run_chunks_flag [simp]: "in_flight (snd (run_chunks crc cs s)) = in_flight s"
  by (induction crc cs s rule: run_chunks.induct; simp only: run_chunks.simps run_chunk_def; (intro try_then_flag)?; simp)

lemma background_run_flag [simp]: "in_flight (snd (background_run crc job s)) = in_flight s"
  unfolding background_run_def seal_retired_def by (intro try_then_flag) simp_all

lemma begin_flag:
  "begin_background_checkpoint s = (r, t) \<Longrightarrow> \<not> in_flight s \<Longrightarrow> in_flight t = is_ok r"
  by (auto simp: begin_background_checkpoint_def on_wal_def rotate_def retired_file_def Let_def
      split: if_splits)

text \<open>A background checkpoint is in flight exactly while its job waits for the checkpoint thread.\<close>

definition gc_inv :: "committer \<Rightarrow> bool" where
  "gc_inv g \<longleftrightarrow> (in_flight (gc_store g) \<longleftrightarrow> gc_jobs g \<noteq> []) \<and> length (gc_jobs g) \<le> 1"

lemma gc_inv_store:
  "gc_inv g \<Longrightarrow> in_flight s = in_flight (gc_store g) \<Longrightarrow> gc_inv (g\<lparr>gc_store := s\<rparr>)"
  by (simp add: gc_inv_def)

lemma gc_inv_stats [simp]: "gc_inv (g\<lparr>gc_stats := x\<rparr>) = gc_inv g" "gc_inv (count_checkpoint g) = gc_inv g"
  by (simp_all add: gc_inv_def count_checkpoint_def)

lemma execute_group_inv: "gc_inv g \<Longrightarrow> gc_inv (snd (execute_group crc rs g))"
proof -
  assume g: "gc_inv g"
  obtain r s where b: "apply_batch crc (concat (map cr_writes rs)) (concat (map cr_appends rs))
      (list_ex cr_durable rs) (gc_store g) = (r, s)" by force
  then have "in_flight s = in_flight (gc_store g)"
    by (metis apply_batch_flag snd_conv)
  then have "gc_inv (g\<lparr>gc_store := s\<rparr>)" using g by (rule gc_inv_store [rotated])
  then show ?thesis
    by (auto simp: execute_group_def b Let_def gc_inv_def split: sum.splits prod.splits)
qed

lemma pace_flush_inv: "gc_inv g \<Longrightarrow> gc_inv (pace_flush crc opts g)"
  by (simp add: pace_flush_def gc_inv_store)

lemma maybe_checkpoint_inv:
  assumes g: "gc_inv g"
  shows "gc_inv (maybe_checkpoint crc opts g)"
proof -
  obtain r s where b: "begin_background_checkpoint (gc_store g) = (r, s)" by force
  obtain r' s' where c: "checkpoint crc (gc_store g) = (r', s')" by force
  have "in_flight s' = in_flight (gc_store g)" using checkpoint_flag [of crc "gc_store g"] c by simp
  with g begin_flag [OF b] show ?thesis
    by (cases r; cases r')
      (auto simp: maybe_checkpoint_def Let_def b c gc_inv_def count_checkpoint_def abort_background_checkpoint_def)
qed

lemma checkpoint_worker_inv:
  assumes g: "gc_inv g"
  shows "gc_inv (checkpoint_worker crc g) \<and> \<not> in_flight (gc_store (checkpoint_worker crc g))"
proof (cases "gc_jobs g")
  case (Cons job jobs)
  obtain r s where b: "background_run crc job (gc_store g) = (r, s)" by force
  have "jobs = []" using g Cons by (simp add: gc_inv_def)
  then show ?thesis
    using g Cons b
    by (cases r) (auto simp: checkpoint_worker_def gc_inv_def complete_background_checkpoint_def
        abort_background_checkpoint_def count_checkpoint_def Let_def split: prod.splits)
qed (use g in \<open>simp add: checkpoint_worker_def gc_inv_def\<close>)

lemma await_checkpointer_inv:
  assumes "gc_inv g"
  shows "gc_inv (await_checkpointer crc g)" "\<not> in_flight (gc_store (await_checkpointer crc g))"
  using checkpoint_worker_inv [OF assms, of crc] assms by (auto simp: await_checkpointer_def)

lemma commit_round_inv: "gc_inv g \<Longrightarrow> gc_inv (snd (commit_round crc opts rs g))"
  using execute_group_inv [of g crc rs]
  by (cases "execute_group crc rs g") (auto simp: commit_round_def intro!: maybe_checkpoint_inv pace_flush_inv)

section \<open>Answers\<close>

lemma length_spans [simp]: "length (spans n ns) = length ns"
  by (induction n ns rule: spans.induct) simp_all

lemma zip_clients:
  "length xs = length rs \<Longrightarrow> length ys = length rs \<Longrightarrow>
    map (\<lambda>x. cr_response (fst (fst x))) (zip (zip rs xs) ys) = map cr_response rs"
  by (intro nth_equalityI) simp_all

lemma execute_group_clients: "map fst (fst (execute_group crc rs g)) = map cr_response rs"
  by (auto simp: execute_group_def Let_def comp_def case_prod_beta zip_clients split: prod.splits sum.splits)

lemma commit_round_clients: "map fst (fst (commit_round crc opts rs g)) = map cr_response rs"
  using execute_group_clients [of crc rs g]
  by (cases "execute_group crc rs g") (simp add: commit_round_def)

text \<open>The clients a script of receive events addresses, up to a shutdown or the closing of the channel.\<close>

fun addressed :: "recv list \<Rightarrow> nat list" where
  "addressed [] = []"
| "addressed (TimedOut # evs) = addressed evs"
| "addressed (Disconnected # evs) = []"
| "addressed (Received c # evs) =
    (case c of
       Commit r \<Rightarrow> cr_response r # addressed evs
     | CheckpointNow n \<Rightarrow> n # addressed evs
     | Shutdown n \<Rightarrow> [n])"

definition with_pending :: "command option \<Rightarrow> recv list \<Rightarrow> recv list" where
  "with_pending pending evs = (case pending of None \<Rightarrow> evs | Some c \<Rightarrow> Received c # evs)"

lemma gather_clients:
  "gather opts evs n rs = (rs', pending, evs') \<Longrightarrow>
    map cr_response rs @ addressed evs = map cr_response rs' @ addressed (with_pending pending evs')"
proof (induction opts evs n rs arbitrary: rs' pending evs' rule: gather.induct)
  case (2 opts ev evs n rs)
  then show ?case
    by (fastforce simp: with_pending_def split: if_splits recv.splits command.splits)
qed (simp add: with_pending_def)

lemma next_command_clients:
  "next_command pending evs = Some (c, evs') \<Longrightarrow> addressed (with_pending pending evs) = addressed (Received c # evs')"
  "next_command pending evs = None \<Longrightarrow> addressed (with_pending pending evs) = []"
  by (induction pending evs rule: next_command.induct) (auto simp: with_pending_def)

lemma worker_answers:
  "gc_inv g \<Longrightarrow> map fst (fst (commit_worker crc opts pending evs g)) = addressed (with_pending pending evs)"
proof (induction crc opts pending evs g rule: commit_worker.induct)
  case (1 crc opts pending evs g)
  show ?case
  proof (cases "next_command pending evs")
    case None
    then show ?thesis using next_command_clients(2) [OF None] by (subst commit_worker.simps) simp
  next
    case (Some x)
    obtain c evs' where x: "x = (c, evs')" by force
    note n = next_command_clients(1) [OF Some [unfolded x]]
    show ?thesis
    proof (cases c)
      case (Commit first)
      obtain rs p es where gt: "gather opts evs' (request_len first) [first] = (rs, p, es)" by (metis prod_cases3)
      obtain out g' where r: "commit_round crc opts rs g = (out, g')" by force
      have "gc_inv g'" using commit_round_inv [OF 1(3), of crc opts rs] r by simp
      with 1(1) [OF Some x [symmetric] Commit gt [symmetric] refl r [symmetric]]
      have "map fst (fst (commit_worker crc opts p es g')) = addressed (with_pending p es)" by blast
      with n Commit gather_clients [OF gt] commit_round_clients [of crc opts rs g] r show ?thesis
        by (subst commit_worker.simps) (auto simp: Some x gt split: prod.splits)
    next
      case (CheckpointNow k)
      note a = await_checkpointer_inv [OF 1(3), of crc]
      obtain r s where e: "checkpoint crc (gc_store (await_checkpointer crc g)) = (r, s)" by force
      let ?g = "(await_checkpointer crc g)\<lparr>gc_store := s\<rparr>"
      have "gc_inv ?g"
        using a(1) checkpoint_flag [of crc "gc_store (await_checkpointer crc g)"] e by (intro gc_inv_store) simp_all
      with 1(2) [OF Some x [symmetric] CheckpointNow refl _ refl] a(2) e
      have "map fst (fst (commit_worker crc opts None evs' ?g)) = addressed evs'"
        by (simp add: explicit_checkpoint_def with_pending_def)
      with n CheckpointNow a(2) e show ?thesis
        by (subst commit_worker.simps) (auto simp: Some x explicit_checkpoint_def split: prod.splits)
    next
      case (Shutdown k)
      with n show ?thesis by (subst commit_worker.simps) (simp add: Some x)
    qed
  qed
qed

section \<open>What the answers say\<close>

lemma spans_nth:
  "i < length ns \<Longrightarrow> spans n ns ! i = (n + sum_list (take i ns), n + sum_list (take (Suc i) ns))"
proof (induction n ns arbitrary: i rule: spans.induct)
  case (2 n k ns)
  then show ?case by (cases i) (simp_all add: add.assoc)
qed simp

lemma concat_nth_block:
  "i < length xss \<Longrightarrow> k < length (xss ! i) \<Longrightarrow>
    concat xss ! (sum_list (map length (take i xss)) + k) = xss ! i ! k"
proof (induction xss arbitrary: i)
  case (Cons xs xss)
  then show ?case by (cases i) (simp_all add: nth_append add.assoc)
qed simp

lemma block_bound:
  "i < length xss \<Longrightarrow> k < length (xss ! i) \<Longrightarrow>
    sum_list (map length (take i xss)) + k < length (concat xss)"
proof (induction xss arbitrary: i)
  case (Cons xs xss)
  then show ?case by (cases i) (simp_all add: add.assoc)
qed simp

lemma sum_take_le: "sum_list (take i ns) \<le> sum_list (ns :: nat list)"
  by (metis append_take_drop_id le_add1 sum_list_append)

lemma find_memD: "find P xs = Some x \<Longrightarrow> x \<in> set xs \<and> P x"
  by (induction xs) (auto split: if_splits)

lemma find_own_write:
  fixes ws :: "page_write list" and ls :: "u64 list"
  assumes "distinct (map pw_page_id ws)" "length ls = length ws" "j < length ws" "pid = pw_page_id (ws ! j)"
  shows "find (\<lambda>(x, l). pw_page_id x = pid) (rev (zip ws ls)) = Some (ws ! j, ls ! j)"
proof (cases "find (\<lambda>(x, l). pw_page_id x = pid) (rev (zip ws ls))")
  case None
  have "(ws ! j, ls ! j) \<in> set (zip ws ls)" using assms(2,3) by (auto simp: set_zip)
  with None assms(4) show ?thesis by (auto simp: find_None_iff)
next
  case (Some x)
  then have x: "x \<in> set (zip ws ls)" "pw_page_id (fst x) = pid"
    using find_memD [OF Some] by (auto simp: case_prod_beta)
  then obtain i where i: "i < length ws" "ws ! i = fst x" "ls ! i = snd x"
    unfolding in_set_zip by blast
  then have "map pw_page_id ws ! i = map pw_page_id ws ! j" using assms(3,4) x(2) by simp
  then have "i = j" using assms(1,3) i(1) nth_eq_iff_index_eq [of "map pw_page_id ws" i j] by simp
  with Some i show ?thesis by simp
qed

lemma apply_batch_writes:
  assumes "apply_batch crc writes [] durable s = (Inr (wl, al), s')" "writes \<noteq> []"
  shows "\<exists>s1. write_pages_inner crc writes False s = (Inr wl, s1) \<and> dirty s' = dirty s1 \<and> st_data s' = st_data s1"
  using assms
  by (auto simp: apply_batch_def apply_batch_inner_def poisoning_def on_wal_def
      split: if_splits prod.splits sum.splits elim!: try_then_okE)

lemma group_pages_reads:
  assumes inv: "store_inv crc s L base ws" and addr: "\<forall>x\<in>set writes. addressable (pw_page_id x)"
    and d: "distinct (map pw_page_id writes)" and ok: "apply_batch crc writes [] durable s = (Inr (wl, al), s')"
    and j: "j < length writes"
  shows "length wl = length writes" "read_page crc (pw_page_id (writes ! j)) s' =
    Inr (Some \<lparr>page_id = pw_page_id (writes ! j), page_lsn = wl ! j, page_payload = pw_payload (writes ! j)\<rparr>)"
proof -
  have "writes \<noteq> []" using j by auto
  then obtain s1 where s1: "write_pages_inner crc writes False s = (Inr wl, s1)"
    "dirty s' = dirty s1" "st_data s' = st_data s1"
    using apply_batch_writes [OF ok] by blast
  show len: "length wl = length writes" by (rule write_pages_inner_inv(3) [OF inv addr s1(1)])
  have "read_page crc q s' = read_page crc q s1" for q
    using s1 by (simp add: read_page_def dirty_get_def split: option.splits)
  moreover have "addressable (pw_page_id (writes ! j))" using addr j by simp
  ultimately show "read_page crc (pw_page_id (writes ! j)) s' =
    Inr (Some \<lparr>page_id = pw_page_id (writes ! j), page_lsn = wl ! j, page_payload = pw_payload (writes ! j)\<rparr>)"
    using write_pages_inner_reads [OF inv addr s1(1)] find_own_write [OF d len j refl] by simp
qed

text \<open>The answer a request of a successful group of writes gets is its block of the LSNs.\<close>

lemma execute_group_answer:
  assumes ex: "execute_group crc rs g = (out, g')" and pure: "\<forall>r\<in>set rs. cr_appends r = []"
    and ok: "(n, Committed (Inr ls)) \<in> set out"
  obtains wl al where "apply_batch crc (concat (map cr_writes rs)) [] (list_ex cr_durable rs) (gc_store g) =
      (Inr (wl, al), gc_store g')"
    and "\<And>i. i < length rs \<Longrightarrow> out ! i = (cr_response (rs ! i), Committed (Inr
      (slice wl (sum_list (map length (take i (map cr_writes rs))))
        (sum_list (map length (take i (map cr_writes rs))) + length (cr_writes (rs ! i))))))"
proof -
  have none: "concat (map cr_appends rs) = []" using pure by simp
  obtain r s where b: "apply_batch crc (concat (map cr_writes rs)) (concat (map cr_appends rs))
      (list_ex cr_durable rs) (gc_store g) = (r, s)" by force
  obtain wl al where r: "r = Inr (wl, al)"
    using ex ok b by (cases r) (auto simp: execute_group_def Let_def)
  have store: "gc_store g' = s" using ex b r by (auto simp: execute_group_def Let_def)
  have out: "out ! i = (cr_response (rs ! i), Committed (Inr
      (slice wl (sum_list (map length (take i (map cr_writes rs))))
        (sum_list (map length (take i (map cr_writes rs))) + length (cr_writes (rs ! i))))))" if i: "i < length rs" for i
  proof -
    have "take (Suc i) (map (\<lambda>r. length (cr_writes r)) rs) = take i (map (\<lambda>r. length (cr_writes r)) rs) @ [length (cr_writes (rs ! i))]"
      using i by (simp add: take_Suc_conv_app_nth)
    moreover have "map length (take i (map cr_writes rs)) = take i (map (\<lambda>r. length (cr_writes r)) rs)"
      by (simp add: take_map comp_def)
    ultimately show ?thesis
      using ex b r i pure by (auto simp: execute_group_def Let_def spans_nth)
  qed
  show thesis by (rule that [of wl al]) (use b r none store out in simp_all)
qed

section \<open>Durability of a group\<close>

text \<open>
  \<open>batch_step\<close> collects what one half of a batch, its writes or its appends, does to the store: the
  committed changes grow by \<open>xs\<close>, and the log stays in its active segment.
\<close>

definition batch_step ::
    "(bytes \<Rightarrow> u32) \<Rightarrow> store \<Rightarrow> (u64 \<Rightarrow> page option) \<Rightarrow> committed_write list \<Rightarrow> bool" where
  "batch_step crc s base ws \<longleftrightarrow>
    (\<exists>L. store_inv crc s L base ws \<and> L (1 - active (st_wal s)) = []) \<and> seg_durable (spare (st_wal s))"

lemma install_grown_wal: "install_grown gr nw sl s = (r, t) \<Longrightarrow> st_wal t = st_wal s"
  by (induction gr nw sl s rule: install_grown.induct) (auto simp: Let_def split: sum.splits)

lemma logged_spare:
  assumes "wal_append_all crc ks w = (Inr lsns, w1)" "append_batch_commit crc n w1 = (Inr l, w2)" "active w < 2"
  shows "spare w2 = spare w" "active w2 = active w"
  using wal_append_all_spare [OF assms(1,3)] wal_append_spare [OF append_batch_commit_ok(3) [OF assms(2) refl]] assms(3)
  by simp_all

lemma active_bound: "store_inv crc s L base ws \<Longrightarrow> active (st_wal s) < 2"
  by (simp add: store_inv_def wal_inv_def wal_logs_def)

lemma batch_step_writes:
  assumes st: "batch_step crc s base ws" and addr: "\<forall>x\<in>set writes. addressable (pw_page_id x)"
    and ok: "write_pages_inner crc writes False s = (Inr lsns, s')"
  shows "batch_step crc s' base (ws @ map2 cw_image writes lsns)"
proof -
  obtain L where inv: "store_inv crc s L base ws" and one: "L (1 - active (st_wal s)) = []"
    and sp: "seg_durable (spare (st_wal s))" using st by (auto simp: batch_step_def)
  note act = active_bound [OF inv]
  obtain w1 l w2 where a: "append_writes crc writes (st_wal s) = (Inr lsns, w1)"
    and c: "append_batch_commit crc (length writes) w1 = (Inr l, w2)"
    and ins: "install_writes (zip writes lsns) (s\<lparr>st_wal := w2\<rparr>) = (Inr (), s')"
    using ok by (fastforce simp: write_pages_inner_def elim!: try_then_okE on_wal_okE)
  have wal: "st_wal s' = w2" using install_writes_wal [OF ins] by simp
  note small = append_writes_sizes [OF a]
  note sp2 = logged_spare [OF a [unfolded append_writes_all [OF small]] c act]
  obtain k where inv': "store_inv crc s' (extend_log L (active (st_wal s)) (batch_records (map2 cw_image writes lsns) k))
      base (ws @ map2 cw_image writes lsns)"
    using write_pages_inner_inv(1) [OF inv addr ok] by blast
  then show ?thesis
    using one sp sp2 other_segment [OF act] by (auto simp: batch_step_def wal extend_log_def intro!: exI)
qed

lemma batch_step_appends:
  assumes st: "batch_step crc s base ws" and addr: "\<forall>x\<in>set xs. addressable (pa_page_id x)"
    and small: "\<forall>x\<in>set xs. length (pa_payload x) + 4 \<le> MAX_PAGE_PAYLOAD"
    and ok: "append_pages_inner crc xs False s = (Inr lsns, s')"
  shows "batch_step crc s' base (ws @ map2 cw_tail xs lsns)"
proof -
  obtain L where inv: "store_inv crc s L base ws" and one: "L (1 - active (st_wal s)) = []"
    and sp: "seg_durable (spare (st_wal s))" using st by (auto simp: batch_step_def)
  note act = active_bound [OF inv]
  obtain gr w1 l w2 where a: "append_tails crc xs (st_wal s) = (Inr lsns, w1)"
    and c: "append_batch_commit crc (length xs) w1 = (Inr l, w2)"
    and ins: "install_grown gr (newest_lsns (zip xs lsns) []) (map pa_page_id (filter pa_sealed xs))
      (s\<lparr>st_wal := w2\<rparr>) = (Inr (), s')"
    using ok by (fastforce simp: append_pages_inner_def elim!: try_then_okE on_wal_okE split: sum.splits)
  have wal: "st_wal s' = w2" using install_grown_wal [OF ins] by simp
  have "\<forall>x\<in>set xs. length (pa_payload x) \<le> MAX_PAGE_PAYLOAD" using small by auto
  note sp2 = logged_spare [OF a [unfolded append_tails_all [OF this]] c act]
  obtain k where inv': "store_inv crc s' (extend_log L (active (st_wal s)) (batch_records (map2 cw_tail xs lsns) k))
      base (ws @ map2 cw_tail xs lsns)"
    using append_pages_inner_inv(1) [OF inv addr small ok] by blast
  then show ?thesis
    using one sp sp2 other_segment [OF act] by (auto simp: batch_step_def wal extend_log_def intro!: exI)
qed

lemma batch_step_sync:
  assumes st: "batch_step crc s base ws" and ok: "on_wal wal_sync s = (Inr u, s')"
  shows "batch_step crc s' base ws" "seg_durable (segment_at (st_wal s') (active (st_wal s')))"
proof -
  obtain L where inv: "store_inv crc s L base ws" and one: "L (1 - active (st_wal s)) = []"
    and sp: "seg_durable (spare (st_wal s))" using st by (auto simp: batch_step_def)
  obtain w where w: "wal_sync (st_wal s) = (Inr u, w)" "s' = s\<lparr>st_wal := w\<rparr>"
    using ok by (auto elim!: on_wal_okE)
  note sy = wal_sync_spare [OF w(1) active_bound [OF inv]]
  have wi: "wal_inv crc (st_wal s) L" using inv by (simp add: store_inv_def)
  have "store_inv crc s' L base ws"
    using inv wal_sync_inv [OF wi w(1)] by (auto simp: store_inv_def w(2))
  then show "batch_step crc s' base ws" using one sp sy by (auto simp: batch_step_def w(2))
  show "seg_durable (segment_at (st_wal s') (active (st_wal s')))" using sy(3) by (simp add: w(2))
qed

lemma apply_batch_durable:
  assumes st: "batch_step crc s base ws" and aw: "\<forall>x\<in>set writes. addressable (pw_page_id x)"
    and aa: "\<forall>x\<in>set xs. addressable (pa_page_id x)"
    and small: "\<forall>x\<in>set xs. length (pa_payload x) + 4 \<le> MAX_PAGE_PAYLOAD"
    and ok: "apply_batch crc writes xs True s = (Inr (wl, al), s')"
  shows "batch_step crc s' base (ws @ map2 cw_image writes wl @ map2 cw_tail xs al)"
    "seg_durable (segment_at (st_wal s') (active (st_wal s')))"
proof -
  obtain s1 s2 where
    w: "(if writes = [] then (Inr [], s) else write_pages_inner crc writes False s) = (Inr wl, s1)"
    and a: "(if xs = [] then (Inr [], s1) else append_pages_inner crc xs False s1) = (Inr al, s2)"
    and sy: "on_wal wal_sync s2 = (Inr (), s')"
    using ok by (auto simp: apply_batch_def apply_batch_inner_def poisoning_def
        split: if_splits prod.splits sum.splits elim!: try_then_okE)
  have 1: "batch_step crc s1 base (ws @ map2 cw_image writes wl)"
    using w st batch_step_writes [OF st aw] by (auto split: if_splits)
  have "batch_step crc s2 base ((ws @ map2 cw_image writes wl) @ map2 cw_tail xs al)"
    using a 1 batch_step_appends [OF 1 aa small] by (auto split: if_splits)
  from batch_step_sync [OF this sy] show "batch_step crc s' base (ws @ map2 cw_image writes wl @ map2 cw_tail xs al)"
    "seg_durable (segment_at (st_wal s') (active (st_wal s')))" by simp_all
qed

lemma execute_group_ok:
  assumes "execute_group crc rs g = (out, g')" "(n, Committed (Inr ls)) \<in> set out"
  obtains wl al where "apply_batch crc (concat (map cr_writes rs)) (concat (map cr_appends rs))
    (list_ex cr_durable rs) (gc_store g) = (Inr (wl, al), gc_store g')"
proof -
  obtain r s where b: "apply_batch crc (concat (map cr_writes rs)) (concat (map cr_appends rs))
      (list_ex cr_durable rs) (gc_store g) = (r, s)" by force
  obtain wl al where r: "r = Inr (wl, al)"
    using assms b by (cases r) (auto simp: execute_group_def Let_def)
  have "gc_store g' = s" using assms(1) b r by (auto simp: execute_group_def Let_def)
  with b r that show thesis by simp
qed

section \<open>A committer to start from\<close>

definition fresh_committer :: committer where
  "fresh_committer = \<lparr>gc_store = fresh_store,
    gc_stats = \<lparr>gs_groups = 0, gs_requests = 0, gs_pages = 0, gs_automatic_checkpoints = 0\<rparr>,
    gc_jobs = [], gc_checkpointer = True\<rparr>"

lemma fresh_committer_inv: "gc_inv fresh_committer"
  by (simp add: gc_inv_def fresh_committer_def fresh_store_def)

definition one_write :: "nat \<Rightarrow> u64 \<Rightarrow> bytes \<Rightarrow> commit_request" where
  "one_write client pid payload =
    \<lparr>cr_writes = [\<lparr>pw_page_id = pid, pw_payload = payload\<rparr>], cr_appends = [], cr_durable = True, cr_response = client\<rparr>"

lemma apply_batch_total:
  assumes "wal_ready (Suc (length writes)) (st_wal s)" "writes \<noteq> []" "\<not> poisoned s"
    and "\<forall>x\<in>set writes. length (pw_payload x) \<le> MAX_PAGE_PAYLOAD \<and> pw_page_id x \<noteq> NO_PAGE_ID"
    and "length writes < 2 ^ 32"
  shows "\<exists>wl s'. apply_batch crc writes [] durable s = (Inr (wl, []), s')"
proof -
  obtain wl s1 where s1: "write_pages_inner crc writes False s = (Inr wl, s1)" "wal_ready 0 (st_wal s1)"
    using write_pages_inner_total [OF assms(1,2,4,5)] by blast
  obtain w where "wal_sync (st_wal s1) = (Inr (), w)" using wal_sync_total [OF s1(2)] by blast
  then show ?thesis
    using s1(1) assms(2,3) by (simp add: apply_batch_def apply_batch_inner_def poisoning_def on_wal_def)
qed

lemma group_on_fresh_store:
  "\<exists>out g' ls. execute_group byte_sum [one_write 1 0 [7], one_write 2 1 [8]] fresh_committer = (out, g') \<and>
    (1, Committed (Inr ls)) \<in> set out \<and> st_data (gc_store g') = empty_file"
proof -
  let ?rs = "[one_write 1 0 [7], one_write 2 1 [8]]"
  let ?ws = "concat (map cr_writes ?rs)"
  obtain wl s' where b: "apply_batch byte_sum ?ws [] True fresh_store = (Inr (wl, []), s')"
    using apply_batch_total [of ?ws fresh_store byte_sum True] fresh_store_ready [of "Suc (length ?ws)"]
      fresh_store_durable(2)
    by (auto simp: one_write_def NO_PAGE_ID_def page_consts)
  have data: "st_data t = st_data s" if "install_writes xs s = (r, t)" for xs s r t
    using that by (induction xs s rule: install_writes.induct) (auto split: sum.splits)
  have "st_data s' = st_data fresh_store"
    using b by (auto simp: apply_batch_def apply_batch_inner_def poisoning_def write_pages_inner_def
        split: if_splits prod.splits sum.splits elim!: try_then_okE on_wal_okE dest!: data)
  then have "st_data s' = empty_file" by (simp add: fresh_store_def)
  with b show ?thesis
    by (auto simp: execute_group_def Let_def one_write_def fresh_committer_def)
qed

section \<open>Properties\<close>







end
