(* ===== verification/Index_Tree.thy ===== *)
theory Index_Tree
  imports Index_Node Byte_Lru Group_Commit
begin

text \<open>
  Model of \<open>index/src/cache.rs\<close> and \<open>index/src/tree.rs\<close>: immutable B+ tree generations over pages, the
  cache of decoded nodes, building a tree from ordered entries, point lookups, range scans and
  copy-on-write edits. Reads go to a store; page reservations go to its allocator, which the
  operations pass on. A vector that the code uses as a stack is a list whose head is its top.
  The expected level of a node is the natural number of a \<open>u16\<close>.
\<close>

section \<open>Data\<close>

record index_env =
  env_crc :: "bytes \<Rightarrow> u32"
  env_node_size :: nat
  env_entry_size :: nat
  env_pair_size :: nat

datatype index_mutation = Upsert index_entry | Delete bytes

record index_root =
  root_page :: u64
  root_height :: u16
  root_entries :: u64

record index_build_plan =
  plan_root :: "index_root option"
  plan_writes :: "page_write list"

record child =
  ch_key :: bytes
  ch_page :: u64

record cursor_frame =
  cf_children :: "u64 list"
  cf_position :: nat
  cf_child_level :: nat

record edit_frame =
  ef_level :: u16
  ef_children :: "child list"
  ef_position :: nat

record editor =
  ed_cache :: "node lru option"
  ed_allocator :: page_allocator
  ed_root :: "index_root option"
  overlay :: "(u64 \<times> node) list"

section \<open>The node cache\<close>

definition node_cache_new :: "nat \<Rightarrow> node lru" where
  "node_cache_new capacity_bytes = lru_new capacity_bytes"

definition node_cache_get :: "u64 \<Rightarrow> node lru \<Rightarrow> node option \<times> node lru" where
  "node_cache_get pid c = lru_get pid c"

definition node_cache_insert :: "index_env \<Rightarrow> u64 \<Rightarrow> node \<Rightarrow> node lru \<Rightarrow> node lru" where
  "node_cache_insert E pid n c =
    lru_insert pid n (approximate_bytes (env_node_size E) (env_entry_size E) (env_pair_size E) n) c"

definition cache_get :: "u64 \<Rightarrow> node lru option \<Rightarrow> node option \<times> node lru option" where
  "cache_get pid cache =
    (case cache of
       None \<Rightarrow> (None, None)
     | Some c \<Rightarrow> (case node_cache_get pid c of (n, c) \<Rightarrow> (n, Some c)))"

definition cache_put :: "index_env \<Rightarrow> u64 \<Rightarrow> node \<Rightarrow> node lru option \<Rightarrow> node lru option" where
  "cache_put E pid n cache = map_option (node_cache_insert E pid n) cache"

definition load_node :: "index_env \<Rightarrow> store \<Rightarrow> u64 \<Rightarrow> index_error + node" where
  "load_node E s pid =
    (case shared_read_page (env_crc E) pid s of
       Inl e \<Rightarrow> Inl (IndexStorage e)
     | Inr None \<Rightarrow> Inl (corrupt pid ''referenced page does not exist'' [])
     | Inr (Some p) \<Rightarrow> node_decode pid (page_payload p))"

definition read_node ::
    "index_env \<Rightarrow> store \<Rightarrow> u64 \<Rightarrow> node lru option \<Rightarrow> (index_error + node) \<times> node lru option" where
  "read_node E s pid cache =
    (case cache_get pid cache of
       (Some n, cache) \<Rightarrow> (Inr n, cache)
     | (None, cache) \<Rightarrow>
         (case load_node E s pid of
            Inl e \<Rightarrow> (Inl e, cache)
          | Inr n \<Rightarrow> (Inr n, cache_put E pid n cache)))"

section \<open>Partitioning\<close>

fun check_order :: "index_entry list \<Rightarrow> index_error + unit" where
  "check_order (a # b # es) =
    (if ie_key a \<ge> ie_key b then Inl KeysNotStrictlyIncreasing else check_order (b # es))"
| "check_order _ = Inr ()"

fun check_sizes :: "index_entry list \<Rightarrow> index_error + unit" where
  "check_sizes [] = Inr ()"
| "check_sizes (e # es) =
    (case leaf_entry_size (length (ie_key e)) of
       None \<Rightarrow> Inl (KeyTooLarge usize_max (MAX_PAGE_PAYLOAD - header_size))
     | Some entry_size \<Rightarrow>
         if header_size + entry_size > MAX_PAGE_PAYLOAD
         then Inl (KeyTooLarge (length (ie_key e)) (MAX_PAGE_PAYLOAD - header_size - 12))
         else check_sizes es)"

definition validate_entries :: "index_entry list \<Rightarrow> index_error + unit" where
  "validate_entries es =
    (case check_order es of Inl e \<Rightarrow> Inl e | Inr _ \<Rightarrow> check_sizes es)"

text \<open>The inner loop of both partitions: how far a node that starts with \<open>used\<close> bytes can be filled.\<close>

function fill_node :: "(nat \<Rightarrow> nat option) \<Rightarrow> nat \<Rightarrow> nat \<Rightarrow> nat \<Rightarrow> index_error + nat" where
  "fill_node entry_size len e used =
    (if e < len then
       (case entry_size e of
          None \<Rightarrow> Inl (KeyTooLarge usize_max (MAX_PAGE_PAYLOAD - header_size))
        | Some n \<Rightarrow>
            if used + n > MAX_PAGE_PAYLOAD then Inr e
            else fill_node entry_size len (e + 1) (used + n))
     else Inr e)"
  by pat_completeness auto
termination
  by (relation "measure (\<lambda>(entry_size, len, e, used). len - e)") auto

declare fill_node.simps [simp del]

lemma fill_node_bounds: "fill_node sz len e used = Inr j \<Longrightarrow> e \<le> len \<Longrightarrow> e \<le> j \<and> j \<le> len"
proof (induction sz len e used rule: fill_node.induct)
  case (1 sz len e used)
  show ?case
    using 1(2,3) 1(1)
    by (subst (asm) fill_node.simps) (fastforce split: if_splits option.splits)
qed

function partition_by :: "nat \<Rightarrow> (nat \<Rightarrow> nat option) \<Rightarrow> nat \<Rightarrow> index_error + (nat \<times> nat) list" where
  "partition_by len entry_size start =
    (if start < len then
       (case fill_node entry_size len start header_size of
          Inl e \<Rightarrow> Inl e
        | Inr e \<Rightarrow>
            if e = start
            then Inl (KeyTooLarge (case entry_size start of None \<Rightarrow> usize_max | Some n \<Rightarrow> n)
              (MAX_PAGE_PAYLOAD - header_size))
            else (case partition_by len entry_size e of
               Inl err \<Rightarrow> Inl err
             | Inr ranges \<Rightarrow> Inr ((start, e) # ranges)))
     else Inr [])"
  by pat_completeness auto
termination
  by (relation "measure (\<lambda>(len, entry_size, start). len - start)") (auto dest!: fill_node_bounds)

declare partition_by.simps [simp del]

definition partition_leaves :: "index_entry list \<Rightarrow> index_error + (nat \<times> nat) list" where
  "partition_leaves entries =
    partition_by (length entries) (\<lambda>position. leaf_entry_size (length (ie_key (entries ! position)))) 0"

function partition_internal_from :: "child list \<Rightarrow> nat \<Rightarrow> index_error + (nat \<times> nat) list" where
  "partition_internal_from children start =
    (if start < length children then
       (case fill_node (\<lambda>i. internal_entry_size (length (ch_key (children ! i)))) (length children)
          (start + 1) header_size of
          Inl e \<Rightarrow> Inl e
        | Inr e \<Rightarrow>
            if e = start + 1 \<and> e < length children \<and>
               header_size + (case internal_entry_size (length (ch_key (children ! e))) of
                 None \<Rightarrow> usize_max | Some n \<Rightarrow> n) > MAX_PAGE_PAYLOAD
            then Inl (KeyTooLarge (length (ch_key (children ! e))) (MAX_PAGE_PAYLOAD - header_size - 12))
            else (case partition_internal_from children e of
               Inl err \<Rightarrow> Inl err
             | Inr ranges \<Rightarrow> Inr ((start, e) # ranges)))
     else Inr [])"
  by pat_completeness auto
termination
  by (relation "measure (\<lambda>(children, start). length children - start)") (auto dest!: fill_node_bounds)

declare partition_internal_from.simps [simp del]

definition partition_internal :: "child list \<Rightarrow> index_error + (nat \<times> nat) list" where
  "partition_internal children = partition_internal_from children 0"

text \<open>Every range but the last holds at least two children, so each level is at most half as long.\<close>

lemma fill_node_stuck:
  assumes "fill_node sz len e used = Inr e" "e < len"
  shows "\<exists>n. sz e = Some n \<and> used + n > MAX_PAGE_PAYLOAD"
proof (rule ccontr)
  assume no: "\<not> ?thesis"
  then obtain n where n: "sz e = Some n" "used + n \<le> MAX_PAGE_PAYLOAD"
    using assms by (cases "sz e") (auto simp: fill_node.simps [of sz len e used])
  then have "fill_node sz len (e + 1) (used + n) = Inr e"
    using assms by (simp add: fill_node.simps [of sz len e used])
  with fill_node_bounds [OF this] assms(2) show False by simp
qed

lemma partition_internal_fromE:
  assumes "partition_internal_from cs start = Inr rs"
  obtains "start \<ge> length cs" "rs = []"
  | e qs where "start < length cs" "rs = (start, e) # qs" "partition_internal_from cs e = Inr qs"
      "fill_node (\<lambda>i. internal_entry_size (length (ch_key (cs ! i)))) (length cs) (start + 1) header_size = Inr e"
      "start + 2 \<le> e \<or> e = length cs" "start < e" "e \<le> length cs"
proof (cases "start < length cs")
  case True
  let ?sz = "\<lambda>i. internal_entry_size (length (ch_key (cs ! i)))"
  obtain e where f: "fill_node ?sz (length cs) (start + 1) header_size = Inr e"
    using assms True by (cases "fill_node ?sz (length cs) (start + 1) header_size")
      (simp_all add: partition_internal_from.simps [of cs start])
  note b = fill_node_bounds [OF f]
  have no: "\<not> (e = start + 1 \<and> e < length cs \<and>
      header_size + (case ?sz e of None \<Rightarrow> usize_max | Some n \<Rightarrow> n) > MAX_PAGE_PAYLOAD)"
    using assms True f by (auto simp: partition_internal_from.simps [of cs start])
  have e: "start + 2 \<le> e \<or> e = length cs"
  proof (rule ccontr)
    assume c: "\<not> ?thesis"
    then have "e = start + 1" "e < length cs" using b True by auto
    with fill_node_stuck [of ?sz "length cs" e header_size] f no show False by auto
  qed
  obtain qs where q: "partition_internal_from cs e = Inr qs" "rs = (start, e) # qs"
    using assms True f no
    by (cases "partition_internal_from cs e") (auto simp: partition_internal_from.simps [of cs start] split: if_splits)
  from that(2) [OF True q(2,1) f e] b True show thesis by auto
qed (use assms that(1) in \<open>simp add: partition_internal_from.simps [of cs start]\<close>)

lemma partition_internal_halves:
  "partition_internal_from cs start = Inr rs \<Longrightarrow> start \<le> length cs \<Longrightarrow> 2 * length rs \<le> length cs - start + 1"
proof (induction "length cs - start" arbitrary: start rs rule: less_induct)
  case less
  from less.prems(1) show ?case
  proof (cases rule: partition_internal_fromE)
    case (2 e qs)
    have "2 * length qs \<le> length cs - e + 1" using 2 by (intro less.hyps) auto
    moreover have "qs = []" if "e = length cs"
      using 2(3) that by (simp add: partition_internal_from.simps [of cs "length cs"])
    ultimately show ?thesis using 2 by (cases "e = length cs") auto
  qed simp
qed

section \<open>Building a tree\<close>

definition internal_of :: "u16 \<Rightarrow> child list \<Rightarrow> node" where
  "internal_of level grp =
    Internal level (ch_page (grp ! 0)) (map (\<lambda>c. (ch_key c, ch_page c)) (drop 1 grp))"

fun plan_leaves ::
    "index_entry list \<Rightarrow> (nat \<times> nat) list \<Rightarrow> u64 list \<Rightarrow> index_error + (page_write list \<times> child list)" where
  "plan_leaves entries ((start, e) # ranges) (pid # pids) =
    (let next = (case pids of [] \<Rightarrow> None | p # _ \<Rightarrow> Some p) in
     case node_encode (Leaf (slice entries start e) next) of
       Inl err \<Rightarrow> Inl err
     | Inr payload \<Rightarrow>
         (case plan_leaves entries ranges pids of
            Inl err \<Rightarrow> Inl err
          | Inr (writes, children) \<Rightarrow>
              Inr (\<lparr>pw_page_id = pid, pw_payload = payload\<rparr> # writes,
                   \<lparr>ch_key = ie_key (entries ! start), ch_page = pid\<rparr> # children)))"
| "plan_leaves entries _ _ = Inr ([], [])"

fun plan_parents ::
    "u16 \<Rightarrow> child list \<Rightarrow> (nat \<times> nat) list \<Rightarrow> u64 list \<Rightarrow> index_error + (page_write list \<times> child list)" where
  "plan_parents level children ((start, e) # ranges) (pid # pids) =
    (let grp = slice children start e in
     case node_encode (internal_of level grp) of
       Inl err \<Rightarrow> Inl err
     | Inr payload \<Rightarrow>
         (case plan_parents level children ranges pids of
            Inl err \<Rightarrow> Inl err
          | Inr (writes, parents) \<Rightarrow>
              Inr (\<lparr>pw_page_id = pid, pw_payload = payload\<rparr> # writes,
                   \<lparr>ch_key = ch_key (grp ! 0), ch_page = pid\<rparr> # parents)))"
| "plan_parents level children _ _ = Inr ([], [])"

definition reserve_for :: "nat \<Rightarrow> page_allocator \<Rightarrow> (index_error + u64 list) \<times> page_allocator" where
  "reserve_for count a =
    (case reserve count a of (Inl e, a) \<Rightarrow> (Inl (IndexStorage e), a) | (Inr ids, a) \<Rightarrow> (Inr ids, a))"

lemma plan_parents_length:
  "plan_parents level cs rs ids = Inr (ws, ps) \<Longrightarrow> length ps \<le> length rs"
  by (induction level cs rs ids arbitrary: ws ps rule: plan_parents.induct)
    (auto simp: Let_def split: sum.splits)

definition plan_level ::
    "u16 \<Rightarrow> child list \<Rightarrow> page_allocator \<Rightarrow> (index_error + (page_write list \<times> child list)) \<times> page_allocator" where
  "plan_level level children a =
    (case partition_internal children of
       Inl e \<Rightarrow> (Inl e, a)
     | Inr ranges \<Rightarrow>
         try_then (reserve_for (length ranges) a) (\<lambda>page_ids a.
         (plan_parents level children ranges page_ids, a)))"

lemma plan_level_shrinks:
  assumes "plan_level level cs a = (Inr (ws, ps), a')" "length cs > 1"
  shows "length ps < length cs"
proof -
  obtain rs ids where r: "partition_internal cs = Inr rs" "plan_parents level cs rs ids = Inr (ws, ps)"
    using assms(1) by (auto simp: plan_level_def split: sum.splits elim!: try_then_okE)
  have "2 * length rs \<le> length cs + 1"
    using partition_internal_halves [of cs 0 rs] r(1) by (simp add: partition_internal_def)
  with plan_parents_length [OF r(2)] assms(2) show ?thesis by simp
qed

function plan_levels ::
    "u16 \<Rightarrow> child list \<Rightarrow> page_write list \<Rightarrow> page_allocator \<Rightarrow>
     (index_error + (u16 \<times> child list \<times> page_write list)) \<times> page_allocator" where
  "plan_levels level children writes a =
    (if length children > 1 then
       (if unat level + 1 \<ge> 2 ^ 16 then (Inl EntryCountOverflow, a)
        else (case plan_level (level + 1) children a of
          (Inl e, a) \<Rightarrow> (Inl e, a)
        | (Inr (ws, parents), a) \<Rightarrow> plan_levels (level + 1) parents (writes @ ws) a))
     else (Inr (level, children, writes), a))"
  by pat_completeness auto
termination
  by (relation "measure (\<lambda>(level, children, writes, a). length children)")
    (auto dest!: plan_level_shrinks [OF sym])

declare plan_levels.simps [simp del]

definition plan_index ::
    "index_entry list \<Rightarrow> page_allocator \<Rightarrow> (index_error + index_build_plan) \<times> page_allocator" where
  "plan_index entries a =
    (case validate_entries entries of
       Inl e \<Rightarrow> (Inl e, a)
     | Inr _ \<Rightarrow>
         if entries = [] then (Inr \<lparr>plan_root = None, plan_writes = []\<rparr>, a)
         else if length entries \<ge> 2 ^ 64 then (Inl EntryCountOverflow, a)
         else (case partition_leaves entries of
           Inl e \<Rightarrow> (Inl e, a)
         | Inr leaf_ranges \<Rightarrow>
             try_then (reserve_for (length leaf_ranges) a) (\<lambda>leaf_page_ids a.
             (case plan_leaves entries leaf_ranges leaf_page_ids of
                Inl e \<Rightarrow> (Inl e, a)
              | Inr (writes, children) \<Rightarrow>
                  try_then (plan_levels 0 children writes a) (\<lambda>(level, children, writes) a.
                  if unat level + 1 \<ge> 2 ^ 16 then (Inl EntryCountOverflow, a)
                  else (Inr \<lparr>plan_root = Some \<lparr>root_page = ch_page (children ! 0),
                      root_height = level + 1, root_entries = word_of_nat (length entries)\<rparr>,
                    plan_writes = writes\<rparr>, a))))))"

definition tree_build ::
    "index_env \<Rightarrow> index_entry list \<Rightarrow> committer \<Rightarrow> (index_error + index_root option) \<times> committer" where
  "tree_build E entries g =
    (case plan_index entries (allocator (gc_store g)) of (plan, a) \<Rightarrow>
       let g = g\<lparr>gc_store := (gc_store g)\<lparr>allocator := a\<rparr>\<rparr> in
       (case plan of
          Inl e \<Rightarrow> (Inl e, g)
        | Inr plan \<Rightarrow>
            (case client_call (env_crc E) (handle_commit (plan_writes plan) 0) g of
               (Inl e, g) \<Rightarrow> (Inl (IndexStorage e), g)
             | (Inr _, g) \<Rightarrow> (Inr (plan_root plan), g))))"

section \<open>Lookups\<close>

definition child_for :: "bytes \<Rightarrow> u64 \<Rightarrow> (bytes \<times> u64) list \<Rightarrow> u64" where
  "child_for key first_child separators =
    (let child_position = partition_point (\<lambda>(separator, _). separator \<le> key) separators in
     if child_position = 0 then first_child else snd (separators ! (child_position - 1)))"

fun get_loop ::
    "index_env \<Rightarrow> store \<Rightarrow> bytes \<Rightarrow> nat \<Rightarrow> u64 \<Rightarrow> node lru option \<Rightarrow> (index_error + u64 option) \<times> node lru option" where
  "get_loop E s key expected_level pid cache =
    try_then (read_node E s pid cache) (\<lambda>n cache.
    if unat (node_level n) \<noteq> expected_level
    then (Inl (corrupt pid ''node level {} does not match expected level {expected_level}''
      [unat (node_level n), expected_level]), cache)
    else case n of
      Leaf entries _ \<Rightarrow>
        (Inr (case binary_search ie_key key entries of
           Inr position \<Rightarrow> Some (ie_value (entries ! position)) | Inl _ \<Rightarrow> None), cache)
    | Internal _ first_child separators \<Rightarrow>
        let pid = child_for key first_child separators in
        (case expected_level of
           0 \<Rightarrow> (Inl (corrupt pid ''internal node below leaf level'' []), cache)
         | Suc level \<Rightarrow> get_loop E s key level pid cache))"

declare get_loop.simps [simp del]

definition tree_get ::
    "index_env \<Rightarrow> store \<Rightarrow> index_root \<Rightarrow> bytes \<Rightarrow> node lru option \<Rightarrow> (index_error + u64 option) \<times> node lru option" where
  "tree_get E s root key cache =
    (if root_height root = 0
     then (Inl (corrupt (root_page root) ''root height cannot be zero'' []), cache)
     else get_loop E s key (unat (root_height root) - 1) (root_page root) cache)"

section \<open>Range scans\<close>

record cursor =
  cu_frames :: "cursor_frame list"
  cu_visited :: "u64 list"
  cu_cache :: "node lru option"

definition cursor_read :: "index_env \<Rightarrow> store \<Rightarrow> u64 \<Rightarrow> cursor \<Rightarrow> (index_error + node) \<times> cursor" where
  "cursor_read E s pid c = (case read_node E s pid (cu_cache c) of (r, cache) \<Rightarrow> (r, c\<lparr>cu_cache := cache\<rparr>))"

fun descend_to_leaf ::
    "index_env \<Rightarrow> store \<Rightarrow> bytes option \<Rightarrow> nat \<Rightarrow> u64 \<Rightarrow> cursor \<Rightarrow> (index_error + (u64 \<times> nat)) \<times> cursor" where
  "descend_to_leaf E s key expected_level pid c =
    (if pid \<in> set (cu_visited c)
     then (Inl (corrupt pid ''index tree contains a page cycle'' []), c)
     else try_then (cursor_read E s pid (c\<lparr>cu_visited := pid # cu_visited c\<rparr>)) (\<lambda>n c.
     if unat (node_level n) \<noteq> expected_level
     then (Inl (corrupt pid ''node level does not match tree height'' []), c)
     else case n of
       Leaf _ _ \<Rightarrow> (Inr (pid, expected_level), c)
     | Internal _ first_child separators \<Rightarrow>
         let children = first_child # map snd separators;
             position = (case key of
                 None \<Rightarrow> 0
               | Some key \<Rightarrow> partition_point (\<lambda>(separator, _). separator \<le> key) separators) in
         (case expected_level of
            0 \<Rightarrow> (Inl (corrupt pid ''internal node below leaf level'' []), c)
          | Suc level \<Rightarrow>
              descend_to_leaf E s key level (children ! position)
                (c\<lparr>cu_frames := \<lparr>cf_children = children, cf_position = position, cf_child_level = level\<rparr>
                  # cu_frames c\<rparr>))))"

declare descend_to_leaf.simps [simp del]

function advance_to_next_leaf ::
    "index_env \<Rightarrow> store \<Rightarrow> cursor \<Rightarrow> (index_error + u64 option) \<times> cursor" where
  "advance_to_next_leaf E s c =
    (case cu_frames c of
       [] \<Rightarrow> (Inr None, c)
     | frame # frames \<Rightarrow>
         if cf_position frame + 1 < length (cf_children frame) then
           let frame = frame\<lparr>cf_position := cf_position frame + 1\<rparr> in
           try_then (descend_to_leaf E s None (cf_child_level frame)
               (cf_children frame ! cf_position frame) (c\<lparr>cu_frames := frame # frames\<rparr>)) (\<lambda>(pid, _) c.
           (Inr (Some pid), c))
         else advance_to_next_leaf E s (c\<lparr>cu_frames := frames\<rparr>))"
  by pat_completeness auto
termination
  by (relation "measure (\<lambda>(E, s, c). length (cu_frames c))") auto

declare advance_to_next_leaf.simps [simp del]

text \<open>The entries of one leaf: the flag says that the scan is over.\<close>

fun scan_entries ::
    "u64 \<Rightarrow> bytes option \<Rightarrow> bytes option \<Rightarrow> nat \<Rightarrow> index_entry list \<Rightarrow> index_entry list \<Rightarrow> bytes option \<Rightarrow>
     index_error + (bool \<times> index_entry list \<times> bytes option)" where
  "scan_entries pid lower upper limit [] result previous_key = Inr (False, result, previous_key)"
| "scan_entries pid lower upper limit (e # es) result previous_key =
    (if (case lower of Some l \<Rightarrow> ie_key e < l | None \<Rightarrow> False)
     then scan_entries pid lower upper limit es result previous_key
     else if (case upper of Some u \<Rightarrow> ie_key e \<ge> u | None \<Rightarrow> False)
     then Inr (True, result, previous_key)
     else if (case previous_key of Some previous \<Rightarrow> previous \<ge> ie_key e | None \<Rightarrow> False)
     then Inl (corrupt pid ''leaf chain is not strictly ordered'' [])
     else let result = result @ [e] in
       if length result = limit then Inr (True, result, Some (ie_key e))
       else scan_entries pid lower upper limit es result (Some (ie_key e)))"

text \<open>A page is descended into at most once, so a scan ends: the visited set grows with every leaf.\<close>

lemma cursor_read_visited: "cursor_read E s pid c = (r, c') \<Longrightarrow> cu_visited c' = cu_visited c \<and> cu_frames c' = cu_frames c"
  by (auto simp: cursor_read_def split: prod.splits)

lemma descend_visits:
  "descend_to_leaf E s key level pid c = (Inr x, c') \<Longrightarrow>
    pid \<notin> set (cu_visited c) \<and> insert pid (set (cu_visited c)) \<subseteq> set (cu_visited c')"
proof (induction E s key level pid c rule: descend_to_leaf.induct)
  case (1 E s key level pid c)
  note d = 1(2) [unfolded descend_to_leaf.simps [of E s key level pid c]]
  then have new: "pid \<notin> set (cu_visited c)" by (auto split: if_splits)
  then obtain n c1 where r: "cursor_read E s pid (c\<lparr>cu_visited := pid # cu_visited c\<rparr>) = (Inr n, c1)"
    and lv: "unat (node_level n) = level"
    using d by (auto split: if_splits elim!: try_then_okE)
  note v = cursor_read_visited [OF r]
  show ?case
  proof (cases n)
    case (Leaf es nx)
    with d new r lv v show ?thesis by auto
  next
    case (Internal l fc seps)
    then obtain l' where l': "level = Suc l'" using d new r lv by (cases level) (auto simp: Let_def)
    let ?pos = "case key of None \<Rightarrow> 0 | Some key \<Rightarrow> partition_point (\<lambda>(separator, _). separator \<le> key) seps"
    let ?cs = "fc # map snd seps"
    let ?c = "c1\<lparr>cu_frames := \<lparr>cf_children = ?cs, cf_position = ?pos, cf_child_level = l'\<rparr> # cu_frames c1\<rparr>"
    have rec: "descend_to_leaf E s key l' (?cs ! ?pos) ?c = (Inr x, c')"
      using d new r lv Internal l' by (simp add: Let_def)
    have "set (cu_visited ?c) \<subseteq> set (cu_visited c')"
      using 1(1) [OF new _ Internal refl refl l' rec] lv by auto
    with new v show ?thesis by auto
  qed
qed

lemma advance_visits:
  "advance_to_next_leaf E s c = (Inr (Some p), c') \<Longrightarrow> set (cu_visited c) \<subset> set (cu_visited c')"
proof (induction E s c rule: advance_to_next_leaf.induct)
  case (1 E s c)
  note a = 1(2) [unfolded advance_to_next_leaf.simps [of E s c]]
  then obtain fr frs where f: "cu_frames c = fr # frs" by (auto split: list.splits)
  show ?case
  proof (cases "cf_position fr + 1 < length (cf_children fr)")
    case True
    with a f obtain x where "descend_to_leaf E s None (cf_child_level fr) (cf_children fr ! (cf_position fr + 1))
        (c\<lparr>cu_frames := fr\<lparr>cf_position := cf_position fr + 1\<rparr> # frs\<rparr>) = (Inr x, c')"
      by (auto simp: Let_def elim!: try_then_okE)
    from descend_visits [OF this] show ?thesis by auto
  next
    case False
    with a f 1(1) [OF f False] show ?thesis by simp
  qed
qed

function scan_leaves ::
    "index_env \<Rightarrow> store \<Rightarrow> bytes option \<Rightarrow> bytes option \<Rightarrow> nat \<Rightarrow> u64 \<Rightarrow> index_entry list \<Rightarrow> bytes option \<Rightarrow>
     cursor \<Rightarrow> (index_error + index_entry list) \<times> cursor" where
  "scan_leaves E s lower upper limit pid result previous_key c =
    (if length result < limit then
       (case cursor_read E s pid c of
          (Inl e, c) \<Rightarrow> (Inl e, c)
        | (Inr n, c) \<Rightarrow>
            (case n of
               Internal _ _ _ \<Rightarrow> (Inl (corrupt pid ''tree cursor reached an internal node'' []), c)
             | Leaf entries _ \<Rightarrow>
                 (case scan_entries pid lower upper limit entries result previous_key of
                    Inl e \<Rightarrow> (Inl e, c)
                  | Inr (True, result, _) \<Rightarrow> (Inr result, c)
                  | Inr (False, result, previous_key) \<Rightarrow>
                      (case advance_to_next_leaf E s c of
                         (Inl e, c) \<Rightarrow> (Inl e, c)
                       | (Inr None, c) \<Rightarrow> (Inr result, c)
                       | (Inr (Some next), c) \<Rightarrow>
                           scan_leaves E s lower upper limit next result previous_key c))))
     else (Inr result, c))"
  by pat_completeness auto
termination
  by (relation "measure (\<lambda>(E, s, lower, upper, limit, pid, result, previous_key, c).
      card (- set (cu_visited c)))")
    (auto dest!: advance_visits [OF sym] cursor_read_visited [OF sym] intro!: psubset_card_mono)

declare scan_leaves.simps [simp del]

definition tree_range ::
    "index_env \<Rightarrow> store \<Rightarrow> index_root \<Rightarrow> bytes option \<Rightarrow> bytes option \<Rightarrow> nat \<Rightarrow> node lru option \<Rightarrow>
     (index_error + index_entry list) \<times> node lru option" where
  "tree_range E s root lower upper limit cache =
    (if limit = 0 \<or> (case (lower, upper) of (Some l, Some u) \<Rightarrow> l \<ge> u | _ \<Rightarrow> False) then (Inr [], cache)
     else if root_height root = 0
     then (Inl (corrupt (root_page root) ''root height cannot be zero'' []), cache)
     else
       let c = \<lparr>cu_frames = [], cu_visited = [], cu_cache = cache\<rparr> in
       (case try_then (descend_to_leaf E s (Some (case lower of None \<Rightarrow> [] | Some l \<Rightarrow> l))
            (unat (root_height root) - 1) (root_page root) c) (\<lambda>(pid, _) c.
          scan_leaves E s lower upper limit pid [] None c) of
          (r, c) \<Rightarrow> (r, cu_cache c)))"

section \<open>Copy-on-write edits\<close>

definition editor_read :: "index_env \<Rightarrow> store \<Rightarrow> u64 \<Rightarrow> editor \<Rightarrow> (index_error + node) \<times> editor" where
  "editor_read E s pid ed =
    (case map_of (overlay ed) pid of
       Some n \<Rightarrow> (Inr n, ed)
     | None \<Rightarrow> (case read_node E s pid (ed_cache ed) of (r, cache) \<Rightarrow> (r, ed\<lparr>ed_cache := cache\<rparr>)))"

definition editor_allocate :: "node \<Rightarrow> editor \<Rightarrow> (index_error + u64) \<times> editor" where
  "editor_allocate n ed =
    (case reserve_for 1 (ed_allocator ed) of
       (Inl e, a) \<Rightarrow> (Inl e, ed\<lparr>ed_allocator := a\<rparr>)
     | (Inr ids, a) \<Rightarrow>
         (case ids of
            [] \<Rightarrow> (Inl EntryCountOverflow, ed\<lparr>ed_allocator := a\<rparr>)
          | pid # _ \<Rightarrow>
              (Inr pid, ed\<lparr>ed_allocator := a, overlay := AList.update pid n (overlay ed)\<rparr>)))"

function first_key ::
    "index_env \<Rightarrow> store \<Rightarrow> u64 list \<Rightarrow> u64 \<Rightarrow> editor \<Rightarrow> (index_error + bytes) \<times> editor" where
  "first_key E s visited pid ed =
    (if pid \<in> set visited then (Inl (corrupt pid ''index tree contains a page cycle'' []), ed)
     else try_then (editor_read E s pid ed) (\<lambda>n ed.
     case n of
       Leaf entries _ \<Rightarrow>
         (case entries of
            [] \<Rightarrow> (Inl (corrupt pid ''reachable leaf is empty'' []), ed)
          | e # _ \<Rightarrow> (Inr (ie_key e), ed))
     | Internal _ first_child _ \<Rightarrow> first_key E s (pid # visited) first_child ed))"
  by pat_completeness auto
termination
  by (relation "measure (\<lambda>(E, s, visited, pid, ed). card (- set visited))")
    (auto intro!: psubset_card_mono)

declare first_key.simps [simp del]

text \<open>The way from the root to the leaf of a key, with the children of every node on it.\<close>

fun edit_descend ::
    "index_env \<Rightarrow> store \<Rightarrow> bytes \<Rightarrow> nat \<Rightarrow> u64 \<Rightarrow> bytes \<Rightarrow> edit_frame list \<Rightarrow> editor \<Rightarrow>
     (index_error + (index_entry list \<times> edit_frame list)) \<times> editor" where
  "edit_descend E s key expected_level pid fkey frames ed =
    try_then (editor_read E s pid ed) (\<lambda>n ed.
    if unat (node_level n) \<noteq> expected_level
    then (Inl (corrupt pid ''node level does not match tree height'' []), ed)
    else case n of
      Leaf entries _ \<Rightarrow> (Inr (entries, frames), ed)
    | Internal level first_child separators \<Rightarrow>
        let children = \<lparr>ch_key = fkey, ch_page = first_child\<rparr> #
              map (\<lambda>(k, p). \<lparr>ch_key = k, ch_page = p\<rparr>) separators;
            position = partition_point (\<lambda>c. ch_key c \<le> key) children - 1;
            c = children ! position in
        (case expected_level of
           0 \<Rightarrow> (Inl (corrupt (ch_page c) ''internal node below leaf level'' []), ed)
         | Suc l \<Rightarrow>
             edit_descend E s key l (ch_page c) (ch_key c)
               (\<lparr>ef_level = level, ef_children = children, ef_position = position\<rparr> # frames) ed))"

declare edit_descend.simps [simp del]

fun make_leaves_from ::
    "index_entry list \<Rightarrow> (nat \<times> nat) list \<Rightarrow> editor \<Rightarrow> (index_error + child list) \<times> editor" where
  "make_leaves_from entries [] ed = (Inr [], ed)"
| "make_leaves_from entries ((start, e) # ranges) ed =
    try_then (editor_allocate (Leaf (slice entries start e) None) ed) (\<lambda>pid ed.
    try_then (make_leaves_from entries ranges ed) (\<lambda>cs ed.
    (Inr (\<lparr>ch_key = ie_key (entries ! start), ch_page = pid\<rparr> # cs), ed)))"

definition make_leaves :: "index_entry list \<Rightarrow> editor \<Rightarrow> (index_error + child list) \<times> editor" where
  "make_leaves entries ed =
    (if entries = [] then (Inr [], ed)
     else case partition_leaves entries of
       Inl e \<Rightarrow> (Inl e, ed)
     | Inr ranges \<Rightarrow> make_leaves_from entries ranges ed)"

fun make_internal_from ::
    "u16 \<Rightarrow> child list \<Rightarrow> (nat \<times> nat) list \<Rightarrow> editor \<Rightarrow> (index_error + child list) \<times> editor" where
  "make_internal_from level children [] ed = (Inr [], ed)"
| "make_internal_from level children ((start, e) # ranges) ed =
    (let grp = slice children start e in
     try_then (editor_allocate (internal_of level grp) ed) (\<lambda>pid ed.
     try_then (make_internal_from level children ranges ed) (\<lambda>cs ed.
     (Inr (\<lparr>ch_key = ch_key (grp ! 0), ch_page = pid\<rparr> # cs), ed))))"

definition make_internal_level :: "u16 \<Rightarrow> child list \<Rightarrow> editor \<Rightarrow> (index_error + child list) \<times> editor" where
  "make_internal_level level children ed =
    (case partition_internal children of
       Inl e \<Rightarrow> (Inl e, ed)
     | Inr ranges \<Rightarrow> make_internal_from level children ranges ed)"

text \<open>The loop that pops the frames and rebuilds the path, with the height of the tree.\<close>

fun rebuild_path ::
    "u64 \<Rightarrow> edit_frame list \<Rightarrow> child list \<Rightarrow> u16 \<Rightarrow> editor \<Rightarrow> (index_error + (child list \<times> u16)) \<times> editor" where
  "rebuild_path rpage [] replacement height ed = (Inr (replacement, height), ed)"
| "rebuild_path rpage (fr # frames) replacement height ed =
    (let children = take (ef_position fr) (ef_children fr) @ replacement @ drop (ef_position fr + 1) (ef_children fr) in
     if children = [] then rebuild_path rpage frames [] height ed
     else if frames = [] \<and> length children = 1 then
       (if height = 0 then (Inl (corrupt rpage ''tree height underflow'' []), ed)
        else rebuild_path rpage frames children (height - 1) ed)
     else try_then (make_internal_level (ef_level fr) children ed) (\<lambda>replacement ed.
       rebuild_path rpage frames replacement height ed))"

datatype entry_delta = Unchanged | Added | Removed

text \<open>The change of a leaf; \<open>None\<close> when a key to delete is not there.\<close>

definition change_leaf ::
    "bytes \<Rightarrow> u64 option \<Rightarrow> index_entry list \<Rightarrow> (index_entry list \<times> entry_delta) option" where
  "change_leaf key value entries =
    (case (binary_search ie_key key entries, value) of
       (Inr position, Some v) \<Rightarrow> Some (entries[position := (entries ! position)\<lparr>ie_value := v\<rparr>], Unchanged)
     | (Inl position, Some v) \<Rightarrow>
         Some (take position entries @ \<lparr>ie_key = key, ie_value = v\<rparr> # drop position entries, Added)
     | (Inr position, None) \<Rightarrow> Some (take position entries @ drop (position + 1) entries, Removed)
     | (Inl _, None) \<Rightarrow> None)"

definition count_entries :: "index_root \<Rightarrow> entry_delta \<Rightarrow> index_error + u64" where
  "count_entries root d =
    (case d of
       Removed \<Rightarrow>
         if root_entries root = 0
         then Inl (corrupt (root_page root) ''root entry count underflow'' [])
         else Inr (root_entries root - 1)
     | Unchanged \<Rightarrow> Inr (root_entries root)
     | Added \<Rightarrow>
         (case checked_add_u64 (root_entries root) 1 of
            None \<Rightarrow> Inl EntryCountOverflow
          | Some n \<Rightarrow> Inr n))"

definition install_root :: "child list \<Rightarrow> u16 \<Rightarrow> u64 \<Rightarrow> editor \<Rightarrow> (index_error + unit) \<times> editor" where
  "install_root replacement height entries ed =
    (case replacement of
       [] \<Rightarrow> (Inr (), ed\<lparr>ed_root := None\<rparr>)
     | [c] \<Rightarrow>
         (Inr (), ed\<lparr>ed_root := Some \<lparr>root_page = ch_page c, root_height = height, root_entries = entries\<rparr>\<rparr>)
     | _ \<Rightarrow>
         try_then (editor_allocate (internal_of height replacement) ed) (\<lambda>pid ed.
         if unat height + 1 \<ge> 2 ^ 16 then (Inl EntryCountOverflow, ed)
         else (Inr (), ed\<lparr>ed_root :=
           Some \<lparr>root_page = pid, root_height = height + 1, root_entries = entries\<rparr>\<rparr>)))"

definition mutation_key :: "index_mutation \<Rightarrow> index_error + (bytes \<times> u64 option)" where
  "mutation_key m =
    (case m of
       Upsert e \<Rightarrow>
         (case validate_entries [e] of
            Inl err \<Rightarrow> Inl err
          | Inr _ \<Rightarrow> Inr (ie_key e, Some (ie_value e)))
     | Delete key \<Rightarrow> Inr (key, None))"

definition apply_to_tree ::
    "index_env \<Rightarrow> store \<Rightarrow> index_root \<Rightarrow> bytes \<Rightarrow> u64 option \<Rightarrow> editor \<Rightarrow> (index_error + unit) \<times> editor" where
  "apply_to_tree E s root key value ed =
    (if root_height root = 0
     then (Inl (corrupt (root_page root) ''root height cannot be zero'' []), ed)
     else try_then (first_key E s [] (root_page root) ed) (\<lambda>fkey ed.
       try_then (edit_descend E s key (unat (root_height root) - 1) (root_page root) fkey [] ed)
         (\<lambda>(leaf_entries, frames) ed.
       case change_leaf key value leaf_entries of
         None \<Rightarrow> (Inr (), ed)
       | Some (leaf_entries, d) \<Rightarrow>
           try_then (make_leaves leaf_entries ed) (\<lambda>replacement ed.
           try_then (rebuild_path (root_page root) frames replacement (root_height root) ed)
             (\<lambda>(replacement, height) ed.
           case count_entries root d of
             Inl e \<Rightarrow> (Inl e, ed)
           | Inr entries \<Rightarrow> install_root replacement height entries ed)))))"

definition editor_apply ::
    "index_env \<Rightarrow> store \<Rightarrow> index_mutation \<Rightarrow> editor \<Rightarrow> (index_error + unit) \<times> editor" where
  "editor_apply E s mutation ed =
    (case mutation_key mutation of
       Inl e \<Rightarrow> (Inl e, ed)
     | Inr (key, value) \<Rightarrow>
         (case ed_root ed of
            None \<Rightarrow>
              (case value of
                 None \<Rightarrow> (Inr (), ed)
               | Some v \<Rightarrow>
                   try_then (editor_allocate (Leaf [\<lparr>ie_key = key, ie_value = v\<rparr>] None) ed) (\<lambda>pid ed.
                   (Inr (), ed\<lparr>ed_root := Some \<lparr>root_page = pid, root_height = 1, root_entries = 1\<rparr>\<rparr>)))
          | Some root \<Rightarrow> apply_to_tree E s root key value ed))"

text \<open>The pages of the overlay that the final root reaches.\<close>

function reach_overlay :: "(u64 \<times> node) list \<Rightarrow> u64 list \<Rightarrow> u64 list \<Rightarrow> index_error + u64 list" where
  "reach_overlay ov reachable pending =
    (case pending of
       [] \<Rightarrow> Inr reachable
     | pid # pending \<Rightarrow>
         if pid \<in> set reachable
         then Inl (corrupt pid ''copy-on-write plan contains a page cycle'' [])
         else (case map_of ov pid of
             Some (Internal _ first_child separators) \<Rightarrow>
               reach_overlay ov (pid # reachable) (rev (first_child # map snd separators) @ pending)
           | _ \<Rightarrow> reach_overlay ov (pid # reachable) pending))"
  by pat_completeness auto
termination
  by (relation "measure (\<lambda>(ov, reachable, pending). card (- set reachable))")
    (auto intro!: psubset_card_mono)

declare reach_overlay.simps [simp del]

fun encode_pages :: "(u64 \<times> node) list \<Rightarrow> u64 list \<Rightarrow> index_error + page_write list" where
  "encode_pages ov [] = Inr []"
| "encode_pages ov (pid # pids) =
    (case map_of ov pid of
       None \<Rightarrow> encode_pages ov pids
     | Some n \<Rightarrow>
         (case node_encode n of
            Inl e \<Rightarrow> Inl e
          | Inr payload \<Rightarrow>
              (case encode_pages ov pids of
                 Inl e \<Rightarrow> Inl e
               | Inr ws \<Rightarrow> Inr (\<lparr>pw_page_id = pid, pw_payload = payload\<rparr> # ws))))"

definition editor_finish :: "editor \<Rightarrow> index_error + index_build_plan" where
  "editor_finish ed =
    (case reach_overlay (overlay ed) [] (case ed_root ed of None \<Rightarrow> [] | Some r \<Rightarrow> [root_page r]) of
       Inl e \<Rightarrow> Inl e
     | Inr reachable \<Rightarrow>
         let page_ids = sort (filter (\<lambda>p. map_of (overlay ed) p \<noteq> None) reachable) in
         (case encode_pages (overlay ed) page_ids of
            Inl e \<Rightarrow> Inl e
          | Inr writes \<Rightarrow> Inr \<lparr>plan_root = ed_root ed, plan_writes = writes\<rparr>))"

fun apply_all :: "index_env \<Rightarrow> store \<Rightarrow> index_mutation list \<Rightarrow> editor \<Rightarrow> (index_error + unit) \<times> editor" where
  "apply_all E s [] ed = (Inr (), ed)"
| "apply_all E s (m # ms) ed = try_then (editor_apply E s m ed) (\<lambda>_ ed. apply_all E s ms ed)"

definition edit_plan ::
    "index_env \<Rightarrow> store \<Rightarrow> node lru option \<Rightarrow> index_root option \<Rightarrow> index_mutation list \<Rightarrow> page_allocator \<Rightarrow>
     (index_error + index_build_plan) \<times> editor" where
  "edit_plan E s cache root mutations a =
    try_then (apply_all E s mutations
      \<lparr>ed_cache = cache, ed_allocator = a, ed_root = root, overlay = []\<rparr>) (\<lambda>_ ed.
    (editor_finish ed, ed))"

end
