(* ===== verification/Index_Spec.thy ===== *)
theory Index_Spec
  imports Index_Tree
begin

text \<open>
  What a tree of pages means: \<open>tree_at\<close> relates a page at a level to the entries below it and to the
  pages it is made of. Every separator is the first key of the child to its right, no leaf is
  empty, and the entries of the whole tree are in strictly increasing key order. Point lookups
  and range scans are shown to answer from those entries.
\<close>

section \<open>Reading through the cache\<close>

definition cache_lookup :: "node lru option \<Rightarrow> u64 \<Rightarrow> node option" where
  "cache_lookup cache pid = (case cache of None \<Rightarrow> None | Some c \<Rightarrow> lru_lookup c pid)"

interpretation node_cache: page_cache cache_lookup cache_get "cache_put E" for E
proof unfold_locales
  show "fst (cache_get p c) = cache_lookup c p" for p c
  proof (cases c)
    case (Some l)
    then show ?thesis
      using lru_cache.get_value [of p l] by (cases "lru_get p l") (simp add: cache_get_def cache_lookup_def node_cache_get_def)
  qed (simp add: cache_get_def cache_lookup_def)
  show "cache_lookup (snd (cache_get p c)) q = cache_lookup c q" for p q c
  proof (cases c)
    case (Some l)
    then show ?thesis
      using lru_cache.get_keeps [of p l q] by (cases "lru_get p l") (simp add: cache_get_def cache_lookup_def node_cache_get_def)
  qed (simp add: cache_get_def cache_lookup_def)
  show "q = p \<and> w = v \<or> cache_lookup c q = Some w" if "cache_lookup (cache_put E p v c) q = Some w" for p v c q w
  proof (cases c)
    case (Some l)
    then show ?thesis
      using that lru_cache.put_sound [of p v "approximate_bytes (env_node_size E) (env_entry_size E) (env_pair_size E)" l q w]
      by (simp add: cache_put_def cache_lookup_def node_cache_insert_def)
  qed (use that in \<open>simp add: cache_put_def cache_lookup_def\<close>)
qed

lemma read_node_through: "read_node E s pid cache = read_through cache_get (cache_put E) (load_node E s) pid cache"
  by (simp add: read_node_def read_through_def)

abbreviation coherent :: "index_env \<Rightarrow> store \<Rightarrow> node lru option \<Rightarrow> bool" where
  "coherent E s cache \<equiv> cache_coherent (cache_lookup cache) (load_node E s)"

lemma read_node_coherent:
  assumes "coherent E s cache"
  obtains cache' where "read_node E s pid cache = (load_node E s pid, cache')" "coherent E s cache'"
  using node_cache.read_through_value [OF assms, of E pid] node_cache.read_through_coherent [OF assms, of E pid]
  by (metis prod.collapse read_node_through)

section \<open>Trees of pages\<close>

type_synonym nodes = "u64 \<Rightarrow> node option"

definition store_nodes :: "index_env \<Rightarrow> store \<Rightarrow> nodes" where
  "store_nodes E s pid = (case load_node E s pid of Inl _ \<Rightarrow> None | Inr n \<Rightarrow> Some n)"

lemma store_nodes_Some [simp]: "store_nodes E s pid = Some n \<longleftrightarrow> load_node E s pid = Inr n"
  by (simp add: store_nodes_def split: sum.splits)

abbreviation sorted_keys :: "index_entry list \<Rightarrow> bool" where
  "sorted_keys es \<equiv> sorted_wrt (<) (map ie_key es)"

definition entry_map :: "index_entry list \<Rightarrow> bytes \<rightharpoonup> u64" where
  "entry_map es = map_of (map (\<lambda>e. (ie_key e, ie_value e)) es)"

abbreviation hd_key :: "index_entry list \<Rightarrow> bytes" where
  "hd_key es \<equiv> ie_key (hd es)"

primrec tree_at :: "nodes \<Rightarrow> nat \<Rightarrow> u64 \<Rightarrow> index_entry list \<Rightarrow> u64 list \<Rightarrow> bool" where
  "tree_at nd 0 pid es ps \<longleftrightarrow> es \<noteq> [] \<and> ps = [pid] \<and> (\<exists>next. nd pid = Some (Leaf es next))"
| "tree_at nd (Suc l) pid es ps \<longleftrightarrow>
    (\<exists>lv fc seps ts. nd pid = Some (Internal lv fc seps) \<and> unat lv = Suc l \<and>
      list_all2 (\<lambda>p t. tree_at nd l p (fst t) (snd t)) (fc # map snd seps) ts \<and>
      map fst seps = map (\<lambda>t. hd_key (fst t)) (tl ts) \<and>
      es = concat (map fst ts) \<and> ps = pid # concat (map snd ts))"

lemma tree_at_nonempty: "tree_at nd l pid es ps \<Longrightarrow> es \<noteq> []"
proof (induction l arbitrary: pid es ps)
  case (Suc l)
  then obtain fc and seps :: "(bytes \<times> u64) list" and ts where "list_all2 (\<lambda>p t. tree_at nd l p (fst t) (snd t)) (fc # map snd seps) ts" "es = concat (map fst ts)"
    unfolding tree_at.simps by blast
  then obtain t ts' where "ts = t # ts'" "tree_at nd l fc (fst t) (snd t)" by (cases ts) auto
  with Suc.IH \<open>es = concat (map fst ts)\<close> show ?case by auto
qed simp

lemma tree_at_pages: "tree_at nd l pid es ps \<Longrightarrow> \<exists>qs. ps = pid # qs"
  by (cases l) auto

text \<open>A tree only depends on the nodes of its own pages.\<close>

lemma tree_at_cong:
  "tree_at nd l pid es ps \<Longrightarrow> \<forall>p\<in>set ps. nd' p = nd p \<Longrightarrow> tree_at nd' l pid es ps"
proof (induction l arbitrary: pid es ps)
  case (Suc l)
  then obtain lv fc seps ts where t: "nd pid = Some (Internal lv fc seps)" "unat lv = Suc l"
    "list_all2 (\<lambda>p t. tree_at nd l p (fst t) (snd t)) (fc # map snd seps) ts"
    "map fst seps = map (\<lambda>t. hd_key (fst t)) (tl ts)" "es = concat (map fst ts)" "ps = pid # concat (map snd ts)"
    by auto
  have "list_all2 (\<lambda>p t. tree_at nd' l p (fst t) (snd t)) (fc # map snd seps) ts"
    using t(3) by (rule list.rel_mono_strong) (use Suc.prems(2) t(6) in \<open>auto intro!: Suc.IH\<close>)
  then show ?case using t Suc.prems(2) by auto
qed simp

lemma tree_at_node: "tree_at nd l pid es ps \<Longrightarrow> \<exists>n. nd pid = Some n \<and> unat (node_level n) = l"
  by (cases l) auto

end
