(* ===== verification/Index_Lookup.thy ===== *)
theory Index_Lookup
  imports Index_Spec
begin

text \<open>
  Lookups and range scans of a B+ tree answer from the entries the tree represents
  (\<open>BPlusTree::get\<close> and \<open>BPlusTree::range\<close> of \<open>index/src/tree.rs\<close>), whatever the node cache holds, as
  long as it agrees with the store.
\<close>

section \<open>Choosing a child\<close>

lemma partition_point_map: "partition_point P (map f xs) = partition_point (P \<circ> f) xs"
  by (simp add: partition_point_def takeWhile_map)

lemma entry_map_append:
  "entry_map (as @ bs) k = (case entry_map as k of None \<Rightarrow> entry_map bs k | Some v \<Rightarrow> Some v)"
  by (simp add: entry_map_def map_add_def split: option.splits)

lemma entry_map_None_iff: "entry_map es k = None \<longleftrightarrow> k \<notin> ie_key ` set es"
  by (auto simp: entry_map_def map_of_eq_None_iff image_iff)

lemma entry_map_apart: "\<forall>e\<in>set es. ie_key e < k \<Longrightarrow> entry_map es k = None" "\<forall>e\<in>set es. k < ie_key e \<Longrightarrow> entry_map es k = None"
  by (auto simp: entry_map_None_iff)

lemma sorted_keys_append:
  "sorted_keys (as @ bs) \<longleftrightarrow> sorted_keys as \<and> sorted_keys bs \<and> (\<forall>a\<in>set as. \<forall>b\<in>set bs. ie_key a < ie_key b)"
  by (auto simp: sorted_wrt_append)

lemma sorted_keys_hd: "sorted_keys es \<Longrightarrow> e \<in> set es \<Longrightarrow> hd_key es \<le> ie_key e"
  by (cases es) (auto simp: less_imp_le)

text \<open>The separators of a node are the first keys of its children but the first; the number of
  separators up to a key is the position of the child that can hold it.\<close>

lemma child_split:
  assumes "sorted_keys (concat ess)" "ess \<noteq> []" "[] \<notin> set ess"
    and i: "i = partition_point (\<lambda>k. k \<le> key) (map hd_key (tl ess))"
  shows "i < length ess" "\<forall>e\<in>set (concat (take i ess)). ie_key e < key" "0 < i \<longrightarrow> hd_key (ess ! i) \<le> key"
    "\<forall>e\<in>set (concat (drop (Suc i) ess)). key < ie_key e"
proof -
  have le: "i \<le> length (tl ess)" using i partition_point_le [of _ "map hd_key (tl ess)"] by simp
  then show len: "i < length ess" using assms(2) by (cases ess) auto
  then have ess: "ess = take i ess @ ess ! i # drop (Suc i) ess" by (rule id_take_nth_drop)
  have ne: "ess ! i \<noteq> []" using len assms(3) nth_mem by metis
  have srt: "sorted_keys (concat (take i ess) @ ess ! i @ concat (drop (Suc i) ess))"
    using assms(1) ess by (metis concat.simps(2) concat_append)
  show hd: "0 < i \<longrightarrow> hd_key (ess ! i) \<le> key"
  proof
    assume "0 < i"
    then have "map hd_key (tl ess) ! (i - 1) \<le> key"
      using partition_point_prefix [of "i - 1" "\<lambda>k. k \<le> key" "map hd_key (tl ess)"] i by simp
    with \<open>0 < i\<close> le assms(2) show "hd_key (ess ! i) \<le> key" by (cases ess) (auto simp: nth_Cons')
  qed
  show "\<forall>e\<in>set (concat (take i ess)). ie_key e < key"
  proof
    fix e assume e: "e \<in> set (concat (take i ess))"
    then have "0 < i" by (cases i) auto
    moreover have "ie_key e < hd_key (ess ! i)" using srt e hd_in_set [OF ne] unfolding sorted_keys_append set_append by blast
    ultimately show "ie_key e < key" using hd by (meson less_le_trans)
  qed
  show "\<forall>e\<in>set (concat (drop (Suc i) ess)). key < ie_key e"
  proof
    fix e assume e: "e \<in> set (concat (drop (Suc i) ess))"
    then have l: "Suc i < length ess" by (rule contrapos_pp) simp
    then have nx: "drop (Suc i) ess = ess ! Suc i # drop (Suc (Suc i)) ess" by (rule Cons_nth_drop_Suc [symmetric])
    have ne': "ess ! Suc i \<noteq> []" using l assms(3) nth_mem by metis
    have "\<not> hd_key (ess ! Suc i) \<le> key"
      using partition_point_stop [of "\<lambda>k. k \<le> key" "map hd_key (tl ess)"] i l by (simp add: nth_tl)
    moreover have "hd_key (ess ! Suc i) \<le> ie_key e"
      using sorted_keys_hd [OF _ e] srt ne' unfolding sorted_keys_append by (simp add: nx)
    ultimately show "key < ie_key e" by simp
  qed
qed

lemma tree_children_nonempty:
  "list_all2 (\<lambda>p t. tree_at nd l p (fst t) (snd t)) cs ts \<Longrightarrow> [] \<notin> set (map fst ts)"
  by (auto simp: list_all2_conv_all_nth in_set_conv_nth) (metis fst_conv tree_at_nonempty)

lemma tree_at_SucE:
  assumes "tree_at nd (Suc l) pid es ps"
  obtains lv fc seps ts where "nd pid = Some (Internal lv fc seps)" "unat lv = Suc l"
    "list_all2 (\<lambda>p t. tree_at nd l p (fst t) (snd t)) (fc # map snd seps) ts"
    "map fst seps = map hd_key (tl (map fst ts))" "es = concat (map fst ts)" "ps = pid # concat (map snd ts)"
    "map fst ts \<noteq> []" "[] \<notin> set (map fst ts)"
proof -
  obtain lv fc seps ts where t: "nd pid = Some (Internal lv fc seps)" "unat lv = Suc l"
    "list_all2 (\<lambda>p t. tree_at nd l p (fst t) (snd t)) (fc # map snd seps) ts"
    "map fst seps = map (\<lambda>t. hd_key (fst t)) (tl ts)" "es = concat (map fst ts)" "ps = pid # concat (map snd ts)"
    using assms unfolding tree_at.simps by blast
  show thesis
    by (rule that [OF t(1-3) _ t(5,6) _ tree_children_nonempty [OF t(3)]])
      (use t(3,4) in \<open>auto simp: map_tl [symmetric] comp_def\<close>)
qed

section \<open>Point lookups\<close>

lemma leaf_lookup:
  assumes "sorted_keys es"
  shows "(case binary_search ie_key k es of Inr i \<Rightarrow> Some (ie_value (es ! i)) | Inl _ \<Rightarrow> None) = entry_map es k"
proof -
  obtain as bs where "es = as @ bs" "\<forall>a\<in>set as. ie_key a < k" and
    s: "case binary_search ie_key k es of
       Inl i \<Rightarrow> i = length as \<and> (\<forall>b\<in>set bs. k < ie_key b)
     | Inr i \<Rightarrow> i = length as \<and> (\<exists>b cs. bs = b # cs \<and> ie_key b = k \<and> (\<forall>c\<in>set cs. k < ie_key c))"
    using binary_search_split [OF assms, of k] by blast
  moreover have "entry_map (b # cs) k = (if ie_key b = k then Some (ie_value b) else entry_map cs k)" for b cs
    by (simp add: entry_map_def)
  ultimately show ?thesis
    by (cases "binary_search ie_key k es") (auto simp: entry_map_append entry_map_apart)
qed

lemma child_lookup:
  assumes "sorted_keys (concat ess)" "ess \<noteq> []" "[] \<notin> set ess"
    and "i = partition_point (\<lambda>k. k \<le> key) (map hd_key (tl ess))"
  shows "entry_map (concat ess) key = entry_map (ess ! i) key"
proof -
  note c = child_split [OF assms]
  have "concat ess = concat (take i ess) @ ess ! i @ concat (drop (Suc i) ess)"
    using id_take_nth_drop [OF c(1)] by (metis concat.simps(2) concat_append)
  with c(2,4) show ?thesis
    by (simp only: entry_map_append entry_map_apart) (simp split: option.splits)
qed

lemma child_for_nth:
  "child_for key fc seps = (fc # map snd seps) ! partition_point (\<lambda>k. k \<le> key) (map fst seps)"
  using partition_point_le [of "\<lambda>k. k \<le> key" "map fst seps"]
  by (auto simp: child_for_def Let_def partition_point_map comp_def case_prod_unfold nth_Cons')

lemma sorted_keys_concat_nth: "sorted_keys (concat ess) \<Longrightarrow> i < length ess \<Longrightarrow> sorted_keys (ess ! i)"
  using id_take_nth_drop [of i ess] by (metis concat.simps(2) concat_append sorted_keys_append)

lemma get_loop_correct:
  assumes "tree_at (store_nodes E s) l pid es ps" "sorted_keys es" "coherent E s cache"
  shows "\<exists>cache'. get_loop E s key l pid cache = (Inr (entry_map es key), cache') \<and> coherent E s cache'"
  using assms
proof (induction l arbitrary: pid es ps cache)
  case 0
  then obtain nx where n: "load_node E s pid = Inr (Leaf es nx)" by auto
  obtain cache' where "read_node E s pid cache = (Inr (Leaf es nx), cache')" "coherent E s cache'"
    using read_node_coherent [OF 0(3), of pid] unfolding n by blast
  then show ?case using leaf_lookup [OF 0(2)] by (simp add: get_loop.simps [of E s key 0])
next
  case (Suc l)
  from Suc.prems(1) obtain lv fc seps ts where t: "store_nodes E s pid = Some (Internal lv fc seps)" "unat lv = Suc l"
    "list_all2 (\<lambda>p t. tree_at (store_nodes E s) l p (fst t) (snd t)) (fc # map snd seps) ts"
    "map fst seps = map hd_key (tl (map fst ts))" "es = concat (map fst ts)"
    "map fst ts \<noteq> []" "[] \<notin> set (map fst ts)"
    by (rule tree_at_SucE)
  define i where "i = partition_point (\<lambda>k. k \<le> key) (map hd_key (tl (map fst ts)))"
  note srt = Suc.prems(2) [unfolded t(5)]
  note c = child_split(1) [OF srt t(6,7) i_def]
  obtain cache' where r: "read_node E s pid cache = (Inr (Internal lv fc seps), cache')" "coherent E s cache'"
    using read_node_coherent [OF Suc.prems(3), of pid] t(1) by auto
  have "tree_at (store_nodes E s) l ((fc # map snd seps) ! i) (map fst ts ! i) (snd (ts ! i))"
    using t(3) c by (auto simp: list_all2_conv_all_nth)
  from Suc.IH [OF this sorted_keys_concat_nth [OF srt c] r(2)]
  moreover have "partition_point (\<lambda>k. k \<le> key) (map fst seps) = i" by (simp only: t(4) i_def)
  ultimately show ?case
    using r t(2) child_lookup [OF srt t(6,7) i_def]
    unfolding get_loop.simps [of E s key "Suc l"] child_for_nth t(5)
    by simp
qed

section \<open>Range scans\<close>

text \<open>What is still ahead of a cursor: the subtrees right of the position of every frame.\<close>

fun cursor_rep :: "nodes \<Rightarrow> cursor_frame list \<Rightarrow> index_entry list \<Rightarrow> u64 list \<Rightarrow> bool" where
  "cursor_rep nd [] rest rps \<longleftrightarrow> rest = [] \<and> rps = []"
| "cursor_rep nd (fr # frs) rest rps \<longleftrightarrow>
    (\<exists>ts rest' rps'. list_all2 (\<lambda>p t. tree_at nd (cf_child_level fr) p (fst t) (snd t)) (cf_children fr) ts \<and>
      cursor_rep nd frs rest' rps' \<and>
      rest = concat (map fst (drop (Suc (cf_position fr)) ts)) @ rest' \<and>
      rps = concat (map snd (drop (Suc (cf_position fr)) ts)) @ rps')"

definition cursor_ok :: "index_env \<Rightarrow> store \<Rightarrow> cursor \<Rightarrow> index_entry list \<Rightarrow> u64 list \<Rightarrow> bool" where
  "cursor_ok E s c rest rps \<longleftrightarrow> cursor_rep (store_nodes E s) (cu_frames c) rest rps \<and> distinct rps \<and>
    set (cu_visited c) \<inter> set rps = {} \<and> coherent E s (cu_cache c)"

definition at_leaf :: "index_env \<Rightarrow> store \<Rightarrow> u64 \<Rightarrow> index_entry list \<Rightarrow> bool" where
  "at_leaf E s pid les \<longleftrightarrow> les \<noteq> [] \<and> (\<exists>nx. load_node E s pid = Inr (Leaf les nx))"

lemma cursor_read_ok:
  assumes "coherent E s (cu_cache c)" "load_node E s pid = Inr n"
  obtains c' where "cursor_read E s pid (c\<lparr>cu_visited := v\<rparr>) = (Inr n, c')" "cu_frames c' = cu_frames c"
    "cu_visited c' = v" "coherent E s (cu_cache c')"
proof -
  obtain cache' where "read_node E s pid (cu_cache c) = (Inr n, cache')" "coherent E s cache'"
    using read_node_coherent [OF assms(1), of pid] assms(2) by metis
  with that [of "c\<lparr>cu_visited := v, cu_cache := cache'\<rparr>"] show thesis by (simp add: cursor_read_def)
qed

definition position_for :: "bytes option \<Rightarrow> bytes list \<Rightarrow> nat" where
  "position_for key ks = (case key of None \<Rightarrow> 0 | Some key \<Rightarrow> partition_point (\<lambda>k. k \<le> key) ks)"

definition before_key :: "bytes option \<Rightarrow> index_entry list \<Rightarrow> bool" where
  "before_key key es \<longleftrightarrow> (case key of None \<Rightarrow> es = [] | Some k \<Rightarrow> \<forall>e\<in>set es. ie_key e < k)"

lemma before_key_append: "before_key key (as @ bs) \<longleftrightarrow> before_key key as \<and> before_key key bs"
  by (auto simp: before_key_def split: option.splits)

lemma position_split:
  assumes "sorted_keys (concat ess)" "ess \<noteq> []" "[] \<notin> set ess" "i = position_for key (map hd_key (tl ess))"
  shows "i < length ess \<and> before_key key (concat (take i ess))"
proof (cases key)
  case None
  with assms show ?thesis by (simp add: position_for_def before_key_def)
next
  case (Some k)
  with assms(4) have "i = partition_point (\<lambda>x. x \<le> k) (map hd_key (tl ess))" by (simp add: position_for_def)
  from child_split [OF assms(1-3) this] Some show ?thesis by (simp add: before_key_def)
qed

lemma position_for_seps:
  "(case key of None \<Rightarrow> 0 | Some key \<Rightarrow> partition_point (\<lambda>(k, _). k \<le> key) seps) = position_for key (map fst seps)"
  by (simp add: position_for_def partition_point_map comp_def case_prod_unfold split: option.splits)

lemma concat_split: "i < length xs \<Longrightarrow> concat xs = concat (take i xs) @ xs ! i @ concat (drop (Suc i) xs)"
  by (metis concat.simps(2) concat_append id_take_nth_drop)

lemma descend_ok:
  assumes "tree_at (store_nodes E s) l pid es ps" "sorted_keys es" "cursor_ok E s c rest rps"
    "distinct (ps @ rps)" "set (cu_visited c) \<inter> set ps = {}"
  shows "\<exists>p c' bs les r rp. descend_to_leaf E s key l pid c = (Inr (p, 0), c') \<and> at_leaf E s p les \<and>
    es = bs @ les @ r \<and> before_key key bs \<and> cursor_ok E s c' (r @ rest) (rp @ rps)"
  using assms
proof (induction l arbitrary: pid es ps c rest rps)
  case 0
  then obtain nx where n: "load_node E s pid = Inr (Leaf es nx)" and ps: "ps = [pid]" by auto
  note ok = 0(3) [unfolded cursor_ok_def]
  obtain c' where c': "cursor_read E s pid (c\<lparr>cu_visited := pid # cu_visited c\<rparr>) = (Inr (Leaf es nx), c')"
    "cu_frames c' = cu_frames c" "cu_visited c' = pid # cu_visited c" "coherent E s (cu_cache c')"
    using cursor_read_ok [OF _ n] ok by blast
  have "descend_to_leaf E s key 0 pid c = (Inr (pid, 0), c')"
    using 0(5) ps c'(1) by (simp add: descend_to_leaf.simps [of E s key 0])
  moreover have "cursor_ok E s c' ([] @ rest) ([] @ rps)" using ok c' 0(4) ps by (auto simp: cursor_ok_def)
  moreover have "at_leaf E s pid es" using n 0(1) by (auto simp: at_leaf_def)
  moreover have "es = [] @ es @ []" "before_key key []" by (auto simp: before_key_def split: option.splits)
  ultimately show ?case by blast
next
  case (Suc l)
  from Suc.prems(1) obtain lv fc seps ts where t: "store_nodes E s pid = Some (Internal lv fc seps)" "unat lv = Suc l"
    "list_all2 (\<lambda>p t. tree_at (store_nodes E s) l p (fst t) (snd t)) (fc # map snd seps) ts"
    "map fst seps = map hd_key (tl (map fst ts))" "es = concat (map fst ts)" "ps = pid # concat (map snd ts)"
    "map fst ts \<noteq> []" "[] \<notin> set (map fst ts)"
    by (rule tree_at_SucE)
  note ok = Suc.prems(3) [unfolded cursor_ok_def]
  define i where "i = position_for key (map hd_key (tl (map fst ts)))"
  note srt = Suc.prems(2) [unfolded t(5)]
  have i: "i < length ts" "before_key key (concat (take i (map fst ts)))"
    using position_split [OF srt t(7,8) i_def] by simp_all
  obtain c1 where c1: "cursor_read E s pid (c\<lparr>cu_visited := pid # cu_visited c\<rparr>) = (Inr (Internal lv fc seps), c1)"
    "cu_frames c1 = cu_frames c" "cu_visited c1 = pid # cu_visited c" "coherent E s (cu_cache c1)"
    using cursor_read_ok ok t(1) unfolding store_nodes_Some by blast
  let ?cs = "fc # map snd seps"
  define c2 where "c2 = c1\<lparr>cu_frames := \<lparr>cf_children = ?cs, cf_position = i, cf_child_level = l\<rparr> # cu_frames c1\<rparr>"
  have pos: "(case key of None \<Rightarrow> 0 | Some key \<Rightarrow> partition_point (\<lambda>(k, _). k \<le> key) seps) = i"
    by (simp only: position_for_seps t(4) i_def)
  have step: "descend_to_leaf E s key (Suc l) pid c = descend_to_leaf E s key l (?cs ! i) c2"
    using Suc.prems(5) t(2,6) c1(1) pos by (simp add: descend_to_leaf.simps [of E s key "Suc l"] Let_def c2_def)
  let ?r = "concat (map fst (drop (Suc i) ts))" and ?rp = "concat (map snd (drop (Suc i) ts))"
  have ps: "ps = pid # concat (map snd (take i ts)) @ snd (ts ! i) @ ?rp"
    using concat_split [of i "map snd ts"] i(1) t(6) by (simp add: take_map drop_map)
  have sub: "tree_at (store_nodes E s) l (?cs ! i) (map fst ts ! i) (snd (ts ! i))"
    using t(3) i(1) by (auto simp: list_all2_conv_all_nth)
  have "cursor_rep (store_nodes E s) (cu_frames c2) (?r @ rest) (?rp @ rps)"
    using t(3) ok c1(2) by (auto simp: c2_def)
  then have ok2: "cursor_ok E s c2 (?r @ rest) (?rp @ rps)"
    using Suc.prems(4,5) ok c1(3,4) ps by (auto simp: cursor_ok_def c2_def)
  have "\<exists>p c' bs les r rp. descend_to_leaf E s key l (?cs ! i) c2 = (Inr (p, 0), c') \<and> at_leaf E s p les \<and>
    map fst ts ! i = bs @ les @ r \<and> before_key key bs \<and> cursor_ok E s c' (r @ ?r @ rest) (rp @ ?rp @ rps)"
    by (rule Suc.IH [OF sub sorted_keys_concat_nth [OF srt] ok2])
      (use i(1) Suc.prems(4,5) ps c1(3) in \<open>auto simp: c2_def\<close>)
  then obtain p c' bs les r rp where d: "descend_to_leaf E s key l (?cs ! i) c2 = (Inr (p, 0), c')" "at_leaf E s p les"
    "map fst ts ! i = bs @ les @ r" "before_key key bs" "cursor_ok E s c' (r @ ?r @ rest) (rp @ ?rp @ rps)"
    by blast
  have "es = (concat (take i (map fst ts)) @ bs) @ les @ (r @ ?r)"
    using concat_split [of i "map fst ts"] i(1) t(5) d(3) by (simp add: drop_map)
  moreover have "before_key key (concat (take i (map fst ts)) @ bs)" using i(2) d(4) by (simp add: before_key_append)
  moreover have "cursor_ok E s c' ((r @ ?r) @ rest) ((rp @ ?rp) @ rps)" using d(5) by simp
  ultimately show ?case unfolding step using d(1,2) by blast
qed

lemma advance_ok:
  assumes "cursor_ok E s c rest rps" "sorted_keys rest"
  shows "\<exists>c'. (rest = [] \<and> advance_to_next_leaf E s c = (Inr None, c') \<and> coherent E s (cu_cache c')) \<or>
    (\<exists>p les rest' rps'. advance_to_next_leaf E s c = (Inr (Some p), c') \<and> at_leaf E s p les \<and>
      rest = les @ rest' \<and> cursor_ok E s c' rest' rps')"
  using assms
proof (induction "cu_frames c" arbitrary: c rest rps)
  case Nil
  then show ?case by (simp add: cursor_ok_def advance_to_next_leaf.simps [of E s c])
next
  case (Cons fr frs)
  note ok = Cons.prems(1) [unfolded cursor_ok_def Cons.hyps(2) [symmetric]]
  obtain ts rest' rps' where t: "list_all2 (\<lambda>p t. tree_at (store_nodes E s) (cf_child_level fr) p (fst t) (snd t)) (cf_children fr) ts"
    "cursor_rep (store_nodes E s) frs rest' rps'"
    "rest = concat (map fst (drop (Suc (cf_position fr)) ts)) @ rest'"
    "rps = concat (map snd (drop (Suc (cf_position fr)) ts)) @ rps'"
    using ok by auto
  have len: "length (cf_children fr) = length ts" using t(1) by (rule list_all2_lengthD)
  show ?case
  proof (cases "cf_position fr + 1 < length (cf_children fr)")
    case False
    then have "rest = rest'" "rps = rps'" using t(3,4) len by auto
    then have "cursor_ok E s (c\<lparr>cu_frames := frs\<rparr>) rest rps" using ok t(2) by (simp add: cursor_ok_def)
    from Cons.hyps(1) [OF _ this Cons.prems(2)] show ?thesis
      using False by (simp add: advance_to_next_leaf.simps [of E s c] Cons.hyps(2) [symmetric])
  next
    case True
    let ?i = "Suc (cf_position fr)"
    define c1 where "c1 = c\<lparr>cu_frames := fr\<lparr>cf_position := ?i\<rparr> # frs\<rparr>"
    have i: "drop ?i ts = ts ! ?i # drop (Suc ?i) ts" using True len by (intro Cons_nth_drop_Suc [symmetric]) simp
    let ?r = "concat (map fst (drop (Suc ?i) ts)) @ rest'" and ?rp = "concat (map snd (drop (Suc ?i) ts)) @ rps'"
    have rest: "rest = fst (ts ! ?i) @ ?r" "rps = snd (ts ! ?i) @ ?rp" using t(3,4) i by simp_all
    have "cursor_ok E s c1 ?r ?rp" using ok t(1,2) rest by (auto simp: cursor_ok_def c1_def)
    moreover have "tree_at (store_nodes E s) (cf_child_level fr) (cf_children fr ! ?i) (fst (ts ! ?i)) (snd (ts ! ?i))"
      using t(1) True len by (auto simp: list_all2_conv_all_nth)
    moreover have "sorted_keys (fst (ts ! ?i))" using Cons.prems(2) unfolding rest(1) sorted_keys_append by blast
    ultimately have "\<exists>p c' bs les r rp. descend_to_leaf E s None (cf_child_level fr) (cf_children fr ! ?i) c1 = (Inr (p, 0), c') \<and>
        at_leaf E s p les \<and> fst (ts ! ?i) = bs @ les @ r \<and> before_key None bs \<and> cursor_ok E s c' (r @ ?r) (rp @ ?rp)"
      by (intro descend_ok) (use ok rest in \<open>auto simp: c1_def\<close>)
    then obtain p c' les r rp where d: "descend_to_leaf E s None (cf_child_level fr) (cf_children fr ! ?i) c1 = (Inr (p, 0), c')"
      "at_leaf E s p les" "fst (ts ! ?i) = les @ r" "cursor_ok E s c' (r @ ?r) (rp @ ?rp)"
      by (auto simp: before_key_def)
    have "advance_to_next_leaf E s c = (Inr (Some p), c')"
      using d(1) True by (simp add: advance_to_next_leaf.simps [of E s c] Cons.hyps(2) [symmetric] Let_def c1_def)
    moreover have "rest = les @ (r @ ?r)" using rest(1) d(3) by simp
    ultimately show ?thesis using d(2,4) by blast
  qed
qed

definition in_range :: "bytes option \<Rightarrow> bytes option \<Rightarrow> index_entry \<Rightarrow> bool" where
  "in_range lower upper e \<longleftrightarrow>
    (case lower of None \<Rightarrow> True | Some l \<Rightarrow> l \<le> ie_key e) \<and> (case upper of None \<Rightarrow> True | Some u \<Rightarrow> ie_key e < u)"

lemma in_range_above:
  assumes "sorted_keys (e # es)" "case upper of Some u \<Rightarrow> ie_key e \<ge> u | None \<Rightarrow> False"
  shows "filter (in_range lower upper) (e # es) = []"
  using assms by (auto simp: in_range_def filter_empty_conv split: option.splits)

lemma scan_entries_ok:
  assumes "sorted_keys es" "length res < limit" "\<And>k. prev = Some k \<Longrightarrow> \<forall>e\<in>set es. k < ie_key e"
  shows "\<exists>b prev'. scan_entries pid lower upper limit es res prev =
      Inr (b, take limit (res @ filter (in_range lower upper) es), prev') \<and>
    (b \<longrightarrow> (\<forall>rest. sorted_keys (es @ rest) \<longrightarrow>
      take limit (res @ filter (in_range lower upper) (es @ rest)) = take limit (res @ filter (in_range lower upper) es))) \<and>
    (\<not> b \<longrightarrow> length (res @ filter (in_range lower upper) es) < limit \<and>
      (\<forall>k. prev' = Some k \<longrightarrow> prev = Some k \<or> k \<in> ie_key ` set es))"
  using assms
proof (induction es arbitrary: res prev)
  case Nil
  then show ?case by auto
next
  case (Cons e es)
  let ?P = "in_range lower upper"
  have srt: "sorted_keys es" "\<forall>x\<in>set es. ie_key e < ie_key x" using Cons.prems(1) by auto
  have tl: "sorted_keys (e # es @ rest) \<Longrightarrow> sorted_keys (es @ rest)" for rest by simp
  consider (low) "case lower of Some l \<Rightarrow> ie_key e < l | None \<Rightarrow> False"
    | (high) "\<not> (case lower of Some l \<Rightarrow> ie_key e < l | None \<Rightarrow> False)"
        "case upper of Some u \<Rightarrow> ie_key e \<ge> u | None \<Rightarrow> False"
    | (hit) "\<not> (case lower of Some l \<Rightarrow> ie_key e < l | None \<Rightarrow> False)"
        "\<not> (case upper of Some u \<Rightarrow> ie_key e \<ge> u | None \<Rightarrow> False)" by blast
  then show ?case
  proof cases
    case low
    then have "\<not> ?P e" by (auto simp: in_range_def split: option.splits)
    moreover have "scan_entries pid lower upper limit (e # es) res prev = scan_entries pid lower upper limit es res prev"
      using low by simp
    moreover obtain b prev' where "scan_entries pid lower upper limit es res prev = Inr (b, take limit (res @ filter ?P es), prev')"
      "b \<longrightarrow> (\<forall>rest. sorted_keys (es @ rest) \<longrightarrow> take limit (res @ filter ?P (es @ rest)) = take limit (res @ filter ?P es))"
      "\<not> b \<longrightarrow> length (res @ filter ?P es) < limit \<and> (\<forall>k. prev' = Some k \<longrightarrow> prev = Some k \<or> k \<in> ie_key ` set es)"
      using Cons.IH [OF srt(1) Cons.prems(2), of prev] Cons.prems(3) by auto
    ultimately show ?thesis by (intro exI [of _ b] exI [of _ prev']) (auto simp: tl)
  next
    case high
    have "filter ?P (e # es) = []" "sorted_keys (e # es @ rest) \<Longrightarrow> filter ?P (e # es @ rest) = []" for rest
      using in_range_above [OF _ high(2)] Cons.prems(1) by blast+
    then show ?thesis using high Cons.prems(2) by auto
  next
    case hit
    then have e: "?P e" by (auto simp: in_range_def split: option.splits)
    have prev: "\<not> (case prev of Some k \<Rightarrow> k \<ge> ie_key e | None \<Rightarrow> False)"
      using Cons.prems(3) by (auto split: option.splits)
    show ?thesis
    proof (cases "length (res @ [e]) = limit")
      case True
      then have "take limit (res @ e # xs) = res @ [e]" for xs by auto
      with True hit prev e show ?thesis by (auto simp: Let_def)
    next
      case False
      then have len: "length (res @ [e]) < limit" using Cons.prems(2) by simp
      have "scan_entries pid lower upper limit (e # es) res prev =
          scan_entries pid lower upper limit es (res @ [e]) (Some (ie_key e))"
        using hit prev False by (simp add: Let_def)
      moreover have "filter ?P (e # xs) = e # filter ?P xs" for xs using e by simp
      moreover obtain b prev' where "scan_entries pid lower upper limit es (res @ [e]) (Some (ie_key e)) =
          Inr (b, take limit ((res @ [e]) @ filter ?P es), prev')"
        "b \<longrightarrow> (\<forall>rest. sorted_keys (es @ rest) \<longrightarrow>
          take limit ((res @ [e]) @ filter ?P (es @ rest)) = take limit ((res @ [e]) @ filter ?P es))"
        "\<not> b \<longrightarrow> length ((res @ [e]) @ filter ?P es) < limit \<and>
          (\<forall>k. prev' = Some k \<longrightarrow> Some (ie_key e) = Some k \<or> k \<in> ie_key ` set es)"
        using Cons.IH [OF srt(1) len, of "Some (ie_key e)"] srt(2) by auto
      ultimately show ?thesis by (intro exI [of _ b] exI [of _ prev']) (auto simp: tl)
    qed
  qed
qed

lemma scan_leaves_ok:
  assumes "at_leaf E s pid les" "sorted_keys (les @ rest)" "cursor_ok E s c rest rps" "length res < limit"
    "\<And>k. prev = Some k \<Longrightarrow> \<forall>e\<in>set (les @ rest). k < ie_key e"
  shows "\<exists>c'. scan_leaves E s lower upper limit pid res prev c =
      (Inr (take limit (res @ filter (in_range lower upper) (les @ rest))), c') \<and> coherent E s (cu_cache c')"
  using assms
proof (induction "length rest" arbitrary: pid les rest c rps res prev rule: less_induct)
  case less
  let ?P = "in_range lower upper"
  note ok = less.prems(3) [unfolded cursor_ok_def]
  obtain nx where n: "load_node E s pid = Inr (Leaf les nx)" "les \<noteq> []" using less.prems(1) by (auto simp: at_leaf_def)
  obtain c1 where c1: "cursor_read E s pid c = (Inr (Leaf les nx), c1)" "cursor_ok E s c1 rest rps"
  proof -
    obtain c1 where "cursor_read E s pid (c\<lparr>cu_visited := cu_visited c\<rparr>) = (Inr (Leaf les nx), c1)"
      "cu_frames c1 = cu_frames c" "cu_visited c1 = cu_visited c" "coherent E s (cu_cache c1)"
      using cursor_read_ok [OF _ n(1)] ok by blast
    with ok that [of c1] show thesis by (simp add: cursor_ok_def)
  qed
  have srt: "sorted_keys les" "sorted_keys rest" "\<forall>a\<in>set les. \<forall>b\<in>set rest. ie_key a < ie_key b"
    using less.prems(2) unfolding sorted_keys_append by blast+
  obtain b prev' where sc: "scan_entries pid lower upper limit les res prev = Inr (b, take limit (res @ filter ?P les), prev')"
    and stop: "b \<Longrightarrow> take limit (res @ filter ?P (les @ rest)) = take limit (res @ filter ?P les)"
    and more: "\<not> b \<Longrightarrow> length (res @ filter ?P les) < limit" "\<And>k. \<not> b \<Longrightarrow> prev' = Some k \<Longrightarrow> prev = Some k \<or> k \<in> ie_key ` set les"
    using scan_entries_ok [OF srt(1) less.prems(4), of prev pid lower upper] less.prems(2,5) by force
  show ?case
  proof (cases b)
    case True
    then show ?thesis
      using sc stop c1 less.prems(4) by (auto simp: scan_leaves.simps [of _ _ _ _ _ _ _ _ c] cursor_ok_def)
  next
    case False
    note sc' = sc [unfolded False] more(1) [OF False]
    from advance_ok [OF c1(2) srt(2)] consider
        c' where "rest = []" "advance_to_next_leaf E s c1 = (Inr None, c')" "coherent E s (cu_cache c')"
      | p les' rest' rps' c' where "advance_to_next_leaf E s c1 = (Inr (Some p), c')" "at_leaf E s p les'"
          "rest = les' @ rest'" "cursor_ok E s c' rest' rps'" by blast
    then show ?thesis
    proof cases
      case 1
      then show ?thesis
        using sc' c1 False less.prems(4) by (auto simp: scan_leaves.simps [of _ _ _ _ _ _ _ _ c])
    next
      case 2
      have "les' \<noteq> []" using 2(2) by (simp add: at_leaf_def)
      then have short: "length rest' < length rest" using 2(3) by simp
      have prev': "\<forall>e\<in>set rest. k < ie_key e" if "prev' = Some k" for k
        using more(2) [OF False that] less.prems(5) srt(3) by auto
      have "scan_leaves E s lower upper limit pid res prev c =
          scan_leaves E s lower upper limit p (res @ filter ?P les) prev' c'"
        using sc' c1(1) 2(1) False less.prems(4) by (simp add: scan_leaves.simps [of _ _ _ _ _ _ _ _ c])
      moreover have "\<exists>c''. scan_leaves E s lower upper limit p (res @ filter ?P les) prev' c' =
          (Inr (take limit ((res @ filter ?P les) @ filter ?P (les' @ rest'))), c'') \<and> coherent E s (cu_cache c'')"
        by (rule less.hyps [OF short 2(2) _ 2(4) sc'(2)]) (use srt(2) prev' 2(3) in auto)
      ultimately show ?thesis using 2(3) by simp
    qed
  qed
qed

lemma tree_range_ok:
  assumes "tree_at (store_nodes E s) (unat (root_height r) - 1) (root_page r) es ps" "root_height r \<noteq> 0"
    "sorted_keys es" "distinct ps" "coherent E s cache"
  shows "\<exists>cache'. tree_range E s r lower upper limit cache =
      (Inr (take limit (filter (in_range lower upper) es)), cache') \<and> coherent E s cache'"
proof (cases "limit = 0 \<or> (case (lower, upper) of (Some l, Some u) \<Rightarrow> l \<ge> u | _ \<Rightarrow> False)")
  case True
  then have "take limit (filter (in_range lower upper) es) = []"
    by (auto simp: in_range_def filter_empty_conv split: option.splits)
  with True assms(5) show ?thesis by (simp add: tree_range_def)
next
  case False
  let ?k = "case lower of None \<Rightarrow> [] | Some l \<Rightarrow> l"
  define c where "c = \<lparr>cu_frames = [], cu_visited = [], cu_cache = cache\<rparr>"
  have "cursor_ok E s c [] []" using assms(5) by (simp add: cursor_ok_def c_def)
  from descend_ok [OF assms(1,3) this, of "Some ?k"] assms(4)
  obtain p c' bs les r' rp where d: "descend_to_leaf E s (Some ?k) (unat (root_height r) - 1) (root_page r) c = (Inr (p, 0), c')"
    "at_leaf E s p les" "es = bs @ les @ r'" "before_key (Some ?k) bs" "cursor_ok E s c' r' rp"
    by (auto simp: c_def)
  have "filter (in_range lower upper) bs = []"
    using d(4) by (auto simp: before_key_def in_range_def filter_empty_conv split: option.splits)
  moreover have "\<exists>c''. scan_leaves E s lower upper limit p [] None c' =
      (Inr (take limit ([] @ filter (in_range lower upper) (les @ r'))), c'') \<and> coherent E s (cu_cache c'')"
    by (rule scan_leaves_ok [OF d(2) _ d(5)]) (use False assms(3) d(3) in \<open>auto simp: sorted_wrt_append\<close>)
  ultimately show ?thesis using False assms(2) d(1,3) by (auto simp: tree_range_def c_def [symmetric] Let_def)
qed

end
