(* ===== verification/Index_Build.thy ===== *)
theory Index_Build
  imports Index_Lookup "HOL-Library.Multiset"
begin

text \<open>
  A plan for a tree (\<open>BPlusTree::plan\<close> of \<open>index/src/tree.rs\<close>) describes a tree of the entries it was
  given: a store that holds the pages of the plan represents them. The pages are new ones, and a
  plan is made for all valid entries while the allocator has pages. A \<open>forest\<close> is a row of trees
  of one level, the \<open>children\<close> vector of the code.
\<close>

section \<open>Claimed pages\<close>

text \<open>A page is claimed when the allocator can no longer give it out.\<close>

definition claimed :: "page_allocator \<Rightarrow> u64 \<Rightarrow> bool" where
  "claimed a p \<longleftrightarrow> p < next_page_id a \<and> p \<notin> set (free_pages a)"

lemma claimed_not_no_page: "claimed a p \<Longrightarrow> p \<noteq> NO_PAGE"
  by (auto simp: claimed_def NO_PAGE_def)

lemma reserve_free: "reserve n a = (Inr ids, a') \<Longrightarrow> set (free_pages a') \<subseteq> set (free_pages a)"
  using set_drop_subset by (fastforce simp: reserve_def Let_def split: if_splits option.splits)

lemma reserve_claims:
  assumes "alloc_ok a" "reserve_for n a = (Inr ids, a')"
  shows "alloc_ok a'" "length ids = n" "distinct ids"
    "\<And>p. p \<in> set ids \<Longrightarrow> \<not> claimed a p \<and> claimed a' p" "\<And>p. claimed a p \<Longrightarrow> claimed a' p"
proof -
  have r: "reserve n a = (Inr ids, a')" using assms(2) by (auto simp: reserve_for_def split: prod.splits sum.splits)
  note ok = reserve_ok [OF assms(1) r]
  show "alloc_ok a'" "length ids = n" "distinct ids" by (fact ok(3) ok(1) ok(2))+
  show "\<not> claimed a p \<and> claimed a' p" if "p \<in> set ids" for p
    using ok(4) ok(5) [OF that] that by (auto simp: claimed_def)
  show "claimed a' p" if "claimed a p" for p
    using that ok(6) reserve_free [OF r] by (auto simp: claimed_def)
qed

section \<open>Rows of trees\<close>

definition forest :: "nodes \<Rightarrow> nat \<Rightarrow> child list \<Rightarrow> index_entry list \<Rightarrow> u64 list \<Rightarrow> bool" where
  "forest nd l cs es ps \<longleftrightarrow> (\<exists>ts.
    list_all2 (\<lambda>c t. tree_at nd l (ch_page c) (fst t) (snd t) \<and> ch_key c = hd_key (fst t)) cs ts \<and>
    es = concat (map fst ts) \<and> ps = concat (map snd ts))"

lemma forest_Nil [simp]: "forest nd l [] es ps \<longleftrightarrow> es = [] \<and> ps = []"
  by (simp add: forest_def)

lemma forest_Cons:
  "forest nd l (c # cs) es ps \<longleftrightarrow> (\<exists>as aps bs bps. tree_at nd l (ch_page c) as aps \<and> ch_key c = hd_key as \<and>
    forest nd l cs bs bps \<and> es = as @ bs \<and> ps = aps @ bps)"
  unfolding forest_def list_all2_Cons1 by fastforce

lemma forest_ConsE:
  assumes "forest nd l (c # cs) es ps"
  obtains as aps bs bps where "tree_at nd l (ch_page c) as aps" "ch_key c = hd_key as"
    "forest nd l cs bs bps" "es = as @ bs" "ps = aps @ bps"
  using assms unfolding forest_Cons by blast

lemma forest_ConsI:
  "tree_at nd l (ch_page c) as aps \<Longrightarrow> ch_key c = hd_key as \<Longrightarrow> forest nd l cs bs bps \<Longrightarrow>
    forest nd l (c # cs) (as @ bs) (aps @ bps)"
  unfolding forest_Cons by blast

lemma forest_append:
  "forest nd l (as @ bs) es ps \<longleftrightarrow> (\<exists>xs xps ys yps. forest nd l as xs xps \<and> forest nd l bs ys yps \<and>
    es = xs @ ys \<and> ps = xps @ yps)"
proof
  assume "forest nd l (as @ bs) es ps"
  then obtain us vs where "list_all2 (\<lambda>c t. tree_at nd l (ch_page c) (fst t) (snd t) \<and> ch_key c = hd_key (fst t)) as us"
    "list_all2 (\<lambda>c t. tree_at nd l (ch_page c) (fst t) (snd t) \<and> ch_key c = hd_key (fst t)) bs vs"
    "es = concat (map fst us) @ concat (map fst vs)" "ps = concat (map snd us) @ concat (map snd vs)"
    by (auto simp: forest_def list_all2_append1)
  then show "\<exists>xs xps ys yps. forest nd l as xs xps \<and> forest nd l bs ys yps \<and> es = xs @ ys \<and> ps = xps @ yps"
    unfolding forest_def by blast
next
  assume "\<exists>xs xps ys yps. forest nd l as xs xps \<and> forest nd l bs ys yps \<and> es = xs @ ys \<and> ps = xps @ yps"
  then obtain us vs where "list_all2 (\<lambda>c t. tree_at nd l (ch_page c) (fst t) (snd t) \<and> ch_key c = hd_key (fst t)) as us"
    "list_all2 (\<lambda>c t. tree_at nd l (ch_page c) (fst t) (snd t) \<and> ch_key c = hd_key (fst t)) bs vs"
    "es = concat (map fst (us @ vs))" "ps = concat (map snd (us @ vs))"
    unfolding forest_def by auto
  then show "forest nd l (as @ bs) es ps"
    unfolding forest_def using list_all2_appendI by blast
qed

lemma forest_single: "forest nd l [c] es ps \<longleftrightarrow> tree_at nd l (ch_page c) es ps \<and> ch_key c = hd_key es"
  by (auto simp: forest_Cons)

lemma forest_cong:
  assumes "forest nd l cs es ps" "\<forall>p\<in>set ps. nd' p = nd p"
  shows "forest nd' l cs es ps"
  using assms
proof (induction cs arbitrary: es ps)
  case (Cons c cs)
  from Cons.prems(1) obtain as aps bs bps where f: "tree_at nd l (ch_page c) as aps" "ch_key c = hd_key as"
    "forest nd l cs bs bps" "es = as @ bs" "ps = aps @ bps" by (rule forest_ConsE)
  have "tree_at nd' l (ch_page c) as aps" using tree_at_cong [OF f(1)] Cons.prems(2) f(5) by simp
  moreover have "forest nd' l cs bs bps" using Cons.IH [OF f(3)] Cons.prems(2) f(5) by simp
  ultimately show ?case using f(2,4,5) by (auto simp: forest_Cons)
qed simp

lemma forest_nonempty: "forest nd l cs es ps \<Longrightarrow> cs \<noteq> [] \<Longrightarrow> es \<noteq> [] \<and> ch_key (hd cs) = hd_key es"
  by (cases cs) (auto simp: forest_Cons dest: tree_at_nonempty)

lemma forest_pages: "forest nd l cs es ps \<Longrightarrow> ch_page ` set cs \<subseteq> set ps"
proof (induction cs arbitrary: es ps)
  case (Cons c cs)
  from Cons.prems obtain as aps bs bps where "tree_at nd l (ch_page c) as aps" "forest nd l cs bs bps" "ps = aps @ bps"
    by (rule forest_ConsE)
  with Cons.IH [OF this(2)] tree_at_pages [OF this(1)] show ?case by auto
qed simp

lemma forest_keys: "forest nd l cs es ps \<Longrightarrow> ch_key ` set cs \<subseteq> ie_key ` set es"
proof (induction cs arbitrary: es ps)
  case (Cons c cs)
  from Cons.prems obtain as aps bs bps where f: "tree_at nd l (ch_page c) as aps" "ch_key c = hd_key as"
    "forest nd l cs bs bps" "es = as @ bs" by (rule forest_ConsE)
  with Cons.IH [OF f(3)] hd_in_set [OF tree_at_nonempty [OF f(1)]] show ?case by auto
qed simp

lemma forest_sorted: "forest nd l cs es ps \<Longrightarrow> sorted_keys es \<Longrightarrow> sorted_wrt (<) (map ch_key cs)"
proof (induction cs arbitrary: es ps)
  case (Cons c cs)
  from Cons.prems(1) obtain as aps bs bps where f: "tree_at nd l (ch_page c) as aps" "ch_key c = hd_key as"
    "forest nd l cs bs bps" "es = as @ bs" by (rule forest_ConsE)
  have s: "sorted_keys bs" "\<forall>a\<in>set as. \<forall>b\<in>set bs. ie_key a < ie_key b"
    using Cons.prems(2) unfolding f(4) sorted_keys_append by blast+
  have "hd as \<in> set as" using tree_at_nonempty [OF f(1)] by simp
  have "ch_key c < ch_key d" if "d \<in> set cs" for d
  proof -
    have "ch_key d \<in> ie_key ` set bs" using forest_keys [OF f(3)] that by (simp add: image_subset_iff)
    then obtain b where "ch_key d = ie_key b" "b \<in> set bs" by (rule imageE)
    with s(2) \<open>hd as \<in> set as\<close> show ?thesis by (simp add: f(2))
  qed
  with Cons.IH [OF f(3) s(1)] show ?case by simp
qed simp

text \<open>A node over a row of trees is a tree of the next level.\<close>

lemma forest_parent:
  assumes "forest nd l grp es ps" "grp \<noteq> []" "nd pid = Some (internal_of lv grp)" "unat lv = Suc l"
  shows "tree_at nd (Suc l) pid es (pid # ps)"
proof -
  obtain ts where t: "list_all2 (\<lambda>c t. tree_at nd l (ch_page c) (fst t) (snd t) \<and> ch_key c = hd_key (fst t)) grp ts"
    "es = concat (map fst ts)" "ps = concat (map snd ts)" using assms(1) by (auto simp: forest_def)
  obtain c cs where g: "grp = c # cs" using assms(2) by (meson list.exhaust)
  have "list_all2 (\<lambda>p t. tree_at nd l p (fst t) (snd t)) (map ch_page grp) ts"
    using t(1) by (auto simp: list_all2_map1 elim!: list.rel_mono_strong)
  moreover have "map ch_key (tl grp) = map (\<lambda>t. hd_key (fst t)) (tl ts)"
    using t(1) unfolding g list_all2_Cons1 by (auto simp: list_all2_conv_all_nth intro: nth_equalityI)
  ultimately show ?thesis
    using assms(3,4) t(2,3) by (auto simp: internal_of_def g comp_def)
qed

lemma internal_wf:
  assumes "forest nd l grp es ps" "grp \<noteq> []" "sorted_keys es" "NO_PAGE \<notin> set ps" "lv \<noteq> 0"
    "node_size (internal_of lv grp) \<le> MAX_PAGE_PAYLOAD"
  shows "node_wf (internal_of lv grp)"
proof -
  obtain c cs where g: "grp = c # cs" using assms(2) by (meson list.exhaust)
  have "ch_page c \<noteq> NO_PAGE" "NO_PAGE \<notin> ch_page ` set cs" using forest_pages [OF assms(1)] assms(4) g by auto
  moreover have "sorted_wrt (<) (map ch_key cs)" using forest_sorted [OF assms(1,3)] g by simp
  ultimately show ?thesis using assms(5,6) by (auto simp: internal_of_def g comp_def image_image)
qed

section \<open>Partitions\<close>

text \<open>Consecutive, non-empty ranges from \<open>a\<close> to \<open>b\<close>.\<close>

fun tiles :: "nat \<Rightarrow> nat \<Rightarrow> (nat \<times> nat) list \<Rightarrow> bool" where
  "tiles a b [] \<longleftrightarrow> a = b"
| "tiles a b ((x, y) # rs) \<longleftrightarrow> x = a \<and> x < y \<and> y \<le> b \<and> tiles y b rs"

lemma partition_by_tiles:
  "partition_by len sz start = Inr rs \<Longrightarrow> start \<le> len \<Longrightarrow> tiles start len rs"
proof (induction len sz start arbitrary: rs rule: partition_by.induct)
  case (1 len sz start)
  show ?case
  proof (cases "start < len")
    case True
    then obtain e qs where e: "fill_node sz len start header_size = Inr e" "e \<noteq> start"
      "partition_by len sz e = Inr qs" "rs = (start, e) # qs"
      using 1(2) unfolding partition_by.simps [of len sz start] by (auto split: if_splits sum.splits)
    with fill_node_bounds [OF e(1)] 1(1) [OF True e(1,2,3)] True show ?thesis by simp
  next
    case False
    then show ?thesis using 1(2,3) by (simp add: partition_by.simps [of len sz])
  qed
qed

lemma partition_internal_tiles:
  "partition_internal_from cs start = Inr rs \<Longrightarrow> start \<le> length cs \<Longrightarrow> tiles start (length cs) rs"
proof (induction "length cs - start" arbitrary: start rs rule: less_induct)
  case less
  from less.prems(1) show ?case
  proof (cases rule: partition_internal_fromE)
    case (2 e qs)
    then show ?thesis using less.hyps [of e qs] by simp
  qed (use less.prems in simp)
qed

lemma slice_drop: "x \<le> y \<Longrightarrow> y \<le> length xs \<Longrightarrow> drop x xs = slice xs x y @ drop y xs"
  by (simp add: slice_def) (metis append_take_drop_id drop_drop le_add_diff_inverse2)

section \<open>Nodes on their pages\<close>

definition written :: "nodes \<Rightarrow> page_write \<Rightarrow> bool" where
  "written nd w \<longleftrightarrow> nd (pw_page_id w) =
    (case node_decode (pw_page_id w) (pw_payload w) of Inl _ \<Rightarrow> None | Inr n \<Rightarrow> Some n)"

lemma written_node:
  assumes "written nd \<lparr>pw_page_id = pid, pw_payload = bs\<rparr>" "node_encode n = Inr bs" "node_wf n"
  shows "nd pid = Some n"
  using assms node_roundtrip [OF assms(3), of pid] by (simp add: written_def)

lemma entry_lengths_sum: "entry_lengths len ks c = Inr r \<Longrightarrow> r = len + (\<Sum>k\<leftarrow>ks. k + c)"
proof (induction ks arbitrary: len)
  case (Cons k ks)
  have "checked_entry_length len k c = Inr n \<Longrightarrow> n = len + k + c" for n
    by (auto simp: checked_entry_length_def checked_add_usize_def split: option.splits bind_splits if_splits)
  then show ?case using Cons by (fastforce split: sum.splits)
qed simp

lemma encode_size: "node_encode n = Inr bs \<Longrightarrow> node_size n \<le> MAX_PAGE_PAYLOAD"
proof -
  assume e: "node_encode n = Inr bs"
  then obtain len where "encoded_length n = Inr len" "len \<le> MAX_PAGE_PAYLOAD"
    by (auto simp: node_encode_def split: sum.splits if_splits)
  moreover from this(1) have "len = node_size n"
    by (cases n) (auto dest!: entry_lengths_sum simp: node_size_def node_consts comp_def case_prod_beta)
  ultimately show ?thesis by simp
qed

lemma slice_sorted: "sorted_keys es \<Longrightarrow> sorted_keys (slice es x y)"
  unfolding slice_def take_map [symmetric] drop_map [symmetric] by (intro sorted_wrt_take sorted_wrt_drop)

lemma slice_hd: "x < y \<Longrightarrow> y \<le> length es \<Longrightarrow> slice es x y \<noteq> [] \<and> hd (slice es x y) = es ! x"
  by (auto simp: slice_def hd_drop_conv_nth)

lemma plan_leaves_forest:
  assumes "plan_leaves entries rs ids = Inr (ws, cs)" "tiles start (length entries) rs" "length ids = length rs"
    "sorted_keys entries" "NO_PAGE \<notin> set ids" "\<forall>w\<in>set ws. written nd w"
  shows "forest nd 0 cs (drop start entries) ids \<and> map pw_page_id ws = ids \<and> length cs = length rs"
  using assms
proof (induction entries rs ids arbitrary: start ws cs rule: plan_leaves.induct)
  case (1 entries x y rs pid pids)
  let ?n = "Leaf (slice entries x y) (case pids of [] \<Rightarrow> None | p # _ \<Rightarrow> Some p)"
  from 1(2) obtain bs ws' cs' where e: "node_encode ?n = Inr bs" "plan_leaves entries rs pids = Inr (ws', cs')"
    "ws = \<lparr>pw_page_id = pid, pw_payload = bs\<rparr> # ws'" "cs = \<lparr>ch_key = ie_key (entries ! x), ch_page = pid\<rparr> # cs'"
    by (auto simp: Let_def split: sum.splits)
  have t: "x = start" "x < y" "y \<le> length entries" "tiles y (length entries) rs" using 1(3) by auto
  have "node_wf ?n"
    using encode_size [OF e(1)] 1(6) slice_sorted [OF 1(5), of x y] by (auto split: list.splits)
  then have n: "nd pid = Some ?n" using written_node [OF _ e(1)] 1(7) e(3) by simp
  have "forest nd 0 cs' (drop y entries) pids \<and> map pw_page_id ws' = pids \<and> length cs' = length rs"
    using 1(1) [OF refl e(1) e(2) t(4)] 1(4,5,6,7) e(3) by simp
  moreover from this have "forest nd 0 cs (slice entries x y @ drop y entries) ([pid] @ pids)"
    unfolding e(4) by (intro forest_ConsI) (use n slice_hd [OF t(2,3)] in auto)
  ultimately show ?case
    using slice_drop [of x y entries] t(1-3) e(3,4) by simp
qed auto

lemma plan_parents_forest:
  assumes "plan_parents lv children rs ids = Inr (ws, cs)" "tiles start (length children) rs" "length ids = length rs"
    "forest nd l (drop start children) es ps" "unat lv = Suc l" "sorted_keys es" "NO_PAGE \<notin> set ps"
    "\<forall>w\<in>set ws. written nd w"
  shows "(\<exists>qs. forest nd (Suc l) cs es qs \<and> mset qs = mset ids + mset ps) \<and> map pw_page_id ws = ids \<and> length cs = length rs"
  using assms
proof (induction lv children rs ids arbitrary: start ws cs es ps rule: plan_parents.induct)
  case (1 lv children x y rs pid pids)
  let ?g = "slice children x y"
  from 1(2) obtain bs ws' cs' where e: "node_encode (internal_of lv ?g) = Inr bs"
    "plan_parents lv children rs pids = Inr (ws', cs')"
    "ws = \<lparr>pw_page_id = pid, pw_payload = bs\<rparr> # ws'" "cs = \<lparr>ch_key = ch_key (?g ! 0), ch_page = pid\<rparr> # cs'"
    by (auto simp: Let_def split: sum.splits)
  have t: "x = start" "x < y" "y \<le> length children" "tiles y (length children) rs" using 1(3) by auto
  have ne: "?g \<noteq> []" using slice_hd [OF t(2,3)] by simp
  obtain as aps bs' bps where f: "forest nd l ?g as aps" "forest nd l (drop y children) bs' bps" "es = as @ bs'" "ps = aps @ bps"
    using 1(5) slice_drop [of x y children] t(1-3) by (auto simp: forest_append)
  have s: "sorted_keys as" "sorted_keys bs'" using 1(7) unfolding f(3) sorted_keys_append by blast+
  have "lv \<noteq> 0" using 1(6) by auto
  then have "node_wf (internal_of lv ?g)"
    using internal_wf [OF f(1) ne s(1) _ _ encode_size [OF e(1)]] 1(8) f(4) by simp
  then have "nd pid = Some (internal_of lv ?g)" using written_node [OF _ e(1)] 1(9) e(3) by simp
  then have tr: "tree_at nd (Suc l) pid as (pid # aps)" by (rule forest_parent [OF f(1) ne _ 1(6)])
  have "(\<exists>qs. forest nd (Suc l) cs' bs' qs \<and> mset qs = mset pids + mset bps) \<and> map pw_page_id ws' = pids \<and> length cs' = length rs"
    using 1(1) [OF refl e(1) e(2) t(4) _ f(2) 1(6) s(2)] 1(4,8,9) e(3) f(4) by simp
  then obtain qs where q: "forest nd (Suc l) cs' bs' qs" "mset qs = mset pids + mset bps"
    "map pw_page_id ws' = pids" "length cs' = length rs" by blast
  have key: "ch_key (?g ! 0) = hd_key as" using forest_nonempty [OF f(1) ne] ne by (simp add: hd_conv_nth)
  have "forest nd (Suc l) cs es ((pid # aps) @ qs)"
    unfolding e(4) f(3) by (rule forest_ConsI) (use tr q(1) key in simp_all)
  moreover have "mset ((pid # aps) @ qs) = mset (pid # pids) + mset ps" using q(2) f(4) by simp
  ultimately show ?case using q(3,4) e(3,4) by auto
qed auto

section \<open>Plans\<close>

lemma plan_levels_prefix:
  "plan_levels lv cs ws a = (Inr (lv', cs', ws'), a') \<Longrightarrow> set ws \<subseteq> set ws'"
proof (induction lv cs ws a rule: plan_levels.induct)
  case (1 lv cs ws a)
  show ?case
    using 1(2) 1(1) unfolding plan_levels.simps [of lv cs ws a] by (fastforce split: if_splits prod.splits sum.splits)
qed

lemma plan_levels_step:
  assumes "plan_levels lv cs ws a = (Inr (lv', cs', ws'), a')" "length cs > 1"
  obtains rs ids a1 xs ps where "unat (lv + 1) = Suc (unat lv)" "partition_internal cs = Inr rs"
    "reserve_for (length rs) a = (Inr ids, a1)" "plan_parents (lv + 1) cs rs ids = Inr (xs, ps)"
    "plan_levels (lv + 1) ps (ws @ xs) a1 = (Inr (lv', cs', ws'), a')"
proof -
  have lv: "unat lv + 1 < 2 ^ 16" using assms by (auto simp: plan_levels.simps [of lv cs ws a] split: if_splits)
  then have "unat (lv + 1) = Suc (unat lv)" by (simp add: unat_word_ariths)
  moreover obtain xs ps a1 where p: "plan_level (lv + 1) cs a = (Inr (xs, ps), a1)"
    "plan_levels (lv + 1) ps (ws @ xs) a1 = (Inr (lv', cs', ws'), a')"
    using assms lv unfolding plan_levels.simps [of lv cs ws a] by (auto split: prod.splits sum.splits if_splits)
  moreover obtain rs ids where "partition_internal cs = Inr rs"
    "reserve_for (length rs) a = (Inr ids, a1)" "plan_parents (lv + 1) cs rs ids = Inr (xs, ps)"
    using p(1) by (auto simp: plan_level_def split: sum.splits elim!: try_then_okE)
  ultimately show thesis using that by blast
qed

definition new_pages :: "page_allocator \<Rightarrow> page_allocator \<Rightarrow> u64 list \<Rightarrow> bool" where
  "new_pages a0 a ps \<longleftrightarrow> alloc_ok a \<and> distinct ps \<and> (\<forall>p\<in>set ps. claimed a p \<and> \<not> claimed a0 p) \<and>
    (\<forall>p. claimed a0 p \<longrightarrow> claimed a p)"

lemma new_pages_reserve:
  assumes "new_pages a0 a ps" "reserve_for n a = (Inr ids, a')" "mset qs = mset ids + mset ps"
  shows "new_pages a0 a' qs"
proof -
  note n = assms(1) [unfolded new_pages_def]
  note r = reserve_claims [OF _ assms(2)]
  have "set qs = set ids \<union> set ps" using assms(3) by (metis set_mset_mset set_mset_union)
  moreover have "distinct (ids @ ps)" using r(3,4) n by auto
  then have "distinct qs" using assms(3) mset_eq_imp_distinct_iff [of qs "ids @ ps"] by simp
  ultimately show ?thesis using n r by (auto simp: new_pages_def)
qed

lemma new_pages_start: "alloc_ok a \<Longrightarrow> new_pages a a []"
  by (simp add: new_pages_def)

lemma new_pages_no_page: "new_pages a0 a ps \<Longrightarrow> NO_PAGE \<notin> set ps"
  using claimed_not_no_page by (auto simp: new_pages_def)

lemma plan_levels_forest:
  assumes "plan_levels lv cs ws a = (Inr (lv', cs', ws'), a')" "forest nd (unat lv) cs es ps"
    "mset ps = mset (map pw_page_id ws)" "new_pages a0 a ps" "sorted_keys es" "es \<noteq> []" "\<forall>w\<in>set ws'. written nd w"
  shows "\<exists>qs. forest nd (unat lv') cs' es qs \<and> length cs' = 1 \<and> mset qs = mset (map pw_page_id ws') \<and> new_pages a0 a' qs"
  using assms(1-4)
proof (induction "length cs" arbitrary: lv cs ws a ps rule: less_induct)
  case less
  have ne: "cs \<noteq> []" using less.prems(2) assms(6) by auto
  show ?case
  proof (cases "length cs > 1")
    case False
    then have "length cs = 1" using ne by (cases cs) auto
    then show ?thesis
      using less.prems by (auto simp: plan_levels.simps [of lv cs ws a])
  next
    case True
    obtain rs ids a1 xs cs1 where st: "unat (lv + 1) = Suc (unat lv)" "partition_internal cs = Inr rs"
      "reserve_for (length rs) a = (Inr ids, a1)" "plan_parents (lv + 1) cs rs ids = Inr (xs, cs1)"
      "plan_levels (lv + 1) cs1 (ws @ xs) a1 = (Inr (lv', cs', ws'), a')"
      using plan_levels_step [OF less.prems(1) True] by blast
    have al: "alloc_ok a" using less.prems(4) by (simp add: new_pages_def)
    have xs: "\<forall>w\<in>set xs. written nd w" using plan_levels_prefix [OF st(5)] assms(7) by auto
    have tl: "tiles 0 (length cs) rs"
      using partition_internal_tiles [of cs 0 rs] st(2) by (simp add: partition_internal_def)
    have "forest nd (unat lv) (drop 0 cs) es ps" using less.prems(2) by simp
    from plan_parents_forest [OF st(4) tl reserve_claims(2) [OF al st(3)] this st(1) assms(5)
        new_pages_no_page [OF less.prems(4)] xs]
    obtain qs where q: "forest nd (Suc (unat lv)) cs1 es qs" "mset qs = mset ids + mset ps" "map pw_page_id xs = ids"
      by blast
    have "length cs1 < length cs"
      using plan_parents_length [OF st(4)] partition_internal_halves [of cs 0 rs] st(2) True
      by (simp add: partition_internal_def)
    then show ?thesis
      by (rule less.hyps [OF _ st(5) q(1) [folded st(1)] _ new_pages_reserve [OF less.prems(4) st(3) q(2)]])
        (use less.prems(3) q(2,3) in simp)
  qed
qed

text \<open>What a tree with a root promises.\<close>

definition represents :: "nodes \<Rightarrow> index_root option \<Rightarrow> index_entry list \<Rightarrow> u64 list \<Rightarrow> bool" where
  "represents nd root es ps \<longleftrightarrow>
    (case root of
       None \<Rightarrow> es = [] \<and> ps = []
     | Some r \<Rightarrow> root_height r \<noteq> 0 \<and> tree_at nd (unat (root_height r) - 1) (root_page r) es ps \<and>
         sorted_keys es \<and> distinct ps \<and> unat (root_entries r) = length es)"

lemma validate_sorted: "check_order es = Inr () \<Longrightarrow> sorted_keys es"
  by (induction es rule: check_order.induct) (auto simp: not_le split: if_splits intro: less_trans)

lemma validate_entries_ok: "validate_entries es = Inr () \<longleftrightarrow> check_order es = Inr () \<and> check_sizes es = Inr ()"
  by (auto simp: validate_entries_def split: sum.splits)

lemma plan_index_ok:
  assumes p: "plan_index es a = (Inr plan, a')" and al: "alloc_ok a" and wr: "\<forall>w\<in>set (plan_writes plan). written nd w"
  shows "\<exists>ps. represents nd (plan_root plan) es ps \<and> mset ps = mset (map pw_page_id (plan_writes plan)) \<and> new_pages a a' ps"
proof (cases "es = []")
  case True
  then show ?thesis using p al by (auto simp: plan_index_def represents_def new_pages_start split: sum.splits)
next
  case False
  then obtain rs ids a1 ws cs lv cs' ws' where st: "validate_entries es = Inr ()" "length es < 2 ^ 64"
    "partition_leaves es = Inr rs" "reserve_for (length rs) a = (Inr ids, a1)" "plan_leaves es rs ids = Inr (ws, cs)"
    "plan_levels 0 cs ws a1 = (Inr (lv, cs', ws'), a')" "unat lv + 1 < 2 ^ 16"
    "plan = \<lparr>plan_root = Some \<lparr>root_page = ch_page (cs' ! 0), root_height = lv + 1,
      root_entries = word_of_nat (length es)\<rparr>, plan_writes = ws'\<rparr>"
    using p by (auto simp: plan_index_def not_le split: sum.splits if_splits prod.splits elim!: try_then_okE)
  have srt: "sorted_keys es" using st(1) by (simp add: validate_entries_ok validate_sorted)
  have tl: "tiles 0 (length es) rs" using partition_by_tiles st(3) unfolding partition_leaves_def by blast
  have new: "new_pages a a1 ids" by (rule new_pages_reserve [OF new_pages_start [OF al] st(4)]) simp
  have "\<forall>w\<in>set ws. written nd w" using plan_levels_prefix [OF st(6)] wr st(8) by auto
  from plan_leaves_forest [OF st(5) tl reserve_claims(2) [OF al st(4)] srt new_pages_no_page [OF new] this]
  have f: "forest nd (unat (0 :: u16)) cs es ids" "map pw_page_id ws = ids" by simp_all
  from plan_levels_forest [OF st(6) f(1) _ new srt False] f(2) wr st(8)
  obtain qs where q: "forest nd (unat lv) cs' es qs" "length cs' = 1" "mset qs = mset (map pw_page_id ws')" "new_pages a a' qs"
    by auto
  have "unat (lv + 1) = Suc (unat lv)" using st(7) by (simp add: unat_word_ariths)
  then have "lv + 1 \<noteq> 0" "unat (lv + 1) - 1 = unat lv" by auto
  moreover obtain c where "cs' = [c]" using q(2) by (auto simp: length_Suc_conv)
  ultimately have "represents nd (plan_root plan) es qs"
    using q(1,4) srt st(2,8) by (simp add: represents_def forest_single new_pages_def unat_word_of_nat_u64)
  with q(3,4) st(8) show ?thesis by auto
qed

section \<open>Plans are made\<close>

abbreviation key_fits :: "bytes \<Rightarrow> bool" where
  "key_fits k \<equiv> header_size + (length k + 12) \<le> MAX_PAGE_PAYLOAD"

definition room :: "page_allocator \<Rightarrow> nat \<Rightarrow> bool" where
  "room a n \<longleftrightarrow> unat (next_page_id a) + n < 2 ^ 64"

lemma reserve_room:
  assumes "room a (n + m)"
  obtains ids a' where "reserve_for n a = (Inr ids, a')" "room a' m" "length ids = n"
proof -
  let ?fresh = "n - length (take n (free_pages a))"
  have small: "unat (next_page_id a) + ?fresh < 2 ^ 64" "?fresh < 2 ^ 64"
    using assms by (simp_all add: room_def)
  then have u: "unat (word_of_nat ?fresh :: u64) = ?fresh" by (intro unat_word_of_nat_u64)
  obtain e where e: "checked_add_u64 (next_page_id a) (word_of_nat ?fresh) = Some e"
    using small(1) u by (auto simp: checked_add_u64_def)
  have ue: "unat e = unat (next_page_id a) + ?fresh" using checked_add_u64_Some [OF e] u by simp
  show thesis
  proof (rule that)
    show "reserve_for n a = (Inr (take n (free_pages a) @ map word_of_nat [unat (next_page_id a)..<unat e]),
        a\<lparr>free_pages := drop n (free_pages a), next_page_id := e\<rparr>)"
      using small(2) e by (simp add: reserve_for_def reserve_def Let_def)
  qed (use assms ue in \<open>simp_all add: room_def\<close>)
qed

lemma entry_size_fits:
  assumes "key_fits k"
  shows "leaf_entry_size (length k) = Some (length k + 12)" "internal_entry_size (length k) = Some (length k + 12)"
  using assms by (simp_all add: leaf_entry_size_def internal_entry_size_def checked_add_usize_def node_consts page_consts usize_max_def)

lemma fill_node_fits:
  assumes "\<forall>i<len. sz i = Some (f i)" "e \<le> len" "used \<le> MAX_PAGE_PAYLOAD"
  obtains j where "fill_node sz len e used = Inr j" "used + sum f {e..<j} \<le> MAX_PAGE_PAYLOAD" "e \<le> j" "j \<le> len"
    "e < len \<Longrightarrow> used + f e \<le> MAX_PAGE_PAYLOAD \<Longrightarrow> e < j"
proof -
  have "\<exists>j. fill_node sz len e used = Inr j \<and> used + sum f {e..<j} \<le> MAX_PAGE_PAYLOAD"
    using assms
  proof (induction sz len e used rule: fill_node.induct)
    case (1 sz len e used)
    show ?case
    proof (cases "e < len \<and> used + f e \<le> MAX_PAGE_PAYLOAD")
      case True
      then have sz: "sz e = Some (f e)" using 1(2) by blast
      obtain j where j: "fill_node sz len (e + 1) (used + f e) = Inr j" "used + f e + sum f {e + 1..<j} \<le> MAX_PAGE_PAYLOAD"
        using 1(1) [OF _ sz] True 1(2) by auto
      have "e < j" using fill_node_bounds [OF j(1)] True by simp
      with j True sz show ?thesis by (simp add: fill_node.simps [of sz len e used] sum.atLeast_Suc_lessThan)
    next
      case False
      then show ?thesis using 1(2,4) by (auto simp: fill_node.simps [of sz len e used])
    qed
  qed
  then obtain j where j: "fill_node sz len e used = Inr j" "used + sum f {e..<j} \<le> MAX_PAGE_PAYLOAD" by blast
  note b = fill_node_bounds [OF j(1) assms(2)]
  have "e < j" if "e < len" "used + f e \<le> MAX_PAGE_PAYLOAD"
    using fill_node_stuck [of sz len e used] j(1) that assms(1) b by (cases "e = j") auto
  with that j b show thesis by blast
qed

lemma sum_slice: "y \<le> length xs \<Longrightarrow> (\<Sum>z\<leftarrow>slice xs x y. g z) = (\<Sum>i = x..<y. g (xs ! i))"
proof (induction "y - x" arbitrary: x)
  case (Suc n)
  then have "slice xs x y = xs ! x # slice xs (Suc x) y"
    by (simp add: slice_def Cons_nth_drop_Suc [symmetric] take_Cons' Suc_diff_Suc [symmetric])
  with Suc show ?case by (simp add: sum.atLeast_Suc_lessThan)
qed (simp add: slice_def)

lemma leaf_size: "y \<le> length es \<Longrightarrow>
    node_size (Leaf (slice es x y) nx) = header_size + (\<Sum>i = x..<y. length (ie_key (es ! i)) + 12)"
  using sum_slice [of y es "\<lambda>e. length (ie_key e) + 12" x]
  by (simp add: node_size_def header_size_def node_consts comp_def)

lemma slice_tail: "x < y \<Longrightarrow> y \<le> length xs \<Longrightarrow> drop 1 (slice xs x y) = slice xs (Suc x) y"
  by (simp add: slice_def drop_take)

lemma internal_size: "x < y \<Longrightarrow> y \<le> length cs \<Longrightarrow>
    node_size (internal_of lv (slice cs x y)) = header_size + (\<Sum>i = Suc x..<y. length (ch_key (cs ! i)) + 12)"
  using sum_slice [of y cs "\<lambda>c. length (ch_key c) + 12" "Suc x"]
  by (simp add: node_size_def internal_of_def slice_tail [simplified] header_size_def node_consts comp_def)

primrec all_fit :: "(nat \<Rightarrow> nat \<Rightarrow> nat) \<Rightarrow> (nat \<times> nat) list \<Rightarrow> bool" where
  "all_fit g [] \<longleftrightarrow> True"
| "all_fit g (r # rs) \<longleftrightarrow> g (fst r) (snd r) \<le> MAX_PAGE_PAYLOAD \<and> all_fit g rs"

lemma partition_by_total:
  assumes "\<forall>i<len. sz i = Some (f i) \<and> header_size + f i \<le> MAX_PAGE_PAYLOAD" "start \<le> len"
  shows "\<exists>rs. partition_by len sz start = Inr rs \<and> all_fit (\<lambda>x y. header_size + sum f {x..<y}) rs \<and> length rs \<le> len - start"
  using assms(2)
proof (induction "len - start" arbitrary: start rule: less_induct)
  case less
  show ?case
  proof (cases "start < len")
    case True
    have "header_size \<le> MAX_PAGE_PAYLOAD" by (simp add: header_size_def node_consts page_consts)
    moreover have "\<forall>i<len. sz i = Some (f i)" using assms(1) by blast
    ultimately obtain j where "fill_node sz len start header_size = Inr j" "header_size + sum f {start..<j} \<le> MAX_PAGE_PAYLOAD"
      "j \<le> len" "start < len \<Longrightarrow> header_size + f start \<le> MAX_PAGE_PAYLOAD \<Longrightarrow> start < j"
      using fill_node_fits [OF _ less.prems] by metis
    with True assms(1) have j: "fill_node sz len start header_size = Inr j"
      "header_size + sum f {start..<j} \<le> MAX_PAGE_PAYLOAD" "j \<le> len" "start < j" by blast+
    have "len - j < len - start" using j(3,4) by simp
    from less.hyps [OF this j(3)] obtain rs where "partition_by len sz j = Inr rs"
      "all_fit (\<lambda>x y. header_size + sum f {x..<y}) rs" "length rs \<le> len - j" by blast
    with j True show ?thesis by (simp add: partition_by.simps [of len sz start])
  qed (simp add: partition_by.simps [of len sz start])
qed

lemma partition_internal_total:
  assumes "\<forall>c\<in>set cs. key_fits (ch_key c)" "start \<le> length cs"
  shows "\<exists>rs. partition_internal_from cs start = Inr rs \<and>
    all_fit (\<lambda>x y. header_size + (\<Sum>i = Suc x..<y. length (ch_key (cs ! i)) + 12)) rs"
  using assms(2)
proof (induction "length cs - start" arbitrary: start rule: less_induct)
  case less
  let ?sz = "\<lambda>i. internal_entry_size (length (ch_key (cs ! i)))" and ?f = "\<lambda>i. length (ch_key (cs ! i)) + 12"
  have sz: "\<forall>i<length cs. ?sz i = Some (?f i) \<and> header_size + ?f i \<le> MAX_PAGE_PAYLOAD"
    using assms(1) by (simp add: entry_size_fits)
  show ?case
  proof (cases "start < length cs")
    case True
    have hs: "header_size \<le> MAX_PAGE_PAYLOAD" by (simp add: header_size_def node_consts page_consts)
    have sz': "\<forall>i<length cs. ?sz i = Some (?f i)" using sz by blast
    have "start + 1 \<le> length cs" using True by simp
    from fill_node_fits [OF sz' this hs] obtain j where "fill_node ?sz (length cs) (start + 1) header_size = Inr j"
      "header_size + sum ?f {start + 1..<j} \<le> MAX_PAGE_PAYLOAD" "j \<le> length cs" "start + 1 \<le> j"
      by blast
    then have j: "fill_node ?sz (length cs) (start + 1) header_size = Inr j"
      "header_size + sum ?f {Suc start..<j} \<le> MAX_PAGE_PAYLOAD" "j \<le> length cs" "start < j" by simp_all
    obtain rs where r: "partition_internal_from cs j = Inr rs"
      "all_fit (\<lambda>x y. header_size + sum ?f {Suc x..<y}) rs"
      using less.hyps [of j] j(3,4) by (meson diff_less_mono2 less_le_trans)
    have "\<not> (j < length cs \<and> header_size + (case ?sz j of None \<Rightarrow> usize_max | Some n \<Rightarrow> n) > MAX_PAGE_PAYLOAD)"
      using sz by (auto simp del: not_less)
    with j r True have "partition_internal_from cs start = Inr ((start, j) # rs)"
      by (simp add: partition_internal_from.simps [of cs start] del: not_less)
    with j(2) r(2) show ?thesis by auto
  qed (simp add: partition_internal_from.simps [of cs start])
qed

definition small_pages :: "page_write list \<Rightarrow> bool" where
  "small_pages ws \<longleftrightarrow> (\<forall>w\<in>set ws. length (pw_payload w) \<le> MAX_PAGE_PAYLOAD)"

lemma small_pages_simps [simp]:
  "small_pages []" "small_pages (w # ws) \<longleftrightarrow> length (pw_payload w) \<le> MAX_PAGE_PAYLOAD \<and> small_pages ws"
  "small_pages (as @ bs) \<longleftrightarrow> small_pages as \<and> small_pages bs"
  by (auto simp: small_pages_def)

lemma plan_leaves_total:
  assumes "tiles start (length es) rs" "length ids = length rs"
    "all_fit (\<lambda>x y. header_size + (\<Sum>i = x..<y. length (ie_key (es ! i)) + 12)) rs"
  shows "\<exists>ws cs. plan_leaves es rs ids = Inr (ws, cs) \<and> length cs = length rs \<and> length ws = length rs \<and>
    small_pages ws \<and> ch_key ` set cs \<subseteq> ie_key ` set es"
  using assms
proof (induction es rs ids arbitrary: start rule: plan_leaves.induct)
  case (1 es x y rs pid pids)
  let ?n = "Leaf (slice es x y) (case pids of [] \<Rightarrow> None | p # _ \<Rightarrow> Some p)"
  have t: "x < y" "y \<le> length es" "tiles y (length es) rs" using 1(2) by auto
  have sz: "node_size ?n \<le> MAX_PAGE_PAYLOAD" using 1(4) leaf_size [OF t(2)] by simp
  note enc = node_encode_eq [OF sz]
  obtain ws cs where "plan_leaves es rs pids = Inr (ws, cs)" "length cs = length rs" "length ws = length rs"
    "small_pages ws" "ch_key ` set cs \<subseteq> ie_key ` set es"
    using 1(1) [OF refl enc t(3)] 1(3,4) by auto
  moreover have "ie_key (es ! x) \<in> ie_key ` set es" using t(1,2) by simp
  ultimately show ?case using enc sz by (simp add: Let_def)
qed auto

lemma plan_parents_total:
  assumes "tiles start (length cs) rs" "length ids = length rs"
    "all_fit (\<lambda>x y. header_size + (\<Sum>i = Suc x..<y. length (ch_key (cs ! i)) + 12)) rs"
  shows "\<exists>ws ps. plan_parents lv cs rs ids = Inr (ws, ps) \<and> length ps = length rs \<and> length ws = length rs \<and>
    small_pages ws \<and> ch_key ` set ps \<subseteq> ch_key ` set cs"
  using assms
proof (induction lv cs rs ids arbitrary: start rule: plan_parents.induct)
  case (1 lv cs x y rs pid pids)
  let ?n = "internal_of lv (slice cs x y)"
  have t: "x < y" "y \<le> length cs" "tiles y (length cs) rs" using 1(2) by auto
  have sz: "node_size ?n \<le> MAX_PAGE_PAYLOAD" using 1(4) internal_size [OF t(1,2)] by simp
  note enc = node_encode_eq [OF sz]
  obtain ws ps where "plan_parents lv cs rs pids = Inr (ws, ps)" "length ps = length rs" "length ws = length rs"
    "small_pages ws" "ch_key ` set ps \<subseteq> ch_key ` set cs"
    using 1(1) [OF refl enc t(3)] 1(3,4) by auto
  moreover have "ch_key (slice cs x y ! 0) \<in> ch_key ` set cs" using t(1,2) by (simp add: slice_def)
  ultimately show ?case using enc sz by (simp add: Let_def)
qed auto

lemma plan_levels_total:
  assumes "\<forall>c\<in>set cs. key_fits (ch_key c)" "length cs \<le> 2 ^ k" "unat lv + k < 2 ^ 16" "room a (2 * length cs)" "small_pages ws"
  shows "\<exists>lv' cs' ws' a'. plan_levels lv cs ws a = (Inr (lv', cs', ws'), a') \<and> unat lv' \<le> unat lv + k \<and>
    small_pages ws' \<and> length ws' \<le> length ws + 2 * length cs"
  using assms
proof (induction k arbitrary: lv cs ws a)
  case 0
  then show ?case by (simp add: plan_levels.simps [of lv cs ws a])
next
  case (Suc k)
  show ?case
  proof (cases "length cs > 1")
    case False
    then show ?thesis using Suc.prems(5) by (simp add: plan_levels.simps [of lv cs ws a])
  next
    case True
    obtain rs where r: "partition_internal_from cs 0 = Inr rs"
      "all_fit (\<lambda>x y. header_size + (\<Sum>i = Suc x..<y. length (ch_key (cs ! i)) + 12)) rs"
      using partition_internal_total [OF Suc.prems(1)] by blast
    have half: "2 * length rs \<le> length cs + 1" using partition_internal_halves [OF r(1)] by simp
    then have rm: "room a (length rs + 2 * length rs)" using Suc.prems(4) True by (simp add: room_def)
    obtain ids a1 where ids: "reserve_for (length rs) a = (Inr ids, a1)" "room a1 (2 * length rs)" "length ids = length rs"
      by (rule reserve_room [OF rm])
    obtain xs ps where p: "plan_parents (lv + 1) cs rs ids = Inr (xs, ps)" "length ps = length rs" "length xs = length rs"
      "small_pages xs" "ch_key ` set ps \<subseteq> ch_key ` set cs"
      using plan_parents_total [OF partition_internal_tiles [OF r(1)] ids(3) r(2)] by blast
    have lv: "unat (lv + 1) = Suc (unat lv)" using Suc.prems(3) by (simp add: unat_word_ariths)
    have "\<forall>c\<in>set ps. key_fits (ch_key c)" using p(5) Suc.prems(1) by (auto simp: image_subset_iff)
    moreover have "length ps \<le> 2 ^ k" using half Suc.prems(2) p(2) by simp
    moreover have "unat (lv + 1) + k < 2 ^ 16" using Suc.prems(3) lv by simp
    moreover have "room a1 (2 * length ps)" "small_pages (ws @ xs)" using ids(2) p(2,4) Suc.prems(5) by simp_all
    ultimately obtain lv' cs' ws' a' where "plan_levels (lv + 1) ps (ws @ xs) a1 = (Inr (lv', cs', ws'), a')"
      "unat lv' \<le> unat (lv + 1) + k" "small_pages ws'" "length ws' \<le> length (ws @ xs) + 2 * length ps"
      using Suc.IH by blast
    moreover have "plan_levels lv cs ws a = plan_levels (lv + 1) ps (ws @ xs) a1"
      using True Suc.prems(3) r(1) ids(1) p(1)
      by (simp add: plan_levels.simps [of lv cs ws a] plan_level_def partition_internal_def)
    ultimately show ?thesis using lv half p(2,3) True by auto
  qed
qed

lemma check_order_sorted: "sorted_keys es \<Longrightarrow> check_order es = Inr ()"
  by (induction es rule: check_order.induct) (auto simp: not_le [symmetric])

lemma check_sizes_fit: "\<forall>e\<in>set es. key_fits (ie_key e) \<Longrightarrow> check_sizes es = Inr ()"
  by (induction es) (auto simp: entry_size_fits)

lemma plan_index_total:
  assumes "sorted_keys es" "\<forall>e\<in>set es. key_fits (ie_key e)" "es \<noteq> []" "length es \<le> 2 ^ k" "k < 64" "room a (3 * length es)"
  shows "\<exists>plan a' r. plan_index es a = (Inr plan, a') \<and> plan_root plan = Some r \<and> unat (root_height r) \<le> k + 1 \<and>
    small_pages (plan_writes plan) \<and> length (plan_writes plan) \<le> 3 * length es"
proof -
  let ?f = "\<lambda>i. length (ie_key (es ! i)) + 12"
  have "\<forall>i<length es. leaf_entry_size (length (ie_key (es ! i))) = Some (?f i) \<and> header_size + ?f i \<le> MAX_PAGE_PAYLOAD"
    using assms(2) by (simp add: entry_size_fits)
  from partition_by_total [OF this, of 0] obtain rs where
    r: "partition_leaves es = Inr rs" "all_fit (\<lambda>x y. header_size + sum ?f {x..<y}) rs" "length rs \<le> length es"
    unfolding partition_leaves_def by auto
  have tl: "tiles 0 (length es) rs" using partition_by_tiles r(1) unfolding partition_leaves_def by blast
  have rm: "room a (length rs + 2 * length rs)" using assms(6) r(3) by (simp add: room_def)
  obtain ids a1 where ids: "reserve_for (length rs) a = (Inr ids, a1)" "room a1 (2 * length rs)" "length ids = length rs"
    by (rule reserve_room [OF rm])
  obtain ws cs where l: "plan_leaves es rs ids = Inr (ws, cs)" "length cs = length rs" "length ws = length rs"
    "small_pages ws" "ch_key ` set cs \<subseteq> ie_key ` set es"
    using plan_leaves_total [OF tl ids(3) r(2)] by blast
  have "\<forall>c\<in>set cs. key_fits (ch_key c)" using l(5) assms(2) by (auto simp: image_subset_iff)
  moreover have "length cs \<le> 2 ^ k" "unat (0 :: u16) + k < 2 ^ 16" "room a1 (2 * length cs)"
    using r(3) l(2) assms(4,5) ids(2) by simp_all
  ultimately obtain lv cs' ws' a' where p: "plan_levels 0 cs ws a1 = (Inr (lv, cs', ws'), a')" "unat lv \<le> k"
    "small_pages ws'" "length ws' \<le> length ws + 2 * length cs"
    using plan_levels_total [of cs k 0 a1 ws] l(4) by auto
  have big: "length es < 2 ^ 64" using assms(4,5) power_strict_increasing [of k 64 "2 :: nat"] by linarith
  have lv: "unat lv + 1 < 2 ^ 16" using p(2) assms(5) by simp
  then have "unat (lv + 1) = Suc (unat lv)" by (simp add: unat_word_ariths)
  moreover have "validate_entries es = Inr ()"
    using check_order_sorted [OF assms(1)] check_sizes_fit [OF assms(2)] by (simp add: validate_entries_ok)
  ultimately show ?thesis
    using assms(3) big r(1,3) ids(1) l p lv by (auto simp: plan_index_def)
qed

section \<open>Building into a store\<close>

lemma plan_leaves_ids: "plan_leaves es rs ids = Inr (ws, cs) \<Longrightarrow> length ids = length rs \<Longrightarrow> map pw_page_id ws = ids"
  by (induction es rs ids arbitrary: ws cs rule: plan_leaves.induct) (auto simp: Let_def split: sum.splits)

lemma plan_parents_ids: "plan_parents lv cs rs ids = Inr (ws, ps) \<Longrightarrow> length ids = length rs \<Longrightarrow> map pw_page_id ws = ids"
  by (induction lv cs rs ids arbitrary: ws ps rule: plan_parents.induct) (auto simp: Let_def split: sum.splits)

lemma plan_levels_new:
  "plan_levels lv cs ws a = (Inr (lv', cs', ws'), a') \<Longrightarrow> new_pages a0 a (map pw_page_id ws) \<Longrightarrow>
    new_pages a0 a' (map pw_page_id ws')"
proof (induction "length cs" arbitrary: lv cs ws a rule: less_induct)
  case less
  show ?case
  proof (cases "length cs > 1")
    case False
    then show ?thesis using less.prems by (simp add: plan_levels.simps [of lv cs ws a])
  next
    case True
    obtain rs ids a1 xs cs1 where "unat (lv + 1) = Suc (unat lv)" and st: "partition_internal cs = Inr rs"
      "reserve_for (length rs) a = (Inr ids, a1)" "plan_parents (lv + 1) cs rs ids = Inr (xs, cs1)"
      "plan_levels (lv + 1) cs1 (ws @ xs) a1 = (Inr (lv', cs', ws'), a')"
      by (rule plan_levels_step [OF less.prems(1) True])
    have al: "alloc_ok a" using less.prems(2) by (simp add: new_pages_def)
    have "map pw_page_id xs = ids" by (rule plan_parents_ids [OF st(3) reserve_claims(2) [OF al st(2)]])
    then have "new_pages a0 a1 (map pw_page_id (ws @ xs))"
      by (intro new_pages_reserve [OF less.prems(2) st(2)]) simp
    moreover have "length cs1 < length cs"
      using plan_parents_length [OF st(3)] partition_internal_halves [of cs 0 rs] st(1) True
      by (simp add: partition_internal_def)
    ultimately show ?thesis using less.hyps [of cs1 "lv + 1" "ws @ xs" a1] st(4) by simp
  qed
qed

lemma plan_index_new:
  assumes p: "plan_index es a = (Inr plan, a')" and al: "alloc_ok a"
  shows "new_pages a a' (map pw_page_id (plan_writes plan))"
proof (cases "es = []")
  case True
  then show ?thesis using p al by (auto simp: plan_index_def new_pages_start split: sum.splits)
next
  case False
  then obtain rs ids a1 ws cs lv cs' where st: "reserve_for (length rs) a = (Inr ids, a1)"
    "plan_leaves es rs ids = Inr (ws, cs)" "plan_levels 0 cs ws a1 = (Inr (lv, cs', plan_writes plan), a')"
    using p by (auto simp: plan_index_def not_le split: sum.splits if_splits prod.splits elim!: try_then_okE)
  have "map pw_page_id ws = ids" by (rule plan_leaves_ids [OF st(2) reserve_claims(2) [OF al st(1)]])
  then have "new_pages a a1 (map pw_page_id ws)"
    by (intro new_pages_reserve [OF new_pages_start [OF al] st(1)]) simp
  then show ?thesis by (rule plan_levels_new [OF st(3)])
qed

lemma store_inv_allocator [simp]: "store_inv crc (s\<lparr>allocator := a\<rparr>) L base ws = store_inv crc s L base ws"
  by (simp add: store_inv_def table_inv_def flushed_inv_def cong: option.case_cong)

lemma submit_writes:
  assumes "submit crc \<lparr>cr_writes = ws, cr_appends = [], cr_durable = d, cr_response = n\<rparr> g = (Inr ls, g')"
  obtains wl al where "apply_batch crc ws [] d (gc_store g) = (Inr (wl, al), gc_store g')"
  using assms that by (auto simp: submit_def execute_group_def Let_def split: prod.splits sum.splits)

lemma shared_read_page_eq: "shared_read_page crc pid s = read_page crc pid s"
  by (simp add: shared_read_page_def read_page_def data_read_def split: option.splits)

lemma written_reads:
  assumes inv: "store_inv (env_crc E) s L base xs" and addr: "\<forall>w\<in>set ws. addressable (pw_page_id w)"
    and d: "distinct (map pw_page_id ws)" and ok: "apply_batch (env_crc E) ws [] durable s = (Inr (wl, al), s')"
  shows "\<forall>w\<in>set ws. written (store_nodes E s') w"
proof
  fix w assume "w \<in> set ws"
  then obtain j where j: "j < length ws" "w = ws ! j" by (metis in_set_conv_nth)
  from group_pages_reads(2) [OF inv addr d ok j(1)] show "written (store_nodes E s') w"
    by (simp add: written_def store_nodes_def load_node_def shared_read_page_eq j(2) split: sum.splits)
qed

definition pages_fit :: "page_allocator \<Rightarrow> bool" where
  "pages_fit a \<longleftrightarrow> unat (next_page_id a) * PAGE_SIZE \<le> 2 ^ 64"

lemma pages_fit_addressable: "pages_fit a \<Longrightarrow> claimed a p \<Longrightarrow> addressable p"
proof -
  assume a: "pages_fit a" "claimed a p"
  then have "unat p < unat (next_page_id a)" by (simp add: claimed_def word_less_nat_alt)
  with a(1) show "addressable p" by (simp add: pages_fit_def addressable_def page_consts)
qed

lemma tree_build_represents:
  assumes inv: "store_inv (env_crc E) (gc_store g) L base xs" and al: "alloc_ok (allocator (gc_store g))"
    and fit: "pages_fit (snd (plan_index es (allocator (gc_store g))))"
    and b: "tree_build E es g = (Inr root, g')"
  shows "\<exists>ps. represents (store_nodes E (gc_store g')) root es ps"
proof -
  obtain plan a where p: "plan_index es (allocator (gc_store g)) = (Inr plan, a)"
    using b by (cases "plan_index es (allocator (gc_store g))") (auto simp: tree_build_def Let_def split: sum.splits)
  define g1 where "g1 = g\<lparr>gc_store := (gc_store g)\<lparr>allocator := a\<rparr>\<rparr>"
  let ?ws = "plan_writes plan"
  have new: "new_pages (allocator (gc_store g)) a (map pw_page_id ?ws)" by (rule plan_index_new [OF p al])
  obtain ls where c: "client_call (env_crc E) (handle_commit ?ws 0) g1 = (Inr ls, g')" "root = plan_root plan"
    using b p by (auto simp: tree_build_def Let_def g1_def split: prod.splits sum.splits)
  have "\<forall>w\<in>set ?ws. written (store_nodes E (gc_store g')) w"
  proof (cases "?ws = []")
    case False
    then have s: "submit (env_crc E) \<lparr>cr_writes = ?ws, cr_appends = [], cr_durable = True, cr_response = 0\<rparr> g1 = (Inr ls, g')"
      using c(1) by (auto simp: client_call_def handle_commit_def commit_with_def split: option.splits)
    obtain wl al' where "apply_batch (env_crc E) ?ws [] True (gc_store g1) = (Inr (wl, al'), gc_store g')"
      by (rule submit_writes [OF s])
    moreover have "store_inv (env_crc E) (gc_store g1) L base xs" using inv by (simp add: g1_def)
    moreover have "\<forall>w\<in>set ?ws. addressable (pw_page_id w)"
      using new pages_fit_addressable [of a] fit p by (auto simp: new_pages_def)
    ultimately show ?thesis using new by (intro written_reads) (auto simp: new_pages_def)
  qed simp
  from plan_index_ok [OF p al this] c(2) show ?thesis by blast
qed

lemma wal_ready_le: "wal_ready n w \<Longrightarrow> m \<le> n \<Longrightarrow> wal_ready m w"
  by (auto simp: wal_ready_def)

lemma no_page_same: "NO_PAGE = NO_PAGE_ID"
  by (simp add: NO_PAGE_def NO_PAGE_ID_def)

lemma tree_build_total:
  assumes es: "sorted_keys es" "\<forall>e\<in>set es. key_fits (ie_key e)" "es \<noteq> []" "length es \<le> 2 ^ k" "k < 30"
    and room: "room (allocator (gc_store g)) (3 * length es)" and al: "alloc_ok (allocator (gc_store g))"
    and ready: "wal_ready (Suc (3 * length es)) (st_wal (gc_store g))" "\<not> poisoned (gc_store g)"
  shows "\<exists>r g'. tree_build E es g = (Inr (Some r), g') \<and> unat (root_height r) \<le> k + 1"
proof -
  obtain plan a r where p: "plan_index es (allocator (gc_store g)) = (Inr plan, a)" "plan_root plan = Some r"
    "unat (root_height r) \<le> k + 1" "small_pages (plan_writes plan)" "length (plan_writes plan) \<le> 3 * length es"
    using plan_index_total [OF es(1-4) _ room] es(5) by auto
  let ?ws = "plan_writes plan" and ?s = "(gc_store g)\<lparr>allocator := a\<rparr>"
  have new: "\<forall>w\<in>set ?ws. pw_page_id w \<noteq> NO_PAGE_ID"
    using new_pages_no_page [OF plan_index_new [OF p(1) al]] by (metis image_eqI no_page_same set_map)
  have few: "length ?ws < 2 ^ 32"
  proof -
    have "3 * length es \<le> 3 * 2 ^ k" using es(4) by simp
    also have "(2 :: nat) ^ k \<le> 2 ^ 29" using es(5) by (intro power_increasing) simp_all
    finally show ?thesis using p(5) by simp
  qed
  show ?thesis
  proof (cases "?ws = []")
    case True
    then show ?thesis using p(1-3) by (simp add: tree_build_def client_call_def handle_commit_def commit_with_def)
  next
    case False
    have ready': "wal_ready (Suc (length ?ws)) (st_wal ?s)" using wal_ready_le [OF ready(1)] p(5) by simp
    obtain wl s' where "apply_batch (env_crc E) ?ws [] True ?s = (Inr (wl, []), s')"
      using apply_batch_total [OF ready' False _ _ few, of "env_crc E" True] ready(2) p(4) new
      by (auto simp: small_pages_def)
    moreover have "find (\<lambda>w. MAX_PAGE_PAYLOAD < length (pw_payload w)) ?ws = None"
      using p(4) by (auto simp: small_pages_def find_None_iff not_less)
    ultimately show ?thesis
      using p(1-3) False
      by (simp add: tree_build_def client_call_def handle_commit_def commit_with_def submit_def execute_group_def Let_def)
  qed
qed

lemma represented_answers:
  assumes "represents (store_nodes E s) (Some r) es ps" "coherent E s cache"
  shows "fst (tree_get E s r key cache) = Inr (entry_map es key)"
    "fst (tree_range E s r lower upper limit cache) = Inr (take limit (filter (in_range lower upper) es))"
proof -
  have r: "root_height r \<noteq> 0" "tree_at (store_nodes E s) (unat (root_height r) - 1) (root_page r) es ps"
    "sorted_keys es" "distinct ps"
    using assms(1) by (simp_all add: represents_def)
  show "fst (tree_get E s r key cache) = Inr (entry_map es key)"
    using get_loop_correct [OF r(2,3) assms(2), of key] r(1) by (auto simp: tree_get_def)
  show "fst (tree_range E s r lower upper limit cache) = Inr (take limit (filter (in_range lower upper) es))"
    using tree_range_ok [OF r(2,1,3,4) assms(2), of lower upper limit] by auto
qed

section \<open>A sample tree\<close>

definition sample_env :: index_env where
  "sample_env = \<lparr>env_crc = byte_sum, env_node_size = 64, env_entry_size = 32, env_pair_size = 32\<rparr>"

definition sample_entries :: "index_entry list" where
  "sample_entries = [\<lparr>ie_key = [1], ie_value = 7\<rparr>, \<lparr>ie_key = [2], ie_value = 8\<rparr>, \<lparr>ie_key = [2, 0], ie_value = 9\<rparr>]"

lemma sample_sorted: "sorted_keys sample_entries"
  by (simp add: sample_entries_def)

lemma sample_fits: "\<forall>e\<in>set sample_entries. key_fits (ie_key e)"
  by (simp add: sample_entries_def header_size_def node_consts page_consts)

lemma sample_plan_allocator:
  "snd (plan_index sample_entries \<lparr>next_page_id = 0, free_pages = []\<rparr>) = \<lparr>next_page_id = 1, free_pages = []\<rparr>"
proof -
  have "length sample_entries = 3" by (simp add: sample_entries_def)
  define sz where "sz = (\<lambda>i. leaf_entry_size (length (ie_key (sample_entries ! i))))"
  have "sz 0 = Some 13" "sz (Suc 0) = Some 13" "sz (Suc (Suc 0)) = Some 14"
    by (simp_all add: sz_def sample_entries_def leaf_entry_size_def checked_add_usize_def node_consts usize_max_def)
  then have "fill_node sz 3 0 header_size = Inr 3"
    by (simp add: fill_node.simps [of sz] header_size_def node_consts page_consts numeral_3_eq_3)
  then have "partition_leaves sample_entries = Inr [(0, 3)]"
    using \<open>length sample_entries = 3\<close> by (simp add: partition_leaves_def sz_def [symmetric] partition_by.simps [of 3])
  moreover have "reserve_for 1 \<lparr>next_page_id = 0, free_pages = []\<rparr> = (Inr [0], \<lparr>next_page_id = 1, free_pages = []\<rparr>)"
    by (simp add: reserve_for_def reserve_def checked_add_u64_def upt_rec)
  moreover have "node_encode (Leaf (slice sample_entries 0 3) None) = Inr (node_image (Leaf (slice sample_entries 0 3) None))"
    by (intro node_encode_eq) (simp add: node_size_def sample_entries_def slice_def page_consts)
  moreover have "validate_entries sample_entries = Inr ()"
    using check_order_sorted [OF sample_sorted] check_sizes_fit [OF sample_fits] by (simp add: validate_entries_ok)
  moreover have "sample_entries \<noteq> []" using \<open>length sample_entries = 3\<close> by auto
  ultimately show ?thesis
    using \<open>length sample_entries = 3\<close> by (simp add: plan_index_def plan_levels.simps [of 0])
qed

lemma fresh_committer_build:
  "alloc_ok (allocator (gc_store fresh_committer))" "room (allocator (gc_store fresh_committer)) (3 * length sample_entries)"
  "wal_ready (Suc (3 * length sample_entries)) (st_wal (gc_store fresh_committer))" "\<not> poisoned (gc_store fresh_committer)"
  "pages_fit (snd (plan_index sample_entries (allocator (gc_store fresh_committer))))"
  using fresh_store_ready [of 10] fresh_store_durable(2) sample_plan_allocator
  by (simp_all add: fresh_committer_def fresh_store_def alloc_ok_def room_def sample_entries_def pages_fit_def page_consts)

section \<open>Properties\<close>

text \<open>C27: an index that was built answers from the entries it was built of: on the store after a
  successful \<open>build\<close>, a lookup of any key gives the value of its entry or none, and a range scan
  gives the entries of the range in key order up to the limit, whatever agreeing nodes the cache holds.\<close>

theorem built_tree_answers:
  assumes "store_inv (env_crc E) (gc_store g) L base ws" "alloc_ok (allocator (gc_store g))"
    "pages_fit (snd (plan_index es (allocator (gc_store g))))"
    "tree_build E es g = (Inr (Some r), g')" "coherent E (gc_store g') cache"
  shows "fst (tree_get E (gc_store g') r key cache) = Inr (entry_map es key) \<and>
    fst (tree_range E (gc_store g') r lower upper limit cache) = Inr (take limit (filter (in_range lower upper) es))"
  using tree_build_represents [OF assms(1-4)] represented_answers [OF _ assms(5)] by blast

theorem built_tree_answers_witness:
  "\<exists>r g'. tree_build sample_env sample_entries fresh_committer = (Inr (Some r), g') \<and>
    fst (tree_get sample_env (gc_store g') r [2] None) = Inr (Some 8) \<and>
    fst (tree_get sample_env (gc_store g') r [3] None) = Inr None \<and>
    fst (tree_range sample_env (gc_store g') r (Some [2]) None 5 None) = Inr (drop 1 sample_entries)"
proof -
  obtain r g' where b: "tree_build sample_env sample_entries fresh_committer = (Inr (Some r), g')"
    using tree_build_total [OF sample_sorted sample_fits _ _ _ fresh_committer_build(2,1,3,4), of 2 sample_env]
    by (auto simp: sample_entries_def)
  have inv: "store_inv (env_crc sample_env) (gc_store fresh_committer) (\<lambda>_. []) (\<lambda>_. None) []"
    using fresh_store_inv by (simp add: fresh_committer_def)
  have coh: "coherent sample_env (gc_store g') None" by (simp add: cache_coherent_def cache_lookup_def)
  note t = built_tree_answers [OF inv fresh_committer_build(1,5) b coh]
  show ?thesis
    using b t [of "[2]"] t [of "[3]"] t [where lower = "Some [2]" and upper = None and limit = 5]
    by (auto simp: entry_map_def in_range_def sample_entries_def)
qed

text \<open>C28: an index is built for any entries: on a working disk with room in the log and in the page
  space, strictly ordered entries whose keys fit a page lead to a committed tree, and the tree is
  shallow, at most \<open>k + 1\<close> levels for up to \<open>2 ^ k\<close> entries.\<close>

theorem build_succeeds_and_is_shallow:
  assumes "sorted_keys es" "\<forall>e\<in>set es. key_fits (ie_key e)" "es \<noteq> []" "length es \<le> 2 ^ k" "k < 30"
    "room (allocator (gc_store g)) (3 * length es)" "alloc_ok (allocator (gc_store g))"
    "wal_ready (Suc (3 * length es)) (st_wal (gc_store g))" "\<not> poisoned (gc_store g)"
  shows "\<exists>r g'. tree_build E es g = (Inr (Some r), g') \<and> unat (root_height r) \<le> k + 1"
  by (rule tree_build_total [OF assms])

theorem build_succeeds_and_is_shallow_witness:
  "\<exists>r g'. tree_build sample_env sample_entries fresh_committer = (Inr (Some r), g') \<and> unat (root_height r) \<le> 3"
  using build_succeeds_and_is_shallow [OF sample_sorted sample_fits _ _ _ fresh_committer_build(2,1,3,4), of 2 sample_env]
  by (auto simp: sample_entries_def)

end
