(* ===== verification/Index_Edit.thy ===== *)
theory Index_Edit
  imports Index_Build
begin

text \<open>
  Copy-on-write edits (\<open>BPlusTree::edit_plan\<close> and \<open>Editor\<close> of \<open>index/src/tree.rs\<close>): the plan of an edit
  describes a tree with the mutated entries and never touches a page that was in use, so that the
  old generation stays readable. The nodes an editor sees are those of its overlay and, behind
  them, those of the store.
\<close>

section \<open>The view of an editor\<close>

definition ed_nodes :: "index_env \<Rightarrow> store \<Rightarrow> editor \<Rightarrow> nodes" where
  "ed_nodes E s ed pid =
    (case map_of (overlay ed) pid of Some n \<Rightarrow> Some n | None \<Rightarrow> store_nodes E s pid)"

abbreviation ed_claimed :: "editor \<Rightarrow> u64 \<Rightarrow> bool" where
  "ed_claimed ed \<equiv> claimed (ed_allocator ed)"

fun unlinked :: "node \<Rightarrow> bool" where
  "unlinked (Leaf _ next) \<longleftrightarrow> next = None"
| "unlinked (Internal _ _ _) \<longleftrightarrow> True"

definition edit_inv :: "index_env \<Rightarrow> store \<Rightarrow> page_allocator \<Rightarrow> editor \<Rightarrow> bool" where
  "edit_inv E s a0 ed \<longleftrightarrow> alloc_ok (ed_allocator ed) \<and> coherent E s (ed_cache ed) \<and>
    (\<forall>p. claimed a0 p \<longrightarrow> ed_claimed ed p) \<and>
    (\<forall>p\<in>fst ` set (overlay ed). ed_claimed ed p \<and> \<not> claimed a0 p) \<and>
    (\<forall>p n. map_of (overlay ed) p = Some n \<longrightarrow> unlinked n)"

text \<open>A step of the editor that only reads, and one that only adds new nodes.\<close>

definition ed_same :: "index_env \<Rightarrow> store \<Rightarrow> editor \<Rightarrow> editor \<Rightarrow> bool" where
  "ed_same E s ed ed' \<longleftrightarrow> ed' = ed\<lparr>ed_cache := ed_cache ed'\<rparr> \<and> coherent E s (ed_cache ed')"

definition ed_grows :: "index_env \<Rightarrow> store \<Rightarrow> page_allocator \<Rightarrow> editor \<Rightarrow> editor \<Rightarrow> bool" where
  "ed_grows E s a0 ed ed' \<longleftrightarrow> edit_inv E s a0 ed' \<and> ed_root ed' = ed_root ed \<and>
    fst ` set (overlay ed) \<subseteq> fst ` set (overlay ed') \<and>
    (\<forall>p. ed_claimed ed p \<longrightarrow> ed_claimed ed' p \<and> ed_nodes E s ed' p = ed_nodes E s ed p)"

lemma ed_same_simps:
  assumes "ed_same E s ed ed'"
  shows "ed_allocator ed' = ed_allocator ed" "ed_root ed' = ed_root ed" "overlay ed' = overlay ed"
    "coherent E s (ed_cache ed')"
  using assms unfolding ed_same_def by (metis editor.ext_inject editor.surjective editor.update_convs(1))+

lemma ed_same_nodes: "ed_same E s ed ed' \<Longrightarrow> ed_nodes E s ed' = ed_nodes E s ed"
  by (simp add: fun_eq_iff ed_nodes_def ed_same_simps(3))

lemma ed_same_inv: "ed_same E s ed ed' \<Longrightarrow> edit_inv E s a0 ed \<Longrightarrow> edit_inv E s a0 ed'"
  using ed_same_simps [of E s ed ed'] by (simp add: edit_inv_def)

lemma ed_same_refl: "edit_inv E s a0 ed \<Longrightarrow> ed_same E s ed ed"
  by (simp add: ed_same_def edit_inv_def)

lemma ed_same_trans: "ed_same E s a b \<Longrightarrow> ed_same E s b c \<Longrightarrow> ed_same E s a c"
  unfolding ed_same_def by (metis editor.update_convs(1) editor.surjective)

lemma ed_same_grows: "ed_same E s ed ed' \<Longrightarrow> edit_inv E s a0 ed \<Longrightarrow> ed_grows E s a0 ed ed'"
  using ed_same_inv [of E s ed ed' a0] by (simp add: ed_grows_def ed_same_simps(1-3) ed_same_nodes)

lemma ed_grows_refl: "edit_inv E s a0 ed \<Longrightarrow> ed_grows E s a0 ed ed"
  by (simp add: ed_grows_def)

lemma ed_grows_trans: "ed_grows E s a0 a b \<Longrightarrow> ed_grows E s a0 b c \<Longrightarrow> ed_grows E s a0 a c"
  unfolding ed_grows_def by (elim conjE, intro conjI) (assumption, simp, rule subset_trans, assumption+, simp)

lemma editor_read_ok:
  assumes "edit_inv E s a0 ed" "ed_nodes E s ed pid = Some n"
  obtains ed' where "editor_read E s pid ed = (Inr n, ed')" "ed_same E s ed ed'"
proof (cases "map_of (overlay ed) pid")
  case (Some m)
  then show thesis
    using assms that [of ed] ed_same_refl [OF assms(1)] by (simp add: editor_read_def ed_nodes_def)
next
  case None
  then have l: "load_node E s pid = Inr n" using assms(2) by (simp add: ed_nodes_def)
  have "coherent E s (ed_cache ed)" using assms(1) by (simp add: edit_inv_def)
  from read_node_coherent [OF this, of pid]
  obtain c where "read_node E s pid (ed_cache ed) = (Inr n, c)" "coherent E s c"
    unfolding l by blast
  with None that [of "ed\<lparr>ed_cache := c\<rparr>"] show thesis by (simp add: editor_read_def ed_same_def)
qed

lemma editor_allocate_ok:
  assumes inv: "edit_inv E s a0 ed" and un: "unlinked n" and a: "editor_allocate n ed = (Inr pid, ed')"
  shows "ed_grows E s a0 ed ed'" "\<not> ed_claimed ed pid" "ed_claimed ed' pid" "ed_nodes E s ed' pid = Some n"
    "pid \<in> fst ` set (overlay ed')"
proof -
  obtain ids al where r: "reserve_for 1 (ed_allocator ed) = (Inr (pid # ids), al)"
    and ed': "ed' = ed\<lparr>ed_allocator := al, overlay := AList.update pid n (overlay ed)\<rparr>"
    using a by (auto simp: editor_allocate_def split: prod.splits sum.splits list.splits)
  have ok: "alloc_ok (ed_allocator ed)" using inv by (simp add: edit_inv_def)
  note c = reserve_claims [OF ok r]
  show pid: "\<not> ed_claimed ed pid" "ed_claimed ed' pid" using c(4) [of pid] by (simp_all add: ed')
  have dom: "fst ` set (overlay ed') = insert pid (fst ` set (overlay ed))"
    by (simp add: ed' dom_update)
  then show "pid \<in> fst ` set (overlay ed')" by simp
  show "ed_nodes E s ed' pid = Some n" by (simp add: ed_nodes_def ed' update_conv')
  have "edit_inv E s a0 ed'"
    using inv un c(1,5) pid dom by (auto simp: edit_inv_def ed' update_conv' split: if_splits)
  moreover have "ed_nodes E s ed' p = ed_nodes E s ed p" if "ed_claimed ed p" for p
    using that pid(1) by (auto simp: ed_nodes_def ed' update_conv')
  ultimately show "ed_grows E s a0 ed ed'" using dom c(5) by (auto simp: ed_grows_def ed')
qed

lemma unlinked_leaf: "unlinked (Leaf es None)"
  by simp

lemma unlinked_internal: "unlinked (internal_of lv grp)"
  by (simp add: internal_of_def)

lemma forest_grows:
  assumes "forest (ed_nodes E s ed) l cs es ps" "ed_grows E s a0 ed ed'" "\<forall>p\<in>set ps. ed_claimed ed p"
  shows "forest (ed_nodes E s ed') l cs es ps"
  by (rule forest_cong [OF assms(1)]) (use assms(2,3) in \<open>simp add: ed_grows_def\<close>)

text \<open>Pages that were allocated between two states of the editor.\<close>

definition fresh_in :: "editor \<Rightarrow> editor \<Rightarrow> u64 list \<Rightarrow> bool" where
  "fresh_in ed ed' ids \<longleftrightarrow> distinct ids \<and>
    (\<forall>p\<in>set ids. \<not> ed_claimed ed p \<and> ed_claimed ed' p \<and> p \<in> fst ` set (overlay ed'))"

lemma fresh_in_Cons:
  assumes "edit_inv E s a0 ed" "unlinked n" "editor_allocate n ed = (Inr pid, ed1)" "ed_grows E s a0 ed1 ed'" "fresh_in ed1 ed' ids"
  shows "fresh_in ed ed' (pid # ids)"
proof -
  note a = editor_allocate_ok [OF assms(1-3)]
  have "ed_claimed ed1 p" if "ed_claimed ed p" for p using a(1) that by (simp add: ed_grows_def)
  with a(2-) assms(4,5) show ?thesis by (auto simp: fresh_in_def ed_grows_def)
qed

section \<open>Making nodes\<close>

lemma make_leaves_from_ok:
  assumes "make_leaves_from es rs ed = (Inr cs, ed')" "tiles start (length es) rs" "edit_inv E s a0 ed"
  shows "\<exists>ids. forest (ed_nodes E s ed') 0 cs (drop start es) ids \<and> fresh_in ed ed' ids \<and> ed_grows E s a0 ed ed'"
  using assms
proof (induction es rs ed arbitrary: start cs ed' rule: make_leaves_from.induct)
  case (1 es ed)
  then show ?case by (auto simp: fresh_in_def ed_grows_refl)
next
  case (2 es x y rs ed)
  from 2(2) obtain pid ed1 cs' where st: "editor_allocate (Leaf (slice es x y) None) ed = (Inr pid, ed1)"
    "make_leaves_from es rs ed1 = (Inr cs', ed')" "cs = \<lparr>ch_key = ie_key (es ! x), ch_page = pid\<rparr> # cs'"
    by (auto elim!: try_then_okE)
  have t: "x = start" "x < y" "y \<le> length es" "tiles y (length es) rs" using 2(3) by auto
  note a = editor_allocate_ok [OF 2(4) unlinked_leaf st(1)]
  have inv1: "edit_inv E s a0 ed1" using a(1) by (simp add: ed_grows_def)
  obtain ids where i: "forest (ed_nodes E s ed') 0 cs' (drop y es) ids" "fresh_in ed1 ed' ids" "ed_grows E s a0 ed1 ed'"
    using 2(1) [OF st(2) t(4) inv1] by blast
  have "ed_nodes E s ed' pid = Some (Leaf (slice es x y) None)" using i(3) a(3,4) by (simp add: ed_grows_def)
  then have "forest (ed_nodes E s ed') 0 cs (slice es x y @ drop y es) ([pid] @ ids)"
    unfolding st(3) by (intro forest_ConsI) (use i(1) slice_hd [OF t(2,3)] in auto)
  moreover have "fresh_in ed ed' ([pid] @ ids)" using fresh_in_Cons [OF 2(4) unlinked_leaf st(1) i(3,2)] by simp
  ultimately show ?case
    using ed_grows_trans [OF a(1) i(3)] slice_drop [of x y es] t by auto
qed

lemma make_leaves_ok:
  assumes "make_leaves es ed = (Inr cs, ed')" "edit_inv E s a0 ed"
  shows "\<exists>ids. forest (ed_nodes E s ed') 0 cs es ids \<and> fresh_in ed ed' ids \<and> ed_grows E s a0 ed ed'"
proof (cases "es = []")
  case True
  then show ?thesis using assms by (auto simp: make_leaves_def fresh_in_def ed_grows_refl)
next
  case False
  then obtain rs where r: "partition_leaves es = Inr rs" "make_leaves_from es rs ed = (Inr cs, ed')"
    using assms(1) by (auto simp: make_leaves_def split: sum.splits)
  have "tiles 0 (length es) rs" using partition_by_tiles r(1) unfolding partition_leaves_def by blast
  from make_leaves_from_ok [OF r(2) this assms(2)] show ?thesis by simp
qed

lemma make_internal_from_ok:
  assumes "make_internal_from lv children rs ed = (Inr cs, ed')" "tiles start (length children) rs" "edit_inv E s a0 ed"
    "forest (ed_nodes E s ed) l (drop start children) es ps" "\<forall>p\<in>set ps. ed_claimed ed p" "unat lv = Suc l"
  shows "\<exists>ids qs. forest (ed_nodes E s ed') (Suc l) cs es qs \<and> mset qs = mset ids + mset ps \<and>
    fresh_in ed ed' ids \<and> ed_grows E s a0 ed ed'"
  using assms
proof (induction lv children rs ed arbitrary: start cs es ps ed' rule: make_internal_from.induct)
  case (1 lv children ed)
  then show ?case by (auto simp: fresh_in_def ed_grows_refl)
next
  case (2 lv children x y rs ed)
  let ?g = "slice children x y"
  from 2(2) obtain pid ed1 cs' where st: "editor_allocate (internal_of lv ?g) ed = (Inr pid, ed1)"
    "make_internal_from lv children rs ed1 = (Inr cs', ed')" "cs = \<lparr>ch_key = ch_key (?g ! 0), ch_page = pid\<rparr> # cs'"
    by (auto simp: Let_def elim!: try_then_okE)
  have t: "x = start" "x < y" "y \<le> length children" "tiles y (length children) rs" using 2(3) by auto
  have ne: "?g \<noteq> []" using slice_hd [OF t(2,3)] by simp
  obtain as aps bs bps where f: "forest (ed_nodes E s ed) l ?g as aps" "forest (ed_nodes E s ed) l (drop y children) bs bps"
    "es = as @ bs" "ps = aps @ bps"
    using 2(5) slice_drop [of x y children] t(1-3) by (auto simp: forest_append)
  note a = editor_allocate_ok [OF 2(4) unlinked_internal st(1)]
  have inv1: "edit_inv E s a0 ed1" using a(1) by (simp add: ed_grows_def)
  have cl: "\<forall>p\<in>set aps. ed_claimed ed p" "\<forall>p\<in>set bps. ed_claimed ed p" using 2(6) f(4) by auto
  have cl1: "\<forall>p\<in>set bps. ed_claimed ed1 p" using a(1) cl(2) by (simp add: ed_grows_def)
  obtain ids qs where i: "forest (ed_nodes E s ed') (Suc l) cs' bs qs" "mset qs = mset ids + mset bps"
    "fresh_in ed1 ed' ids" "ed_grows E s a0 ed1 ed'"
    using 2(1) [OF refl st(2) t(4) inv1 forest_grows [OF f(2) a(1) cl(2)] cl1 2(7)] by blast
  note g = ed_grows_trans [OF a(1) i(4)]
  have "ed_nodes E s ed' pid = Some (internal_of lv ?g)" using i(4) a(3,4) by (simp add: ed_grows_def)
  then have tr: "tree_at (ed_nodes E s ed') (Suc l) pid as (pid # aps)"
    by (rule forest_parent [OF forest_grows [OF f(1) g cl(1)] ne _ 2(7)])
  have key: "ch_key (?g ! 0) = hd_key as" using forest_nonempty [OF f(1) ne] ne by (simp add: hd_conv_nth)
  have "forest (ed_nodes E s ed') (Suc l) cs es ((pid # aps) @ qs)"
    unfolding st(3) f(3) by (rule forest_ConsI) (use tr i(1) key in simp_all)
  moreover have "mset ((pid # aps) @ qs) = mset (pid # ids) + mset ps" using i(2) f(4) by simp
  ultimately show ?case using fresh_in_Cons [OF 2(4) unlinked_internal st(1) i(4,3)] g by blast
qed

lemma make_internal_level_ok:
  assumes "make_internal_level lv children ed = (Inr cs, ed')" "edit_inv E s a0 ed"
    "forest (ed_nodes E s ed) l children es ps" "\<forall>p\<in>set ps. ed_claimed ed p" "unat lv = Suc l"
  shows "\<exists>ids qs. forest (ed_nodes E s ed') (Suc l) cs es qs \<and> mset qs = mset ids + mset ps \<and>
    fresh_in ed ed' ids \<and> ed_grows E s a0 ed ed'"
proof -
  obtain rs where r: "partition_internal_from children 0 = Inr rs" "make_internal_from lv children rs ed = (Inr cs, ed')"
    using assms(1) by (auto simp: make_internal_level_def partition_internal_def split: sum.splits)
  have "tiles 0 (length children) rs" using partition_internal_tiles [OF r(1)] by simp
  from make_internal_from_ok [OF r(2) this assms(2) _ assms(4,5)] assms(3) show ?thesis by simp
qed

section \<open>The way down\<close>

lemma tree_children_forest:
  assumes "tree_at nd (Suc l) pid es ps"
  obtains lv fc seps qs where "nd pid = Some (Internal lv fc seps)" "unat lv = Suc l" "ps = pid # qs"
    "forest nd l (\<lparr>ch_key = hd_key es, ch_page = fc\<rparr> # map (\<lambda>(k, p). \<lparr>ch_key = k, ch_page = p\<rparr>) seps) es qs"
proof -
  obtain lv fc seps ts where t: "nd pid = Some (Internal lv fc seps)" "unat lv = Suc l"
    "list_all2 (\<lambda>p t. tree_at nd l p (fst t) (snd t)) (fc # map snd seps) ts"
    "map fst seps = map hd_key (tl (map fst ts))" "es = concat (map fst ts)" "ps = pid # concat (map snd ts)"
    "[] \<notin> set (map fst ts)"
    using assms by (rule tree_at_SucE)
  then obtain u us where u: "ts = u # us" "tree_at nd l fc (fst u) (snd u)"
    "list_all2 (\<lambda>p t. tree_at nd l p (fst t) (snd t)) (map snd seps) us"
    by (auto simp: list_all2_Cons1)
  have hd: "hd_key es = hd_key (fst u)" using t(5,7) u(1) by auto
  have "list_all2 (\<lambda>c t. tree_at nd l (ch_page c) (fst t) (snd t) \<and> ch_key c = hd_key (fst t))
      (map (\<lambda>(k, p). \<lparr>ch_key = k, ch_page = p\<rparr>) seps) us"
  proof (rule list_all2_all_nthI)
    show "length (map (\<lambda>(k, p). \<lparr>ch_key = k, ch_page = p\<rparr>) seps) = length us"
      using list_all2_lengthD [OF u(3)] by simp
    fix i assume i: "i < length (map (\<lambda>(k, p). \<lparr>ch_key = k, ch_page = p\<rparr>) seps)"
    have "map fst seps ! i = map hd_key (map fst us) ! i" using t(4) u(1) by simp
    then show "tree_at nd l (ch_page (map (\<lambda>(k, p). \<lparr>ch_key = k, ch_page = p\<rparr>) seps ! i)) (fst (us ! i)) (snd (us ! i)) \<and>
        ch_key (map (\<lambda>(k, p). \<lparr>ch_key = k, ch_page = p\<rparr>) seps ! i) = hd_key (fst (us ! i))"
      using list_all2_nthD [OF u(3), of i] list_all2_lengthD [OF u(3)] i by (simp add: case_prod_beta)
  qed
  then have "forest nd l (\<lparr>ch_key = hd_key es, ch_page = fc\<rparr> # map (\<lambda>(k, p). \<lparr>ch_key = k, ch_page = p\<rparr>) seps)
      es (concat (map snd ts))"
    using u(1,2) hd t(5) unfolding forest_def by (intro exI [of _ ts]) simp
  with that t(1,2,6) show thesis by blast
qed

lemma first_key_ok:
  assumes "tree_at (ed_nodes E s ed) l pid es ps" "distinct ps" "set vis \<inter> set ps = {}" "edit_inv E s a0 ed"
  shows "\<exists>ed'. first_key E s vis pid ed = (Inr (hd_key es), ed') \<and> ed_same E s ed ed'"
  using assms
proof (induction l arbitrary: pid es ps vis ed)
  case 0
  then obtain nx where n: "ed_nodes E s ed pid = Some (Leaf es nx)" "es \<noteq> []" "ps = [pid]" by auto
  then obtain e es' where "es = e # es'" by (meson list.exhaust)
  moreover obtain ed' where "editor_read E s pid ed = (Inr (Leaf es nx), ed')" "ed_same E s ed ed'"
    by (rule editor_read_ok [OF 0(4) n(1)])
  ultimately show ?case using 0(3) n(3) by (simp add: first_key.simps [of E s vis])
next
  case (Suc l)
  obtain lv fc seps qs where t: "ed_nodes E s ed pid = Some (Internal lv fc seps)" "unat lv = Suc l" "ps = pid # qs"
    "forest (ed_nodes E s ed) l (\<lparr>ch_key = hd_key es, ch_page = fc\<rparr> # map (\<lambda>(k, p). \<lparr>ch_key = k, ch_page = p\<rparr>) seps) es qs"
    by (rule tree_children_forest [OF Suc.prems(1)])
  obtain as aps bs bps where f: "tree_at (ed_nodes E s ed) l fc as aps" "hd_key es = hd_key as" "qs = aps @ bps"
    using t(4) by (auto elim!: forest_ConsE)
  obtain ed1 where r: "editor_read E s pid ed = (Inr (Internal lv fc seps), ed1)" "ed_same E s ed ed1"
    by (rule editor_read_ok [OF Suc.prems(4) t(1)])
  have "tree_at (ed_nodes E s ed1) l fc as aps" using f(1) by (simp add: ed_same_nodes [OF r(2)])
  then obtain ed' where "first_key E s (pid # vis) fc ed1 = (Inr (hd_key as), ed')" "ed_same E s ed1 ed'"
    using Suc.IH [of ed1 fc as aps "pid # vis"] Suc.prems(2,3) t(3) f(3) ed_same_inv [OF r(2) Suc.prems(4)] by auto
  then show ?case
    using r f(2) Suc.prems(3) t(3) ed_same_trans [OF r(2)] by (auto simp: first_key.simps [of E s vis])
qed

text \<open>The position of the child for a key, with what lies before and after it.\<close>

lemma forest_position:
  assumes f: "forest nd l cs es ps" and srt: "sorted_keys es" and ne: "cs \<noteq> []"
    and i: "i = partition_point (\<lambda>c. ch_key c \<le> key) cs - 1"
  obtains b bp m mp a ap where "i < length cs" "forest nd l (take i cs) b bp" "tree_at nd l (ch_page (cs ! i)) m mp"
    "ch_key (cs ! i) = hd_key m" "forest nd l (drop (Suc i) cs) a ap" "es = b @ m @ a" "ps = bp @ mp @ ap"
    "\<forall>e\<in>set b. ie_key e < key" "\<forall>e\<in>set a. key < ie_key e"
proof -
  let ?P = "\<lambda>c. ch_key c \<le> key"
  let ?pp = "partition_point ?P cs"
  have len: "i < length cs" using i partition_point_le [of ?P cs] ne by (cases "?pp") auto
  then have cs: "cs = take i cs @ cs ! i # drop (Suc i) cs" by (rule id_take_nth_drop)
  obtain b bp c cp where bc: "forest nd l (take i cs) b bp" "forest nd l (cs ! i # drop (Suc i) cs) c cp"
    "es = b @ c" "ps = bp @ cp"
    using f cs by (metis forest_append)
  obtain m mp a ap where ma: "tree_at nd l (ch_page (cs ! i)) m mp" "ch_key (cs ! i) = hd_key m"
    "forest nd l (drop (Suc i) cs) a ap" "c = m @ a" "cp = mp @ ap"
    using bc(2) by (rule forest_ConsE)
  have s: "sorted_keys a" "\<forall>x\<in>set b. \<forall>y\<in>set (m @ a). ie_key x < ie_key y" "\<forall>x\<in>set m. \<forall>y\<in>set a. ie_key x < ie_key y"
    using srt unfolding bc(3) ma(4) sorted_keys_append by blast+
  have hm: "hd m \<in> set m" using tree_at_nonempty [OF ma(1)] by simp
  have "\<forall>e\<in>set b. ie_key e < key"
  proof (cases "i = 0")
    case False
    then have "ch_key (cs ! i) \<le> key" using partition_point_prefix [of i ?P cs] i by simp
    with s(2) hm ma(2) show ?thesis by (auto intro: less_le_trans)
  qed (use bc(1) in simp)
  moreover have "\<forall>e\<in>set a. key < ie_key e"
  proof (cases "?pp = 0")
    case True
    then have "\<not> ch_key (cs ! 0) \<le> key" using partition_point_stop [of ?P cs] ne by simp
    moreover have "i = 0" using True i by simp
    ultimately have "key < hd_key m" using ma(2) by simp
    with s(3) hm show ?thesis by (auto intro: less_trans)
  next
    case False
    then have pp: "?pp = Suc i" using i by simp
    show ?thesis
    proof (cases "Suc i < length cs")
      case True
      then have nx: "drop (Suc i) cs = cs ! Suc i # drop (Suc (Suc i)) cs" by (rule Cons_nth_drop_Suc [symmetric])
      have "ch_key (cs ! Suc i) = hd_key a" using forest_nonempty [OF ma(3)] unfolding nx by simp
      moreover have "\<not> ch_key (cs ! Suc i) \<le> key" using partition_point_stop [of ?P cs] pp True by simp
      ultimately have "key < hd_key a" by simp
      then show ?thesis using sorted_keys_hd [OF s(1)] by (auto intro: less_le_trans)
    qed (use ma(3) in simp)
  qed
  ultimately show thesis using that [OF len bc(1) ma(1,2,3)] bc(3,4) ma(4,5) by simp
qed

fun edit_path :: "nodes \<Rightarrow> nat \<Rightarrow> edit_frame list \<Rightarrow> index_entry list \<Rightarrow> index_entry list \<Rightarrow> u64 list \<Rightarrow> bool" where
  "edit_path nd l [] bef aft ps \<longleftrightarrow> bef = [] \<and> aft = [] \<and> ps = []"
| "edit_path nd l (fr # frs) bef aft ps \<longleftrightarrow> (\<exists>b bp a ap bef' aft' ps'.
    forest nd l (take (ef_position fr) (ef_children fr)) b bp \<and>
    forest nd l (drop (ef_position fr + 1) (ef_children fr)) a ap \<and> unat (ef_level fr) = Suc l \<and>
    edit_path nd (Suc l) frs bef' aft' ps' \<and> bef = bef' @ b \<and> aft = a @ aft' \<and> ps = bp @ ap @ ps')"

lemma edit_path_ConsI:
  "forest nd l (take (ef_position fr) (ef_children fr)) b bp \<Longrightarrow>
    forest nd l (drop (ef_position fr + 1) (ef_children fr)) a ap \<Longrightarrow> unat (ef_level fr) = Suc l \<Longrightarrow>
    edit_path nd (Suc l) frs bef aft ps \<Longrightarrow> edit_path nd l (fr # frs) (bef @ b) (a @ aft) (bp @ ap @ ps)"
  unfolding edit_path.simps by blast

lemma edit_descend_ok:
  assumes "tree_at (ed_nodes E s ed) l pid es ps" "sorted_keys es" "edit_inv E s a0 ed"
    "edit_path (ed_nodes E s ed) l frames bef aft qs" "distinct (ps @ qs)"
  shows "\<exists>les frames' ed' b a qs'. edit_descend E s key l pid (hd_key es) frames ed = (Inr (les, frames'), ed') \<and>
    ed_same E s ed ed' \<and> edit_path (ed_nodes E s ed) 0 frames' (bef @ b) (a @ aft) qs' \<and> es = b @ les @ a \<and>
    (\<forall>e\<in>set b. ie_key e < key) \<and> (\<forall>e\<in>set a. key < ie_key e) \<and> length frames' = length frames + l \<and>
    distinct qs' \<and> set qs' \<subseteq> set (ps @ qs)"
  using assms
proof (induction l arbitrary: pid es ps ed frames bef aft qs)
  case 0
  then obtain nx where n: "ed_nodes E s ed pid = Some (Leaf es nx)" by auto
  obtain ed' where "editor_read E s pid ed = (Inr (Leaf es nx), ed')" "ed_same E s ed ed'"
    by (rule editor_read_ok [OF 0(3) n])
  then have "edit_descend E s key 0 pid (hd_key es) frames ed = (Inr (es, frames), ed')" "ed_same E s ed ed'"
    by (simp_all add: edit_descend.simps [of E s key 0])
  moreover have "es = [] @ es @ []" "edit_path (ed_nodes E s ed) 0 frames (bef @ []) ([] @ aft) qs" using 0(4) by simp_all
  ultimately show ?case using 0(5) by (intro exI conjI) (assumption+, simp_all)
next
  case (Suc l)
  obtain lv fc seps ps1 where t: "ed_nodes E s ed pid = Some (Internal lv fc seps)" "unat lv = Suc l" "ps = pid # ps1"
    "forest (ed_nodes E s ed) l (\<lparr>ch_key = hd_key es, ch_page = fc\<rparr> # map (\<lambda>(k, p). \<lparr>ch_key = k, ch_page = p\<rparr>) seps) es ps1"
    by (rule tree_children_forest [OF Suc.prems(1)])
  define cs where "cs = \<lparr>ch_key = hd_key es, ch_page = fc\<rparr> # map (\<lambda>(k, p). \<lparr>ch_key = k, ch_page = p\<rparr>) seps"
  define i where "i = partition_point (\<lambda>c. ch_key c \<le> key) cs - 1"
  have cs: "cs \<noteq> []" by (simp add: cs_def)
  obtain b bp m mp a ap where f: "i < length cs" "forest (ed_nodes E s ed) l (take i cs) b bp"
    "tree_at (ed_nodes E s ed) l (ch_page (cs ! i)) m mp" "ch_key (cs ! i) = hd_key m"
    "forest (ed_nodes E s ed) l (drop (Suc i) cs) a ap" "es = b @ m @ a" "ps1 = bp @ mp @ ap"
    "\<forall>e\<in>set b. ie_key e < key" "\<forall>e\<in>set a. key < ie_key e"
    by (rule forest_position [OF t(4) [folded cs_def] Suc.prems(2) cs i_def])
  obtain ed1 where r: "editor_read E s pid ed = (Inr (Internal lv fc seps), ed1)" "ed_same E s ed ed1"
    by (rule editor_read_ok [OF Suc.prems(3) t(1)])
  let ?fr = "\<lparr>ef_level = lv, ef_children = cs, ef_position = i\<rparr>"
  note nd = ed_same_nodes [OF r(2)]
  have step: "edit_descend E s key (Suc l) pid (hd_key es) frames ed =
      edit_descend E s key l (ch_page (cs ! i)) (hd_key m) (?fr # frames) ed1"
    using r(1) t(2) by (simp add: edit_descend.simps [of E s key "Suc l"] Let_def cs_def [symmetric] i_def f(4) [symmetric])
  have path: "edit_path (ed_nodes E s ed1) l (?fr # frames) (bef @ b) (a @ aft) (bp @ ap @ qs)"
    unfolding nd by (rule edit_path_ConsI) (use f(2,5) t(2) Suc.prems(4) in simp_all)
  have m: "tree_at (ed_nodes E s ed1) l (ch_page (cs ! i)) m mp" "sorted_keys m"
    using f(3) Suc.prems(2) unfolding nd f(6) sorted_keys_append by blast+
  have d: "distinct (mp @ bp @ ap @ qs)" using Suc.prems(5) t(3) f(7) by auto
  obtain les frames' ed' b' a' qs' where q: "edit_descend E s key l (ch_page (cs ! i)) (hd_key m) (?fr # frames) ed1 = (Inr (les, frames'), ed')"
    "ed_same E s ed1 ed'" "edit_path (ed_nodes E s ed) 0 frames' ((bef @ b) @ b') (a' @ (a @ aft)) qs'" "m = b' @ les @ a'"
    "\<forall>e\<in>set b'. ie_key e < key" "\<forall>e\<in>set a'. key < ie_key e" "length frames' = length (?fr # frames) + l"
    "distinct qs'" "set qs' \<subseteq> set (mp @ bp @ ap @ qs)"
    using Suc.IH [OF m ed_same_inv [OF r(2) Suc.prems(3)] path d] unfolding nd by blast
  show ?case
    unfolding step
  proof (intro exI conjI)
    show "edit_descend E s key l (ch_page (cs ! i)) (hd_key m) (?fr # frames) ed1 = (Inr (les, frames'), ed')" by (rule q(1))
    show "ed_same E s ed ed'" by (rule ed_same_trans [OF r(2) q(2)])
    show "edit_path (ed_nodes E s ed) 0 frames' (bef @ (b @ b')) ((a' @ a) @ aft) qs'" using q(3) by simp
    show "es = (b @ b') @ les @ (a' @ a)" using f(6) q(4) by simp
    show "set qs' \<subseteq> set (ps @ qs)" using q(9) t(3) f(7) by auto
  qed (use q f(8,9) in auto)
qed

section \<open>Changing a leaf\<close>

lemma entry_map_Cons: "entry_map (e # es) k = (if k = ie_key e then Some (ie_value e) else entry_map es k)"
  by (simp add: entry_map_def)

lemma entry_map_between:
  assumes "\<forall>e\<in>set b. ie_key e < k" "\<forall>e\<in>set a. k < ie_key e"
  shows "entry_map (b @ es @ a) k = entry_map es k"
  using entry_map_apart(1) [OF assms(1)] entry_map_apart(2) [OF assms(2)] by (simp add: entry_map_append split: option.splits)

lemma change_leaf_ok:
  assumes ch: "change_leaf key value les = Some (les', d)" and srt: "sorted_keys (bef @ les @ aft)"
    and b: "\<forall>e\<in>set bef. ie_key e < key" and a: "\<forall>e\<in>set aft. key < ie_key e"
  shows "sorted_keys (bef @ les' @ aft)" "entry_map (bef @ les' @ aft) = (entry_map (bef @ les @ aft))(key := value)"
    "length les' + (if d = Removed then 1 else 0) = length les + (if d = Added then 1 else 0)"
proof -
  have sl: "sorted_keys les" using srt unfolding sorted_keys_append by blast
  obtain as bs where ab: "les = as @ bs" "\<forall>x\<in>set as. ie_key x < key" and
    s: "case binary_search ie_key key les of
       Inl i \<Rightarrow> i = length as \<and> (\<forall>x\<in>set bs. key < ie_key x)
     | Inr i \<Rightarrow> i = length as \<and> (\<exists>x cs. bs = x # cs \<and> ie_key x = key \<and> (\<forall>c\<in>set cs. key < ie_key c))"
    using binary_search_split [OF sl, of key] by blast
  define new where "new = (case value of None \<Rightarrow> [] | Some v \<Rightarrow> [\<lparr>ie_key = key, ie_value = v\<rparr>])"
  obtain old cs where oc: "bs = old @ cs" "\<forall>c\<in>set cs. key < ie_key c" "map ie_key old = [] \<or> map ie_key old = [key]"
    "les' = as @ new @ cs" "length les' + (if d = Removed then 1 else 0) = length les + (if d = Added then 1 else 0)"
  proof (cases "binary_search ie_key key les")
    case (Inl i)
    with s have i: "i = length as" "\<forall>x\<in>set bs. key < ie_key x" by simp_all
    then show thesis
      using that [of "[]" bs] ch Inl ab(1) by (auto simp: change_leaf_def new_def split: option.splits)
  next
    case (Inr i)
    with s obtain x cs where i: "i = length as" "bs = x # cs" "ie_key x = key" "\<forall>c\<in>set cs. key < ie_key c" by auto
    then show thesis
      using that [of "[x]" cs] ch Inr ab(1) by (cases "value") (auto simp: change_leaf_def new_def)
  qed
  have nk: "map ie_key new = (case value of None \<Rightarrow> [] | Some _ \<Rightarrow> [key])" by (simp add: new_def split: option.splits)
  show "length les' + (if d = Removed then 1 else 0) = length les + (if d = Added then 1 else 0)" by (rule oc(5))
  have so: "sorted_keys (bef @ as @ old @ cs @ aft)" using srt by (simp add: ab(1) oc(1))
  then have so': "sorted_keys (bef @ as @ cs @ aft)"
    by (auto simp: sorted_wrt_append)
  show "sorted_keys (bef @ les' @ aft)"
  proof (cases "value")
    case None
    then show ?thesis using so' by (simp add: oc(4) new_def)
  next
    case (Some v)
    then show ?thesis using so' b a ab(2) oc(2) by (auto simp: oc(4) new_def sorted_wrt_append)
  qed
  show "entry_map (bef @ les' @ aft) = (entry_map (bef @ les @ aft))(key := value)"
  proof
    fix k
    have ok: "entry_map old k = None" if "k \<noteq> key"
      using oc(3) that by (cases old) (auto simp: entry_map_def)
    have nk: "entry_map new k = (if k = key then value else None)"
      by (simp add: new_def entry_map_def split: option.splits)
    have far: "entry_map bef key = None" "entry_map as key = None" "entry_map cs key = None" "entry_map aft key = None"
      using entry_map_apart b a ab(2) oc(2) by blast+
    show "entry_map (bef @ les' @ aft) k = ((entry_map (bef @ les @ aft))(key := value)) k"
      using ok nk far by (cases "k = key") (simp_all add: ab(1) oc(1,4) entry_map_append split: option.splits)
  qed
qed

lemma change_leaf_None:
  assumes "change_leaf key value les = None" "sorted_keys les"
  shows "value = None" "entry_map les key = None"
  using assms leaf_lookup [OF assms(2), of key] by (auto simp: change_leaf_def split: sum.splits option.splits)

section \<open>The way back up\<close>

definition owned :: "u64 set \<Rightarrow> editor \<Rightarrow> u64 list \<Rightarrow> bool" where
  "owned P ed ps \<longleftrightarrow> distinct ps \<and> set ps \<subseteq> P \<union> fst ` set (overlay ed)"

lemma owned_claimed:
  assumes "owned P ed ps" "edit_inv E s a0 ed" "\<forall>p\<in>P. claimed a0 p"
  shows "\<forall>p\<in>set ps. ed_claimed ed p"
  using assms by (fastforce simp: owned_def edit_inv_def)

lemma owned_grows:
  assumes "owned P ed ps" "ed_grows E s a0 ed ed'"
  shows "owned P ed' ps"
  using assms unfolding owned_def ed_grows_def by (meson Un_mono order_refl subset_trans)

lemma owned_fresh:
  assumes "owned P ed ps" "fresh_in ed ed' ids" "ed_grows E s a0 ed ed'" "mset qs = mset ids + mset ps"
    "\<forall>p\<in>set ps. ed_claimed ed p"
  shows "owned P ed' qs"
proof -
  have "distinct (ids @ ps)" using assms(1,2,5) by (auto simp: owned_def fresh_in_def)
  then have "distinct qs" using assms(4) mset_eq_imp_distinct_iff [of qs "ids @ ps"] by simp
  moreover have "set qs = set ids \<union> set ps" using assms(4) by (metis set_mset_mset set_mset_union)
  ultimately show ?thesis
    using owned_grows [OF assms(1,3)] assms(2) by (auto simp: owned_def fresh_in_def)
qed

lemma edit_path_cong:
  "edit_path nd l frs bef aft ps \<Longrightarrow> \<forall>p\<in>set ps. nd' p = nd p \<Longrightarrow> edit_path nd' l frs bef aft ps"
proof (induction nd l frs bef aft ps rule: edit_path.induct)
  case (2 nd l fr frs bef aft ps)
  from 2(2) obtain b bp a ap bef' aft' ps' where p: "forest nd l (take (ef_position fr) (ef_children fr)) b bp"
    "forest nd l (drop (ef_position fr + 1) (ef_children fr)) a ap" "unat (ef_level fr) = Suc l"
    "edit_path nd (Suc l) frs bef' aft' ps'" "bef = bef' @ b" "aft = a @ aft'" "ps = bp @ ap @ ps'" by auto
  show ?case
    unfolding p(5-7)
    by (rule edit_path_ConsI [OF forest_cong [OF p(1)] forest_cong [OF p(2)] p(3) 2(1) [OF p(4)]])
      (use 2(3) p(7) in simp_all)
qed simp

lemma rebuild_path_ok:
  assumes "rebuild_path rpage frames repl height ed = (Inr (repl', height'), ed')" "edit_inv E s a0 ed"
    "edit_path (ed_nodes E s ed) l frames bef aft qs" "forest (ed_nodes E s ed) l repl es ps" "owned P ed (ps @ qs)"
    "unat height = l + length frames + 1" "\<forall>p\<in>P. claimed a0 p"
  shows "\<exists>ps'. forest (ed_nodes E s ed') (unat height' - 1) repl' (bef @ es @ aft) ps' \<and> owned P ed' ps' \<and>
    height' \<noteq> 0 \<and> ed_grows E s a0 ed ed'"
  using assms
proof (induction frames arbitrary: repl height ed l bef aft qs es ps)
  case Nil
  then have "height \<noteq> 0" "l = unat height - 1" by (auto simp: unat_eq_zero [symmetric])
  with Nil show ?case by (auto simp: ed_grows_refl)
next
  case (Cons fr frs)
  from Cons.prems(3) obtain b bp a ap bef' aft' ps' where p:
    "forest (ed_nodes E s ed) l (take (ef_position fr) (ef_children fr)) b bp"
    "forest (ed_nodes E s ed) l (drop (ef_position fr + 1) (ef_children fr)) a ap" "unat (ef_level fr) = Suc l"
    "edit_path (ed_nodes E s ed) (Suc l) frs bef' aft' ps'" "bef = bef' @ b" "aft = a @ aft'" "qs = bp @ ap @ ps'" by auto
  define cs where "cs = take (ef_position fr) (ef_children fr) @ repl @ drop (ef_position fr + 1) (ef_children fr)"
  have f: "forest (ed_nodes E s ed) l cs (b @ es @ a) (bp @ ps @ ap)"
    unfolding cs_def forest_append using p(1,2) Cons.prems(4) by blast
  have all: "bef @ es @ aft = bef' @ (b @ es @ a) @ aft'" using p(5,6) by simp
  have ow: "owned P ed ((bp @ ps @ ap) @ ps')" using Cons.prems(5) p(7) by (auto simp: owned_def)
  note step = Cons.prems(1) [unfolded rebuild_path.simps Let_def cs_def [symmetric]]
  consider (nil) "cs = []" | (one) "cs \<noteq> []" "frs = []" "length cs = 1" | (many) "cs \<noteq> []" "\<not> (frs = [] \<and> length cs = 1)"
    by blast
  then show ?case
  proof cases
    case nil
    then have e: "b @ es @ a = []" "bp @ ps @ ap = []" using f by auto
    have "rebuild_path rpage frs [] height ed = (Inr (repl', height'), ed')" using step nil by simp
    moreover have "forest (ed_nodes E s ed) (Suc l) [] [] []" "owned P ed ([] @ ps')" using ow e by simp_all
    ultimately have "\<exists>ps'. forest (ed_nodes E s ed') (unat height' - 1) repl' (bef' @ [] @ aft') ps' \<and> owned P ed' ps' \<and>
        height' \<noteq> 0 \<and> ed_grows E s a0 ed ed'"
      using Cons.IH [OF _ Cons.prems(2) p(4), of "[]" height "[]" "[]"] Cons.prems(6,7) by simp
    then show ?thesis unfolding all e by simp
  next
    case one
    then have r: "height \<noteq> 0" "repl' = cs" "height' = height - 1" "ed' = ed" using step by (auto split: if_splits)
    have h: "unat height = Suc (Suc l)" using Cons.prems(6) one(2) by simp
    then have "unat height' = Suc l" using r(3) unat_minus_one [OF r(1)] by simp
    then have "height' \<noteq> 0" "unat height' - 1 = l" by auto
    moreover have "bef' = []" "aft' = []" "ps' = []" using p(4) one(2) by simp_all
    ultimately show ?thesis
      using f ow ed_grows_refl [OF Cons.prems(2)] unfolding all r(2,4) by auto
  next
    case many
    then obtain cs1 ed1 where m: "make_internal_level (ef_level fr) cs ed = (Inr cs1, ed1)"
      "rebuild_path rpage frs cs1 height ed1 = (Inr (repl', height'), ed')"
      using step by (auto split: if_splits elim!: try_then_okE)
    have ow1: "owned P ed (bp @ ps @ ap)" "owned P ed ps'" using ow by (auto simp: owned_def)
    note cl = owned_claimed [OF _ Cons.prems(2,7)]
    obtain ids rs where i: "forest (ed_nodes E s ed1) (Suc l) cs1 (b @ es @ a) rs"
      "mset rs = mset ids + mset (bp @ ps @ ap)" "fresh_in ed ed1 ids" "ed_grows E s a0 ed ed1"
      using make_internal_level_ok [OF m(1) Cons.prems(2) f cl [OF ow1(1)] p(3)] by blast
    have inv1: "edit_inv E s a0 ed1" using i(4) by (simp add: ed_grows_def)
    have "edit_path (ed_nodes E s ed1) (Suc l) frs bef' aft' ps'"
      by (rule edit_path_cong [OF p(4)]) (use cl [OF ow1(2)] i(4) in \<open>simp add: ed_grows_def\<close>)
    moreover have "owned P ed1 (rs @ ps')"
      by (rule owned_fresh [OF ow i(3,4) _ cl [OF ow]]) (use i(2) in simp)
    ultimately have "\<exists>ps'. forest (ed_nodes E s ed') (unat height' - 1) repl' (bef' @ (b @ es @ a) @ aft') ps' \<and>
        owned P ed' ps' \<and> height' \<noteq> 0 \<and> ed_grows E s a0 ed1 ed'"
      by (intro Cons.IH [OF m(2) inv1 _ i(1)]) (use Cons.prems(6,7) in simp_all)
    then show ?thesis unfolding all using ed_grows_trans [OF i(4)] by blast
  qed
qed

section \<open>One mutation\<close>

definition ed_tree :: "index_env \<Rightarrow> store \<Rightarrow> page_allocator \<Rightarrow> u64 set \<Rightarrow> editor \<Rightarrow> index_entry list \<Rightarrow> bool" where
  "ed_tree E s a0 P ed es \<longleftrightarrow> edit_inv E s a0 ed \<and>
    (\<exists>ps. represents (ed_nodes E s ed) (ed_root ed) es ps \<and> owned P ed ps)"

lemma ed_root_update [simp]:
  "edit_inv E s a0 (ed\<lparr>ed_root := r\<rparr>) = edit_inv E s a0 ed" "owned P (ed\<lparr>ed_root := r\<rparr>) ps = owned P ed ps"
  "ed_nodes E s (ed\<lparr>ed_root := r\<rparr>) = ed_nodes E s ed"
  by (simp_all add: edit_inv_def owned_def ed_nodes_def [abs_def])

lemma owned_distinct: "owned P ed ps \<Longrightarrow> distinct ps"
  by (simp add: owned_def)

lemma install_root_ok:
  assumes i: "install_root repl height n ed = (Inr (), ed')" and inv: "edit_inv E s a0 ed"
    and f: "forest (ed_nodes E s ed) (unat height - 1) repl es ps" and ow: "owned P ed ps" and h: "height \<noteq> 0"
    and srt: "sorted_keys es" and n: "unat n = length es" and P: "\<forall>p\<in>P. claimed a0 p"
  shows "ed_tree E s a0 P ed' es"
proof (cases repl)
  case Nil
  then have "ed' = ed\<lparr>ed_root := None\<rparr>" "es = []" "ps = []" using i f by (simp_all add: install_root_def)
  then show ?thesis using inv ow by (simp add: ed_tree_def represents_def)
next
  case (Cons c cs)
  show ?thesis
  proof (cases "cs = []")
    case True
    then have "ed' = ed\<lparr>ed_root := Some \<lparr>root_page = ch_page c, root_height = height, root_entries = n\<rparr>\<rparr>"
      using i Cons by (simp add: install_root_def)
    then show ?thesis
      using inv f ow owned_distinct [OF ow] h srt n Cons True by (auto simp: ed_tree_def represents_def forest_single)
  next
    case False
    then obtain pid ed1 where a: "editor_allocate (internal_of height repl) ed = (Inr pid, ed1)" "unat height + 1 < 2 ^ 16"
      "ed' = ed1\<lparr>ed_root := Some \<lparr>root_page = pid, root_height = height + 1, root_entries = n\<rparr>\<rparr>"
      using i Cons by (auto simp: install_root_def neq_Nil_conv not_le split: if_splits elim!: try_then_okE)
    note al = editor_allocate_ok [OF inv unlinked_internal a(1)]
    note cl = owned_claimed [OF ow inv P]
    have hh: "unat (height + 1) = Suc (unat height)" using a(2) by (simp add: unat_word_ariths)
    have l: "unat height = Suc (unat height - 1)" using h by (simp add: unat_gt_0)
    have "forest (ed_nodes E s ed1) (unat height - 1) repl es ps" by (rule forest_grows [OF f al(1) cl])
    from forest_parent [OF this _ al(4) l] Cons
    have "tree_at (ed_nodes E s ed1) (unat height) pid es (pid # ps)" using l by simp
    moreover have "owned P ed1 (pid # ps)"
      by (rule owned_fresh [OF ow _ al(1) _ cl, of "[pid]"]) (use al in \<open>simp_all add: fresh_in_def\<close>)
    moreover have "edit_inv E s a0 ed1" using al(1) by (simp add: ed_grows_def)
    moreover have "height + 1 \<noteq> 0" using hh by auto
    ultimately show ?thesis
      using srt n hh owned_distinct [of P ed1 "pid # ps"] unfolding ed_tree_def represents_def a(3)
      by (intro conjI exI [of _ "pid # ps"]) simp_all
  qed
qed

lemma count_entries_ok:
  assumes "count_entries r d = Inr n" "unat (root_entries r) = k"
    "k' + (if d = Removed then 1 else 0) = k + (if d = Added then 1 else 0)"
  shows "unat n = k'"
proof (cases d)
  case Removed
  then have "root_entries r \<noteq> 0" "n = root_entries r - 1"
    using assms(1) by (auto simp: count_entries_def split: if_splits)
  then show ?thesis using assms(2,3) Removed unat_minus_one [of "root_entries r"] by simp
qed (use assms checked_add_u64_Some [of "root_entries r" 1 n] in \<open>auto simp: count_entries_def split: option.splits\<close>)

definition mutate :: "index_mutation \<Rightarrow> (bytes \<rightharpoonup> u64) \<Rightarrow> bytes \<rightharpoonup> u64" where
  "mutate m f = (case m of Upsert e \<Rightarrow> f(ie_key e \<mapsto> ie_value e) | Delete k \<Rightarrow> f(k := None))"

lemma mutation_key_ok: "mutation_key m = Inr (k, v) \<Longrightarrow> mutate m f = f(k := v)"
  by (auto simp: mutation_key_def mutate_def split: index_mutation.splits sum.splits)

lemma ed_tree_same: "ed_tree E s a0 P ed es \<Longrightarrow> ed_same E s ed ed' \<Longrightarrow> ed_tree E s a0 P ed' es"
  using ed_same_inv [of E s ed ed' a0] ed_same_nodes [of E s ed ed'] ed_same_simps(2,3) [of E s ed ed']
  by (simp add: ed_tree_def owned_def)

lemma apply_to_tree_ok:
  assumes ap: "apply_to_tree E s r key val ed = (Inr (), ed')" and tr: "ed_tree E s a0 P ed es" "ed_root ed = Some r"
    and P: "\<forall>p\<in>P. claimed a0 p"
  shows "\<exists>es'. ed_tree E s a0 P ed' es' \<and> entry_map es' = (entry_map es)(key := val)"
proof -
  have inv: "edit_inv E s a0 ed" using tr(1) by (simp add: ed_tree_def)
  obtain ps where r: "root_height r \<noteq> 0" "tree_at (ed_nodes E s ed) (unat (root_height r) - 1) (root_page r) es ps"
    "sorted_keys es" "distinct ps" "unat (root_entries r) = length es" "owned P ed ps"
    using tr by (auto simp: ed_tree_def represents_def)
  obtain ed1 where k: "first_key E s [] (root_page r) ed = (Inr (hd_key es), ed1)" "ed_same E s ed ed1"
    using first_key_ok [OF r(2,4) _ inv, of "[]"] by auto
  note inv1 = ed_same_inv [OF k(2) inv] and nd1 = ed_same_nodes [OF k(2)]
  have "edit_path (ed_nodes E s ed1) (unat (root_height r) - 1) [] [] [] []" "distinct (ps @ [])" using r(4) by simp_all
  from edit_descend_ok [OF r(2) [folded nd1] r(3) inv1 this, of key]
  obtain les frs ed2 b a qs where d: "edit_descend E s key (unat (root_height r) - 1) (root_page r) (hd_key es) [] ed1 = (Inr (les, frs), ed2)"
    "ed_same E s ed1 ed2" "edit_path (ed_nodes E s ed1) 0 frs b a qs" "es = b @ les @ a" "\<forall>e\<in>set b. ie_key e < key"
    "\<forall>e\<in>set a. key < ie_key e" "length frs = unat (root_height r) - 1" "distinct qs" "set qs \<subseteq> set ps" by auto
  note same = ed_same_trans [OF k(2) d(2)]
  note inv2 = ed_same_inv [OF same inv] and nd2 = ed_same_nodes [OF same]
  note tr2 = ed_tree_same [OF tr(1) same]
  have sl: "sorted_keys les" using r(3) unfolding d(4) sorted_keys_append by blast
  show ?thesis
  proof (cases "change_leaf key val les")
    case None
    then have "ed' = ed2" using ap k(1) d(1) r(1) by (simp add: apply_to_tree_def)
    moreover have "(entry_map es)(key := val) = entry_map es"
      using change_leaf_None [OF None sl] entry_map_between [OF d(5,6), of les] by (simp add: d(4) fun_upd_idem)
    ultimately show ?thesis using tr2 by metis
  next
    case (Some c)
    then obtain les' dl where c: "change_leaf key val les = Some (les', dl)" by (cases c) auto
    obtain repl ed3 repl' h ed4 n where st: "make_leaves les' ed2 = (Inr repl, ed3)"
      "rebuild_path (root_page r) frs repl (root_height r) ed3 = (Inr (repl', h), ed4)" "count_entries r dl = Inr n"
      "install_root repl' h n ed4 = (Inr (), ed')"
      using ap k(1) d(1) r(1) c by (auto simp: apply_to_tree_def split: sum.splits elim!: try_then_okE)
    note cl = change_leaf_ok [OF c r(3) [unfolded d(4)] d(5,6)]
    obtain ids where i: "forest (ed_nodes E s ed3) 0 repl les' ids" "fresh_in ed2 ed3 ids" "ed_grows E s a0 ed2 ed3"
      using make_leaves_ok [OF st(1) inv2] by blast
    have inv3: "edit_inv E s a0 ed3" using i(3) by (simp add: ed_grows_def)
    have ow2: "owned P ed2 qs" using r(6) d(8,9) ed_same_simps(3) [OF same] by (auto simp: owned_def)
    note cq = owned_claimed [OF ow2 inv2 P]
    have "edit_path (ed_nodes E s ed3) 0 frs b a qs"
      by (rule edit_path_cong [OF d(3)]) (use cq i(3) nd1 nd2 in \<open>simp add: ed_grows_def\<close>)
    moreover have "owned P ed3 (ids @ qs)" by (rule owned_fresh [OF ow2 i(2,3) _ cq]) simp
    moreover have "unat (root_height r) = 0 + length frs + 1" using d(7) r(1) by (simp add: unat_gt_0)
    ultimately obtain ps' where q: "forest (ed_nodes E s ed4) (unat h - 1) repl' (b @ les' @ a) ps'" "owned P ed4 ps'"
      "h \<noteq> 0" "ed_grows E s a0 ed3 ed4"
      using rebuild_path_ok [OF st(2) inv3 _ i(1) _ _ P] by blast
    have "unat n = length (b @ les' @ a)"
      by (rule count_entries_ok [OF st(3) r(5)]) (use cl(3) d(4) in simp)
    moreover have "edit_inv E s a0 ed4" using q(4) by (simp add: ed_grows_def)
    ultimately have "ed_tree E s a0 P ed' (b @ les' @ a)"
      by (intro install_root_ok [OF st(4) _ q(1,2,3) cl(1) _ P])
    with cl(2) show ?thesis unfolding d(4) by blast
  qed
qed

lemma editor_apply_ok:
  assumes ap: "editor_apply E s m ed = (Inr (), ed')" and tr: "ed_tree E s a0 P ed es" and P: "\<forall>p\<in>P. claimed a0 p"
  shows "\<exists>es'. ed_tree E s a0 P ed' es' \<and> entry_map es' = mutate m (entry_map es)"
proof -
  obtain key val where m: "mutation_key m = Inr (key, val)"
    using ap by (auto simp: editor_apply_def split: sum.splits)
  show ?thesis
  proof (cases "ed_root ed")
    case (Some r)
    then show ?thesis
      using apply_to_tree_ok [OF _ tr Some P, of key val ed'] ap m by (simp add: editor_apply_def mutation_key_ok)
  next
    case None
    then have es: "es = []" using tr by (auto simp: ed_tree_def represents_def)
    have inv: "edit_inv E s a0 ed" using tr by (simp add: ed_tree_def)
    show ?thesis
    proof (cases val)
      case None': None
      then have "ed' = ed" using ap m None by (simp add: editor_apply_def)
      moreover have "mutate m (entry_map es) = entry_map es"
        by (simp add: mutation_key_ok [OF m] None' es entry_map_def)
      ultimately show ?thesis using tr by metis
    next
      case (Some v)
      let ?e = "\<lparr>ie_key = key, ie_value = v\<rparr>"
      obtain pid ed1 where a: "editor_allocate (Leaf [?e] None) ed = (Inr pid, ed1)"
        "ed' = ed1\<lparr>ed_root := Some \<lparr>root_page = pid, root_height = 1, root_entries = 1\<rparr>\<rparr>"
        using ap m None Some by (auto simp: editor_apply_def elim!: try_then_okE)
      note al = editor_allocate_ok [OF inv unlinked_leaf a(1)]
      have "edit_inv E s a0 ed1" using al(1) by (simp add: ed_grows_def)
      then have "ed_tree E s a0 P ed' [?e]"
        using al(4,5) unfolding ed_tree_def a(2) represents_def
        by (intro conjI exI [of _ "[pid]"]) (simp_all add: owned_def)
      moreover have "entry_map [?e] = mutate m (entry_map es)"
        by (simp add: mutation_key_ok [OF m] Some es entry_map_def)
      ultimately show ?thesis by blast
    qed
  qed
qed

lemma apply_all_ok:
  assumes "apply_all E s ms ed = (Inr (), ed')" "ed_tree E s a0 P ed es" "\<forall>p\<in>P. claimed a0 p"
  shows "\<exists>es'. ed_tree E s a0 P ed' es' \<and> entry_map es' = fold mutate ms (entry_map es)"
  using assms(1,2)
proof (induction ms arbitrary: ed es)
  case (Cons m ms)
  then obtain ed1 where a: "editor_apply E s m ed = (Inr (), ed1)" "apply_all E s ms ed1 = (Inr (), ed')"
    by (auto elim!: try_then_okE)
  obtain es1 where "ed_tree E s a0 P ed1 es1" "entry_map es1 = mutate m (entry_map es)"
    using editor_apply_ok [OF a(1) Cons.prems(2) assms(3)] by blast
  with Cons.IH [OF a(2) this(1)] show ?case by simp
qed auto

section \<open>The finished plan\<close>

text \<open>The trees below pages of the store stay within the pages of the original tree.\<close>

lemma tree_child:
  assumes "list_all2 (\<lambda>p t. tree_at nd l p (fst t) (snd t)) cs ts" "t \<in> set ts"
  obtains c where "c \<in> set cs" "tree_at nd l c (fst t) (snd t)"
proof -
  obtain i where i: "i < length ts" "t = ts ! i" using assms(2) by (metis in_set_conv_nth)
  moreover have "cs ! i \<in> set cs" using i(1) list_all2_lengthD [OF assms(1)] by simp
  ultimately show thesis using that list_all2_nthD2 [OF assms(1)] by blast
qed

lemma tree_kids:
  assumes "tree_at nd k qid es qs" "p \<in> set qs" "nd p = Some (Internal lv fc seps)"
  shows "set (fc # map snd seps) \<subseteq> set qs"
  using assms
proof (induction k arbitrary: qid es qs)
  case (Suc k)
  obtain lv' fc' seps' ts where t: "nd qid = Some (Internal lv' fc' seps')"
    "list_all2 (\<lambda>p t. tree_at nd k p (fst t) (snd t)) (fc' # map snd seps') ts" "qs = qid # concat (map snd ts)"
    using Suc.prems(1) by (auto elim: tree_at_SucE)
  show ?case
  proof (cases "p = qid")
    case True
    have "set (fc' # map snd seps') \<subseteq> set (concat (map snd ts))"
    proof
      fix c assume "c \<in> set (fc' # map snd seps')"
      then obtain i where "i < length ts" "c = (fc' # map snd seps') ! i"
        using list_all2_lengthD [OF t(2)] by (metis in_set_conv_nth)
      then have "tree_at nd k c (fst (ts ! i)) (snd (ts ! i))" "ts ! i \<in> set ts"
        using list_all2_nthD2 [OF t(2)] by auto
      with tree_at_pages [OF this(1)] show "c \<in> set (concat (map snd ts))" by (simp add: set_concat) (metis list.set_intros(1))
    qed
    with True t(1,3) Suc.prems(3) show ?thesis by auto
  next
    case False
    then obtain x where x: "x \<in> set ts" "p \<in> set (snd x)" using Suc.prems(2) t(3) by auto
    obtain c where "tree_at nd k c (fst x) (snd x)" using t(2) x(1) by (rule tree_child)
    from Suc.IH [OF this x(2) Suc.prems(3)] have "set (fc # map snd seps) \<subseteq> set (snd x)" .
    also have "\<dots> \<subseteq> (\<Union>a\<in>set ts. set (snd a))" using x(1) by (rule UN_upper)
    also have "\<dots> \<subseteq> set qs" by (simp add: t(3) subset_insertI)
    finally show ?thesis .
  qed
qed auto

lemma tree_closed:
  assumes "tree_at nd l pid es ps" "pid \<in> Q"
    "\<And>p lv fc seps. p \<in> Q \<Longrightarrow> nd p = Some (Internal lv fc seps) \<Longrightarrow> set (fc # map snd seps) \<subseteq> Q"
  shows "set ps \<subseteq> Q"
  using assms(1,2)
proof (induction l arbitrary: pid es ps)
  case (Suc l)
  obtain lv fc seps ts where t: "nd pid = Some (Internal lv fc seps)"
    "list_all2 (\<lambda>p t. tree_at nd l p (fst t) (snd t)) (fc # map snd seps) ts" "ps = pid # concat (map snd ts)"
    using Suc.prems(1) by (auto elim: tree_at_SucE)
  note sub = assms(3) [OF Suc.prems(2) t(1)]
  have "set (snd x) \<subseteq> Q" if x: "x \<in> set ts" for x
  proof -
    obtain c where c: "c \<in> set (fc # map snd seps)" "tree_at nd l c (fst x) (snd x)" using t(2) x by (rule tree_child)
    show ?thesis by (rule Suc.IH [OF c(2) subsetD [OF sub c(1)]])
  qed
  then have "(\<Union>a\<in>set ts. set (snd a)) \<subseteq> Q" by (rule UN_least)
  then show ?case using t(3) Suc.prems(2) by simp
qed auto

definition kids_in :: "(u64 \<times> node) list \<Rightarrow> u64 set \<Rightarrow> u64 \<Rightarrow> bool" where
  "kids_in ov R p \<longleftrightarrow> (\<forall>lv fc seps. map_of ov p = Some (Internal lv fc seps) \<longrightarrow> set (fc # map snd seps) \<subseteq> R)"

lemma reach_overlay_ok:
  "reach_overlay ov R pend = Inr R' \<Longrightarrow> distinct R \<Longrightarrow> set R \<subseteq> set R' \<and> set pend \<subseteq> set R' \<and> distinct R' \<and>
    (\<forall>p\<in>set R' - set R. kids_in ov (set R') p)"
proof (induction ov R pend rule: reach_overlay.induct)
  case (1 ov R pend)
  show ?case
  proof (cases pend)
    case Nil
    then have "R' = R" using 1(4) by (simp add: reach_overlay.simps [of ov R])
    then show ?thesis using Nil 1(5) by simp
  next
    case (Cons p qs)
    then have new: "p \<notin> set R" using 1(4) by (auto simp: reach_overlay.simps [of ov R] split: if_splits)
    then have d: "distinct (p # R)" using 1(5) by simp
    have "set (p # R) \<subseteq> set R' \<and> set qs \<subseteq> set R' \<and> distinct R' \<and>
        (\<forall>q\<in>set R' - set (p # R). kids_in ov (set R') q) \<and> kids_in ov (set R') p"
    proof (cases "\<exists>lv fc seps. map_of ov p = Some (Internal lv fc seps)")
      case True
      then obtain lv fc seps where n: "map_of ov p = Some (Internal lv fc seps)" by blast
      have "reach_overlay ov (p # R) (rev (fc # map snd seps) @ qs) = Inr R'"
        using 1(4) Cons new n by (simp add: reach_overlay.simps [of ov R])
      note ih = 1(3) [OF Cons new n refl this d]
      have "kids_in ov (set R') p" using ih n by (simp add: kids_in_def)
      with ih show ?thesis by simp
    next
      case False
      then have k: "kids_in ov (set R') p" by (simp add: kids_in_def)
      have rec: "reach_overlay ov (p # R) qs = Inr R'"
        using 1(4) Cons new False by (auto simp: reach_overlay.simps [of ov R] split: option.splits node.splits)
      show ?thesis
      proof (cases "map_of ov p")
        case None
        from 1(1) [OF Cons new None rec d] k show ?thesis by simp
      next
        case (Some n)
        then obtain es nx where "n = Leaf es nx" using False by (cases n) auto
        from 1(2) [OF Cons new Some this rec d] k show ?thesis by simp
      qed
    qed
    then show ?thesis using Cons by auto
  qed
qed

lemma encode_pages_ok:
  assumes "encode_pages ov pids = Inr ws"
  shows "map pw_page_id ws = filter (\<lambda>p. map_of ov p \<noteq> None) pids"
    "\<And>p n. p \<in> set pids \<Longrightarrow> map_of ov p = Some n \<Longrightarrow>
      \<exists>bs. node_encode n = Inr bs \<and> \<lparr>pw_page_id = p, pw_payload = bs\<rparr> \<in> set ws"
proof -
  show "map pw_page_id ws = filter (\<lambda>p. map_of ov p \<noteq> None) pids"
    using assms by (induction pids arbitrary: ws) (auto split: option.splits sum.splits)
  show "\<exists>bs. node_encode n = Inr bs \<and> \<lparr>pw_page_id = p, pw_payload = bs\<rparr> \<in> set ws"
    if "p \<in> set pids" "map_of ov p = Some n" for p n
    using assms that by (induction pids arbitrary: ws) (auto split: option.splits sum.splits)
qed

lemma tree_node_wf:
  assumes "tree_at nd l pid es ps" "sorted_keys es" "NO_PAGE \<notin> set ps" "p \<in> set ps" "nd p = Some n"
    "node_size n \<le> MAX_PAGE_PAYLOAD" "unlinked n"
  shows "node_wf n"
  using assms(1-4)
proof (induction l arbitrary: pid es ps)
  case 0
  then obtain nx where "n = Leaf es nx" using assms(5) by auto
  with assms(6,7) 0(2) show ?case by simp
next
  case (Suc l)
  obtain lv fc seps qs where t: "nd pid = Some (Internal lv fc seps)" "unat lv = Suc l" "ps = pid # qs"
    "forest nd l (\<lparr>ch_key = hd_key es, ch_page = fc\<rparr> # map (\<lambda>(k, p). \<lparr>ch_key = k, ch_page = p\<rparr>) seps) es qs"
    by (rule tree_children_forest [OF Suc.prems(1)])
  let ?cs = "\<lparr>ch_key = hd_key es, ch_page = fc\<rparr> # map (\<lambda>(k, p). \<lparr>ch_key = k, ch_page = p\<rparr>) seps"
  show ?case
  proof (cases "p = pid")
    case True
    have "internal_of lv ?cs = Internal lv fc seps"
      by (simp add: internal_of_def comp_def case_prod_beta)
    with True assms(5) t(1) have n: "n = internal_of lv ?cs" by simp
    have "lv \<noteq> 0" using t(2) by auto
    with internal_wf [OF t(4) _ Suc.prems(2), of lv] assms(6) Suc.prems(3) t(3) show ?thesis by (simp add: n)
  next
    case False
    obtain ts where ts: "list_all2 (\<lambda>c t. tree_at nd l (ch_page c) (fst t) (snd t) \<and> ch_key c = hd_key (fst t)) ?cs ts"
      "es = concat (map fst ts)" "qs = concat (map snd ts)" using t(4) unfolding forest_def by blast
    have "p \<in> set qs" using False Suc.prems(4) t(3) by simp
    then have "\<exists>x\<in>set ts. p \<in> set (snd x)" using ts(3) by auto
    then obtain i where i: "i < length ts" "p \<in> set (snd (ts ! i))" by (metis in_set_conv_nth)
    have tr: "tree_at nd l (ch_page (?cs ! i)) (fst (ts ! i)) (snd (ts ! i))" using list_all2_nthD2 [OF ts(1) i(1)] by simp
    have "sorted_keys (map fst ts ! i)" by (rule sorted_keys_concat_nth) (use Suc.prems(2) ts(2) i(1) in simp_all)
    moreover have "NO_PAGE \<notin> set (snd (ts ! i))" using Suc.prems(3) t(3) ts(3) nth_mem [OF i(1)] by auto
    ultimately show ?thesis using Suc.IH [OF tr] i by simp
  qed
qed

lemma reach_tree:
  assumes "tree_at nd l pid es ps" "pid \<in> R" "\<And>p lv fc seps. p \<in> R \<Longrightarrow> map_of ov p = Some (Internal lv fc seps) \<Longrightarrow> set (fc # map snd seps) \<subseteq> R"
    "\<And>p n. map_of ov p = Some n \<Longrightarrow> nd p = Some n"
    "\<And>q k qs es'. tree_at nd k q es' qs \<Longrightarrow> q \<in> Q \<Longrightarrow> \<forall>p\<in>set qs. map_of ov p = None"
    "\<And>p. p \<in> set ps \<Longrightarrow> map_of ov p = None \<Longrightarrow> p \<in> Q"
  shows "\<forall>p\<in>set ps. map_of ov p \<noteq> None \<longrightarrow> p \<in> R"
  using assms(1,2,6)
proof (induction l arbitrary: pid es ps)
  case (Suc l)
  obtain lv fc seps ts where t: "nd pid = Some (Internal lv fc seps)"
    "list_all2 (\<lambda>p t. tree_at nd l p (fst t) (snd t)) (fc # map snd seps) ts" "ps = pid # concat (map snd ts)"
    using Suc.prems(1) by (auto elim: tree_at_SucE)
  show ?case
  proof (cases "map_of ov pid")
    case None
    then have "pid \<in> Q" using Suc.prems(3) [of pid] t(3) by simp
    from assms(5) [OF Suc.prems(1) this] show ?thesis by simp
  next
    case (Some n)
    then have n: "map_of ov pid = Some (Internal lv fc seps)" using assms(4) [OF Some] t(1) by simp
    note kids = assms(3) [OF Suc.prems(2) n]
    have "\<forall>p\<in>set (snd x). map_of ov p \<noteq> None \<longrightarrow> p \<in> R" if x: "x \<in> set ts" for x
    proof -
      obtain c where c: "c \<in> set (fc # map snd seps)" "tree_at nd l c (fst x) (snd x)" using t(2) x by (rule tree_child)
      have "p \<in> Q" if "p \<in> set (snd x)" "map_of ov p = None" for p
        using Suc.prems(3) [of p] that x t(3) by auto
      from Suc.IH [OF c(2) subsetD [OF kids c(1)] this] show ?thesis .
    qed
    then show ?thesis using t(3) Suc.prems(2) by auto
  qed
qed auto

lemma editor_finish_new:
  assumes fin: "editor_finish ed = Inr plan" and inv: "edit_inv E s a0 ed"
  shows "new_pages a0 (ed_allocator ed) (map pw_page_id (plan_writes plan))"
proof -
  let ?ov = "overlay ed"
  obtain R where R: "reach_overlay ?ov [] (case ed_root ed of None \<Rightarrow> [] | Some r \<Rightarrow> [root_page r]) = Inr R"
    "encode_pages ?ov (sort (filter (\<lambda>p. map_of ?ov p \<noteq> None) R)) = Inr (plan_writes plan)"
    using fin by (auto simp: editor_finish_def Let_def split: sum.splits)
  note enc = encode_pages_ok(1) [OF R(2)]
  have "ed_claimed ed p \<and> \<not> claimed a0 p" if "map_of ?ov p \<noteq> None" for p
    using that inv unfolding edit_inv_def by (metis map_of_eq_None_iff)
  then have "\<forall>p\<in>set (map pw_page_id (plan_writes plan)). ed_claimed ed p \<and> \<not> claimed a0 p" unfolding enc by simp
  moreover have "distinct (map pw_page_id (plan_writes plan))"
    unfolding enc using reach_overlay_ok [OF R(1)] by (simp add: distinct_sort)
  ultimately show ?thesis using inv unfolding new_pages_def edit_inv_def by blast
qed

lemma editor_finish_ok:
  assumes fin: "editor_finish ed = Inr plan" and tr: "ed_tree E s a0 P ed es" and P: "\<forall>p\<in>P. claimed a0 p"
    and closed: "\<forall>p\<in>P. \<forall>lv fc seps. store_nodes E s p = Some (Internal lv fc seps) \<longrightarrow> set (fc # map snd seps) \<subseteq> P"
    and wr: "\<forall>w\<in>set (plan_writes plan). written nd w" and old: "\<forall>p. claimed a0 p \<longrightarrow> nd p = store_nodes E s p"
  shows "\<exists>ps. represents nd (plan_root plan) es ps \<and> (\<forall>p\<in>set ps. p \<in> P \<or> p \<in> pw_page_id ` set (plan_writes plan))"
proof -
  let ?ov = "overlay ed"
  have inv: "edit_inv E s a0 ed" using tr by (simp add: ed_tree_def)
  obtain R where R: "reach_overlay ?ov [] (case ed_root ed of None \<Rightarrow> [] | Some r \<Rightarrow> [root_page r]) = Inr R"
    "encode_pages ?ov (sort (filter (\<lambda>p. map_of ?ov p \<noteq> None) R)) = Inr (plan_writes plan)" "plan_root plan = ed_root ed"
    using fin by (auto simp: editor_finish_def Let_def split: sum.splits)
  note reach = reach_overlay_ok [OF R(1)]
  note enc = encode_pages_ok [OF R(2)]
  have dom: "map_of ?ov p \<noteq> None \<longleftrightarrow> p \<in> fst ` set ?ov" for p by (auto simp: map_of_eq_None_iff)
  have fresh: "ed_claimed ed p \<and> \<not> claimed a0 p" if "map_of ?ov p \<noteq> None" for p
    using that inv unfolding edit_inv_def dom by blast
  have ids: "set (map pw_page_id (plan_writes plan)) = {p \<in> set R. map_of ?ov p \<noteq> None}"
    unfolding enc(1) by auto
  obtain ps where rep: "represents (ed_nodes E s ed) (ed_root ed) es ps" "owned P ed ps"
    using tr by (auto simp: ed_tree_def)
  show "\<exists>ps. represents nd (plan_root plan) es ps \<and> (\<forall>p\<in>set ps. p \<in> P \<or> p \<in> pw_page_id ` set (plan_writes plan))"
  proof (cases "ed_root ed")
    case None
    then show ?thesis using rep R(3) by (auto simp: represents_def)
  next
    case (Some r)
    have t: "tree_at (ed_nodes E s ed) (unat (root_height r) - 1) (root_page r) es ps" "sorted_keys es"
      using rep(1) Some by (simp_all add: represents_def)
    have inP: "p \<in> P" if "p \<in> set ps" "map_of ?ov p = None" for p
      using that rep(2) dom [of p] by (auto simp: owned_def)
    have oldP: "map_of ?ov p = None" if "p \<in> P" for p using fresh [of p] P that by blast
    have nodes: "ed_nodes E s ed p = store_nodes E s p" if "p \<in> P" for p using oldP [OF that] by (simp add: ed_nodes_def)
    have below: "\<forall>p\<in>set qs. map_of ?ov p = None" if "tree_at (ed_nodes E s ed) k q es' qs" "q \<in> P" for q k qs es'
    proof -
      have "set qs \<subseteq> P"
      proof (rule tree_closed [OF that])
        fix p lv fc seps assume "p \<in> P" "ed_nodes E s ed p = Some (Internal lv fc seps)"
        then show "set (fc # map snd seps) \<subseteq> P" using closed nodes [of p] by simp
      qed
      then show ?thesis using oldP by blast
    qed
    have "\<forall>p\<in>set ps. map_of ?ov p \<noteq> None \<longrightarrow> p \<in> set R"
    proof (rule reach_tree [OF t(1)])
      show "root_page r \<in> set R" using reach Some by simp
      show "set (fc # map snd seps) \<subseteq> set R" if "p \<in> set R" "map_of ?ov p = Some (Internal lv fc seps)" for p lv fc seps
        using reach that by (simp add: kids_in_def)
      show "ed_nodes E s ed p = Some n" if "map_of ?ov p = Some n" for p n using that by (simp add: ed_nodes_def)
      show "\<And>q k qs es'. tree_at (ed_nodes E s ed) k q es' qs \<Longrightarrow> q \<in> P \<Longrightarrow> \<forall>p\<in>set qs. map_of ?ov p = None"
        by (rule below)
    qed (rule inP)
    then have inR: "p \<in> set R" if "p \<in> set ps" "map_of ?ov p \<noteq> None" for p using that by blast
    note cl = owned_claimed [OF rep(2) inv P]
    have np: "NO_PAGE \<notin> set ps" using cl claimed_not_no_page by blast
    have same: "nd p = ed_nodes E s ed p" if p: "p \<in> set ps" for p
    proof (cases "map_of ?ov p")
      case None
      then show ?thesis using old P inP [OF p] nodes by simp
    next
      case (Some n)
      then have n: "ed_nodes E s ed p = Some n" by (simp add: ed_nodes_def)
      obtain bs where bs: "node_encode n = Inr bs" "\<lparr>pw_page_id = p, pw_payload = bs\<rparr> \<in> set (plan_writes plan)"
        using enc(2) [of p n] Some inR [OF p] by auto
      have "unlinked n" using inv Some by (simp add: edit_inv_def)
      then have "node_wf n" by (rule tree_node_wf [OF t np p n encode_size [OF bs(1)]])
      with written_node [OF _ bs(1)] wr bs(2) n show ?thesis by simp
    qed
    have "represents nd (plan_root plan) es ps"
      using rep(1) Some R(3) tree_at_cong [OF t(1)] same by (simp add: represents_def)
    moreover have "p \<in> P \<or> p \<in> pw_page_id ` set (plan_writes plan)" if "p \<in> set ps" for p
      using inP [OF that] inR [OF that] ids by (cases "map_of ?ov p = None") auto
    ultimately show ?thesis by blast
  qed
qed

lemma edit_start:
  assumes "represents (store_nodes E s) root es ps" "alloc_ok a" "coherent E s cache"
  shows "ed_tree E s a (set ps) \<lparr>ed_cache = cache, ed_allocator = a, ed_root = root, overlay = []\<rparr> es"
proof -
  let ?ed = "\<lparr>ed_cache = cache, ed_allocator = a, ed_root = root, overlay = []\<rparr>"
  have "ed_nodes E s ?ed = store_nodes E s" by (simp add: fun_eq_iff ed_nodes_def)
  moreover have "edit_inv E s a ?ed" using assms(2,3) by (simp add: edit_inv_def)
  moreover have "owned (set ps) ?ed ps" using assms(1) by (auto simp: owned_def represents_def split: option.splits)
  ultimately show ?thesis using assms(1) by (auto simp: ed_tree_def)
qed

lemma edit_planE:
  assumes ep: "edit_plan E s cache root ms a = (Inr plan, ed)" and rep: "represents (store_nodes E s) root es ps"
    and al: "alloc_ok a" "\<forall>p\<in>set ps. claimed a p" and coh: "coherent E s cache"
  obtains es' where "editor_finish ed = Inr plan" "ed_tree E s a (set ps) ed es'"
    "entry_map es' = fold mutate ms (entry_map es)"
proof -
  have st: "apply_all E s ms \<lparr>ed_cache = cache, ed_allocator = a, ed_root = root, overlay = []\<rparr> = (Inr (), ed)"
    "editor_finish ed = Inr plan"
    using ep by (auto simp: edit_plan_def elim!: try_then_okE)
  from apply_all_ok [OF st(1) edit_start [OF rep al(1) coh] al(2)] st(2) that show thesis by blast
qed

lemma edit_plan_new:
  assumes "edit_plan E s cache root ms a = (Inr plan, ed)" "represents (store_nodes E s) root es ps"
    "alloc_ok a" "\<forall>p\<in>set ps. claimed a p" "coherent E s cache"
  shows "new_pages a (ed_allocator ed) (map pw_page_id (plan_writes plan))"
proof -
  obtain es' where e: "editor_finish ed = Inr plan" "ed_tree E s a (set ps) ed es'" "entry_map es' = fold mutate ms (entry_map es)"
    by (rule edit_planE [OF assms])
  then have "edit_inv E s a ed" by (simp add: ed_tree_def)
  with e(1) show ?thesis by (rule editor_finish_new)
qed

lemma edit_plan_ok:
  assumes ep: "edit_plan E s cache root ms a = (Inr plan, ed)" and rep: "represents (store_nodes E s) root es ps"
    and al: "alloc_ok a" "\<forall>p\<in>set ps. claimed a p" and coh: "coherent E s cache"
    and wr: "\<forall>w\<in>set (plan_writes plan). written nd w" and old: "\<forall>p. claimed a p \<longrightarrow> nd p = store_nodes E s p"
  shows "\<exists>es' ps'. represents nd (plan_root plan) es' ps' \<and> entry_map es' = fold mutate ms (entry_map es) \<and>
    (\<forall>p\<in>set ps'. p \<in> set ps \<or> p \<in> pw_page_id ` set (plan_writes plan))"
proof -
  obtain es' where tr: "editor_finish ed = Inr plan" "ed_tree E s a (set ps) ed es'" "entry_map es' = fold mutate ms (entry_map es)"
    by (rule edit_planE [OF ep rep al coh])
  have "set (fc # map snd seps) \<subseteq> set ps"
    if "p \<in> set ps" "store_nodes E s p = Some (Internal lv fc seps)" for p lv fc seps
  proof (cases root)
    case (Some r)
    then have "tree_at (store_nodes E s) (unat (root_height r) - 1) (root_page r) es ps" using rep by (simp add: represents_def)
    from tree_kids [OF this that] show ?thesis .
  qed (use that rep in \<open>simp add: represents_def\<close>)
  then have closed: "\<forall>p\<in>set ps. \<forall>lv fc seps. store_nodes E s p = Some (Internal lv fc seps) \<longrightarrow>
    set (fc # map snd seps) \<subseteq> set ps" by blast
  from editor_finish_ok [OF tr(1,2) al(2) closed wr old] tr(3) show ?thesis by blast
qed

section \<open>Edits in a store\<close>

lemma batch_other_reads:
  assumes inv: "store_inv crc s L base xs" and addr: "\<forall>x\<in>set ws. addressable (pw_page_id x)"
    and ok: "apply_batch crc ws [] durable s = (Inr (wl, al), s')" and ne: "ws \<noteq> []"
    and p: "p \<notin> pw_page_id ` set ws" "addressable p"
  shows "read_page crc p s' = read_page crc p s"
proof -
  obtain s1 where s1: "write_pages_inner crc ws False s = (Inr wl, s1)" "dirty s' = dirty s1" "st_data s' = st_data s1"
    using apply_batch_writes [OF ok] ne by blast
  have "find (\<lambda>(x, l). pw_page_id x = p) (rev (zip ws wl)) = None"
    using p(1) by (auto simp: find_None_iff dest!: set_zip_leftD)
  then have "read_page crc p s1 = read_page crc p s" using write_pages_inner_reads [OF inv addr s1(1) p(2)] by simp
  moreover have "read_page crc p s' = read_page crc p s1"
    using s1 by (simp add: read_page_def dirty_get_def split: option.splits)
  ultimately show ?thesis by simp
qed

lemma store_nodes_read: "read_page (env_crc E) p s' = read_page (env_crc E) p s \<Longrightarrow> store_nodes E s' p = store_nodes E s p"
  by (simp add: store_nodes_def load_node_def shared_read_page_eq)

lemma commit_relaxed_ok:
  assumes inv: "store_inv (env_crc E) (gc_store g) L base xs" and addr: "\<forall>w\<in>set ws. addressable (pw_page_id w)"
    and d: "distinct (map pw_page_id ws)" and c: "client_call (env_crc E) (commit_relaxed ws n) g = (Inr ls, g')"
  shows "\<forall>w\<in>set ws. written (store_nodes E (gc_store g')) w"
    "\<And>p. p \<notin> pw_page_id ` set ws \<Longrightarrow> addressable p \<Longrightarrow> store_nodes E (gc_store g') p = store_nodes E (gc_store g) p"
proof -
  have sub: "\<exists>wl al. apply_batch (env_crc E) ws [] False (gc_store g) = (Inr (wl, al), gc_store g')" if "ws \<noteq> []"
  proof -
    have "submit (env_crc E) \<lparr>cr_writes = ws, cr_appends = [], cr_durable = False, cr_response = n\<rparr> g = (Inr ls, g')"
      using c that by (auto simp: client_call_def commit_relaxed_def commit_with_def split: option.splits)
    then show ?thesis by (rule submit_writes) blast
  qed
  show "\<forall>w\<in>set ws. written (store_nodes E (gc_store g')) w"
    using sub written_reads [OF inv addr d] by (cases "ws = []") auto
  show "store_nodes E (gc_store g') p = store_nodes E (gc_store g) p" if "p \<notin> pw_page_id ` set ws" "addressable p" for p
  proof (cases "ws = []")
    case True
    then show ?thesis using c by (simp add: client_call_def commit_relaxed_def commit_with_def)
  next
    case False
    with sub batch_other_reads [OF inv addr _ False that] show ?thesis by (blast intro: store_nodes_read)
  qed
qed

lemma edit_in_store:
  assumes inv: "store_inv (env_crc E) (gc_store g) L base xs" and rep: "represents (store_nodes E (gc_store g)) root es ps"
    and al: "alloc_ok (allocator (gc_store g))" "\<forall>p\<in>set ps. claimed (allocator (gc_store g)) p"
    and coh: "coherent E (gc_store g) cache"
    and ep: "edit_plan E (gc_store g) cache root ms (allocator (gc_store g)) = (Inr plan, ed)" and fit: "pages_fit (ed_allocator ed)"
    and c: "client_call (env_crc E) (commit_relaxed (plan_writes plan) n)
      (g\<lparr>gc_store := (gc_store g)\<lparr>allocator := ed_allocator ed\<rparr>\<rparr>) = (Inr ls, g')"
  shows "\<exists>es' ps'. represents (store_nodes E (gc_store g')) (plan_root plan) es' ps' \<and>
      entry_map es' = fold mutate ms (entry_map es)"
    "represents (store_nodes E (gc_store g')) root es ps"
proof -
  let ?a = "allocator (gc_store g)" and ?ws = "plan_writes plan"
  let ?g = "g\<lparr>gc_store := (gc_store g)\<lparr>allocator := ed_allocator ed\<rparr>\<rparr>"
  have new: "new_pages ?a (ed_allocator ed) (map pw_page_id ?ws)"
    by (rule edit_plan_new [OF ep rep al coh])
  have dist: "distinct (map pw_page_id ?ws)" and fresh: "\<forall>w\<in>set ?ws. claimed (ed_allocator ed) (pw_page_id w) \<and> \<not> claimed ?a (pw_page_id w)"
    and mono: "\<forall>p. claimed ?a p \<longrightarrow> claimed (ed_allocator ed) p"
    using new by (auto simp: new_pages_def)
  have addr: "\<forall>w\<in>set ?ws. addressable (pw_page_id w)" using fresh pages_fit_addressable [OF fit] by blast
  have inv': "store_inv (env_crc E) (gc_store ?g) L base xs" using inv by simp
  note cr = commit_relaxed_ok [OF inv' addr dist c]
  have nodes: "store_nodes E (gc_store ?g) = store_nodes E (gc_store g)"
    by (intro ext store_nodes_read) (simp add: read_page_def dirty_get_def split: option.splits)
  have old: "store_nodes E (gc_store g') p = store_nodes E (gc_store g) p" if "claimed ?a p" for p
  proof -
    have "p \<notin> pw_page_id ` set ?ws" using fresh that by blast
    moreover have "addressable p" using pages_fit_addressable [OF fit] mono that by blast
    ultimately show ?thesis using cr(2) nodes by simp
  qed
  show "\<exists>es' ps'. represents (store_nodes E (gc_store g')) (plan_root plan) es' ps' \<and>
      entry_map es' = fold mutate ms (entry_map es)"
    using edit_plan_ok [OF ep rep al coh cr(1)] old by blast
  show "represents (store_nodes E (gc_store g')) root es ps"
  proof (cases root)
    case (Some r)
    with rep have "tree_at (store_nodes E (gc_store g)) (unat (root_height r) - 1) (root_page r) es ps"
      by (simp add: represents_def)
    then have "tree_at (store_nodes E (gc_store g')) (unat (root_height r) - 1) (root_page r) es ps"
      by (rule tree_at_cong) (use old al(2) in blast)
    with rep Some show ?thesis by (simp add: represents_def)
  qed (use rep in \<open>simp add: represents_def\<close>)
qed

lemma represented_get:
  assumes "represents (store_nodes E s) root es ps"
  shows "(case root of None \<Rightarrow> Inr None | Some r \<Rightarrow> fst (tree_get E s r key None)) = Inr (entry_map es key)"
proof (cases root)
  case (Some r)
  have "coherent E s None" by (simp add: cache_coherent_def cache_lookup_def)
  from represented_answers(1) [OF assms [unfolded Some] this] Some show ?thesis by simp
qed (use assms in \<open>simp add: represents_def entry_map_def\<close>)

lemma sample_edit:
  "\<exists>plan ed. edit_plan sample_env fresh_store None None [Delete [9], Upsert \<lparr>ie_key = [1], ie_value = 7\<rparr>]
    \<lparr>next_page_id = 0, free_pages = []\<rparr> = (Inr plan, ed) \<and> ed_allocator ed = \<lparr>next_page_id = 1, free_pages = []\<rparr> \<and>
    plan_writes plan = [\<lparr>pw_page_id = 0, pw_payload = node_image (Leaf [\<lparr>ie_key = [1], ie_value = 7\<rparr>] None)\<rparr>]"
proof -
  let ?e = "\<lparr>ie_key = [1], ie_value = 7\<rparr>"
  have r: "reserve_for 1 \<lparr>next_page_id = 0, free_pages = []\<rparr> = (Inr [0], \<lparr>next_page_id = 1, free_pages = []\<rparr>)"
    by (simp add: reserve_for_def reserve_def checked_add_u64_def upt_rec)
  have "mutation_key (Upsert ?e) = Inr ([1], Some 7)"
    by (simp add: mutation_key_def validate_entries_def leaf_entry_size_def checked_add_usize_def usize_max_def
        header_size_def node_consts page_consts)
  moreover have "node_encode (Leaf [?e] None) = Inr (node_image (Leaf [?e] None))"
    by (rule node_encode_eq) (simp add: node_size_def page_consts)
  ultimately show ?thesis
    using r
    by (simp add: edit_plan_def editor_apply_def mutation_key_def editor_allocate_def editor_finish_def
        reach_overlay.simps [of "[(0, Leaf [?e] None)]"])
qed

section \<open>A new root is not partitioned\<close>

lemma fill_node_one:
  assumes "e < len" "sz e = Some n" "used + n \<le> MAX_PAGE_PAYLOAD"
    "Suc e < len \<Longrightarrow> \<exists>k. sz (Suc e) = Some k \<and> used + n + k > MAX_PAGE_PAYLOAD"
  shows "fill_node sz len e used = Inr (Suc e)"
  using assms by (cases "Suc e < len") (auto simp: fill_node.simps [of sz len e] fill_node.simps [of sz len "Suc e"])

lemma partition_three:
  assumes "key_fits (ie_key a)" "key_fits (ie_key m)" "key_fits (ie_key b)"
    "header_size + (length (ie_key a) + 12) + (length (ie_key m) + 12) > MAX_PAGE_PAYLOAD"
    "header_size + (length (ie_key m) + 12) + (length (ie_key b) + 12) > MAX_PAGE_PAYLOAD"
  shows "partition_leaves [a, m, b] = Inr [(0, 1), (1, 2), (2, 3)]"
proof -
  define sz where "sz = (\<lambda>i. leaf_entry_size (length (ie_key ([a, m, b] ! i))))"
  have sz: "sz 0 = Some (length (ie_key a) + 12)" "sz (Suc 0) = Some (length (ie_key m) + 12)"
    "sz (Suc (Suc 0)) = Some (length (ie_key b) + 12)"
    using assms(1-3) by (simp_all add: sz_def entry_size_fits)
  have "fill_node sz 3 0 header_size = Inr 1" "fill_node sz 3 (Suc 0) header_size = Inr 2"
    "fill_node sz 3 (Suc (Suc 0)) header_size = Inr 3"
    using fill_node_one [of 0 3 sz, OF _ sz(1)] fill_node_one [of "Suc 0" 3 sz, OF _ sz(2)]
      fill_node_one [of "Suc (Suc 0)" 3 sz, OF _ sz(3)] sz assms
    by (simp_all add: numeral_2_eq_2 numeral_3_eq_3)
  then have "partition_by 3 sz 0 = Inr [(0, 1), (1, 2), (2, 3)]"
    by (simp add: partition_by.simps [of 3 sz] numeral_2_eq_2)
  then show ?thesis by (simp add: partition_leaves_def sz_def numeral_3_eq_3)
qed

lemma root_split_refused:
  assumes ld: "load_node E s pid = Inr (Leaf [a, b] nx)" and coh: "coherent E s cache"
    and ord: "ie_key a < ie_key m" "ie_key m < ie_key b"
    and fits: "key_fits (ie_key a)" "key_fits (ie_key m)" "key_fits (ie_key b)"
    and big: "header_size + (length (ie_key a) + 12) + (length (ie_key m) + 12) > MAX_PAGE_PAYLOAD"
      "header_size + (length (ie_key m) + 12) + (length (ie_key b) + 12) > MAX_PAGE_PAYLOAD"
  shows "edit_plan E s cache (Some \<lparr>root_page = pid, root_height = 1, root_entries = 2\<rparr>) [Upsert m] al \<noteq> (Inr plan, ed)"
proof
  let ?r = "\<lparr>root_page = pid, root_height = 1, root_entries = 2\<rparr>"
  define ed0 where "ed0 = \<lparr>ed_cache = cache, ed_allocator = al, ed_root = Some ?r, overlay = []\<rparr>"
  assume "edit_plan E s cache (Some ?r) [Upsert m] al = (Inr plan, ed)"
  then have st: "editor_apply E s (Upsert m) ed0 = (Inr (), ed)" "editor_finish ed = Inr plan"
    by (auto simp: edit_plan_def ed0_def elim!: try_then_okE)
  have read: "\<exists>c'. editor_read E s pid ed1 = (Inr (Leaf [a, b] nx), ed1\<lparr>ed_cache := c'\<rparr>) \<and> coherent E s c'"
    if "overlay ed1 = []" "coherent E s (ed_cache ed1)" for ed1
  proof -
    from read_node_coherent [OF that(2), of pid]
    obtain c' where "read_node E s pid (ed_cache ed1) = (Inr (Leaf [a, b] nx), c')" "coherent E s c'" unfolding ld by blast
    with that(1) show ?thesis by (intro exI [of _ c']) (simp add: editor_read_def)
  qed
  obtain c1 where c1: "editor_read E s pid ed0 = (Inr (Leaf [a, b] nx), ed0\<lparr>ed_cache := c1\<rparr>)" "coherent E s c1"
    using read [of ed0] coh unfolding ed0_def by auto
  obtain c2 where c2: "editor_read E s pid (ed0\<lparr>ed_cache := c1\<rparr>) = (Inr (Leaf [a, b] nx), ed0\<lparr>ed_cache := c2\<rparr>)"
    using read [of "ed0\<lparr>ed_cache := c1\<rparr>"] c1(2) unfolding ed0_def by auto
  have key: "mutation_key (Upsert m) = Inr (ie_key m, Some (ie_value m))"
    using fits(2) check_sizes_fit [of "[m]"] by (simp add: mutation_key_def validate_entries_def)
  have "ie_key b \<noteq> ie_key m" "\<not> ie_key b < ie_key m" using ord(2) by auto
  then have "binary_search ie_key (ie_key m) [a, b] = Inl 1"
    using ord(1) by (simp add: binary_search.simps partition_point_def)
  then have ch: "change_leaf (ie_key m) (Some (ie_value m)) [a, b] = Some ([a, m, b], Added)"
    by (simp add: change_leaf_def)
  have fk: "first_key E s [] pid ed0 = (Inr (ie_key a), ed0\<lparr>ed_cache := c1\<rparr>)"
    using c1(1) by (simp add: first_key.simps [of E s "[]"])
  have ds: "edit_descend E s (ie_key m) 0 pid (ie_key a) [] (ed0\<lparr>ed_cache := c1\<rparr>) = (Inr ([a, b], []), ed0\<lparr>ed_cache := c2\<rparr>)"
    using c2 by (simp add: edit_descend.simps [of E s _ 0])
  have "apply_to_tree E s ?r (ie_key m) (Some (ie_value m)) ed0 = (Inr (), ed)"
    using st(1) key by (simp add: editor_apply_def ed0_def)
  then obtain repl ed1 n where r: "make_leaves [a, m, b] (ed0\<lparr>ed_cache := c2\<rparr>) = (Inr repl, ed1)"
    "install_root repl 1 n ed1 = (Inr (), ed)"
    using fk ds ch by (auto simp: apply_to_tree_def split: sum.splits elim!: try_then_okE)
  have "make_leaves_from [a, m, b] [(0, 1), (1, 2), (2, 3)] (ed0\<lparr>ed_cache := c2\<rparr>) = (Inr repl, ed1)"
    using r(1) partition_three [OF fits big] by (simp add: make_leaves_def)
  then obtain p q t where repl: "repl = [\<lparr>ch_key = ie_key a, ch_page = p\<rparr>, \<lparr>ch_key = ie_key m, ch_page = q\<rparr>,
      \<lparr>ch_key = ie_key b, ch_page = t\<rparr>]"
    by (auto elim!: try_then_okE)
  then obtain rp ed2 where al: "editor_allocate (internal_of 1 repl) ed1 = (Inr rp, ed2)"
    "ed = ed2\<lparr>ed_root := Some \<lparr>root_page = rp, root_height = 2, root_entries = n\<rparr>\<rparr>"
    using r(2) by (auto simp: install_root_def elim!: try_then_okE)
  have ov: "map_of (overlay ed) rp = Some (internal_of 1 repl)" "ed_root ed = Some \<lparr>root_page = rp, root_height = 2, root_entries = n\<rparr>"
    using al by (auto simp: editor_allocate_def update_conv' split: prod.splits sum.splits list.splits)
  obtain R where R: "reach_overlay (overlay ed) [] [rp] = Inr R"
    "encode_pages (overlay ed) (sort (filter (\<lambda>p. map_of (overlay ed) p \<noteq> None) R)) = Inr (plan_writes plan)"
    using st(2) ov(2) by (auto simp: editor_finish_def Let_def split: sum.splits)
  have "rp \<in> set R" using reach_overlay_ok [OF R(1)] by simp
  then obtain bs where "node_encode (internal_of 1 repl) = Inr bs" using encode_pages_ok(2) [OF R(2), of rp] ov(1) by auto
  from encode_size [OF this] big(2) show False
    by (simp add: repl internal_of_def node_size_def header_size_def node_consts)
qed

section \<open>Properties\<close>

text \<open>C26: a copy-on-write edit is exact and leaves the past alone: once the plan of an edit is
  committed, lookups in the new generation answer as the old entries with the mutations applied in
  order, and lookups in the old generation still answer as before.\<close>

theorem edited_tree_answers:
  assumes "store_inv (env_crc E) (gc_store g) L base xs" "represents (store_nodes E (gc_store g)) root es ps"
    "alloc_ok (allocator (gc_store g))" "\<forall>p\<in>set ps. claimed (allocator (gc_store g)) p"
    "coherent E (gc_store g) cache"
    "edit_plan E (gc_store g) cache root ms (allocator (gc_store g)) = (Inr plan, ed)" "pages_fit (ed_allocator ed)"
    "client_call (env_crc E) (commit_relaxed (plan_writes plan) n)
      (g\<lparr>gc_store := (gc_store g)\<lparr>allocator := ed_allocator ed\<rparr>\<rparr>) = (Inr ls, g')"
  shows "(case plan_root plan of None \<Rightarrow> Inr None | Some r \<Rightarrow> fst (tree_get E (gc_store g') r key None)) =
      Inr (fold mutate ms (entry_map es) key) \<and>
    (case root of None \<Rightarrow> Inr None | Some r \<Rightarrow> fst (tree_get E (gc_store g') r key None)) = Inr (entry_map es key)"
proof -
  note e = edit_in_store [OF assms]
  obtain es' ps' where "represents (store_nodes E (gc_store g')) (plan_root plan) es' ps'"
    "entry_map es' = fold mutate ms (entry_map es)" using e(1) by blast
  with represented_get [OF this(1), of key] represented_get [OF e(2), of key] show ?thesis by simp
qed

theorem edited_tree_answers_witness:
  "\<exists>plan ed ls g'. edit_plan sample_env fresh_store None None [Delete [9], Upsert \<lparr>ie_key = [1], ie_value = 7\<rparr>]
      (allocator fresh_store) = (Inr plan, ed) \<and>
    client_call byte_sum (commit_relaxed (plan_writes plan) 0)
      (fresh_committer\<lparr>gc_store := fresh_store\<lparr>allocator := ed_allocator ed\<rparr>\<rparr>) = (Inr ls, g') \<and>
    (case plan_root plan of None \<Rightarrow> Inr None | Some r \<Rightarrow> fst (tree_get sample_env (gc_store g') r [1] None)) = Inr (Some 7)"
proof -
  let ?ms = "[Delete [9], Upsert \<lparr>ie_key = [1], ie_value = 7\<rparr>]"
  have a0: "allocator fresh_store = \<lparr>next_page_id = 0, free_pages = []\<rparr>" by (simp add: fresh_store_def)
  obtain plan ed where e: "edit_plan sample_env fresh_store None None ?ms (allocator fresh_store) = (Inr plan, ed)"
    "ed_allocator ed = \<lparr>next_page_id = 1, free_pages = []\<rparr>"
    "plan_writes plan = [\<lparr>pw_page_id = 0, pw_payload = node_image (Leaf [\<lparr>ie_key = [1], ie_value = 7\<rparr>] None)\<rparr>]"
    using sample_edit unfolding a0 by blast
  let ?s = "fresh_store\<lparr>allocator := ed_allocator ed\<rparr>"
  have ready: "wal_ready (Suc (length (plan_writes plan))) (st_wal ?s)"
    by (rule wal_ready_le [of 2]) (use fresh_store_ready [of 2] e(3) in simp_all)
  have small: "node_size (Leaf [\<lparr>ie_key = [1], ie_value = 7\<rparr>] None) \<le> MAX_PAGE_PAYLOAD" by (simp add: node_size_def page_consts)
  then obtain wl s' where b: "apply_batch byte_sum (plan_writes plan) [] False ?s = (Inr (wl, []), s')"
    using apply_batch_total [OF ready, of byte_sum False] fresh_store_durable(2) e(3) by (auto simp: NO_PAGE_ID_def)
  obtain ls g' where c: "client_call byte_sum (commit_relaxed (plan_writes plan) 0)
      (fresh_committer\<lparr>gc_store := ?s\<rparr>) = (Inr ls, g')"
    using b small e(3)
    by (simp add: client_call_def commit_relaxed_def commit_with_def submit_def execute_group_def Let_def)
  have g: "gc_store fresh_committer = fresh_store" by (simp add: fresh_committer_def)
  have inv: "store_inv (env_crc sample_env) (gc_store fresh_committer) (\<lambda>_. []) (\<lambda>_. None) []"
    using fresh_store_inv by (simp add: g)
  have "represents (store_nodes sample_env (gc_store fresh_committer)) None [] []" by (simp add: represents_def)
  note t = edited_tree_answers [OF inv this]
  have "(case plan_root plan of None \<Rightarrow> Inr None | Some r \<Rightarrow> fst (tree_get sample_env (gc_store g') r [1] None)) =
      Inr (fold mutate ?ms (entry_map []) [1])"
    using t [of None ?ms plan ed 0 ls g' "[1]"] e c fresh_committer_build(1)
    by (simp add: g cache_coherent_def cache_lookup_def pages_fit_def page_consts sample_env_def)
  then show ?thesis using e(1) c by (auto simp: mutate_def)
qed

text \<open>C29: an insertion of a legal key into a one-leaf index can be refused for good. When the new
  key lies between two entries and shares a page with neither, the root splits into three leaves
  whose two separators do not fit one node. An edit puts them into one node all the same and fails,
  although an index of the same three entries can be built from scratch.\<close>

theorem edit_refuses_legal_insert:
  assumes "load_node E s pid = Inr (Leaf [a, b] nx)" "coherent E s cache" "ie_key a < ie_key m" "ie_key m < ie_key b"
    "key_fits (ie_key a)" "key_fits (ie_key m)" "key_fits (ie_key b)"
    "header_size + (length (ie_key a) + 12) + (length (ie_key m) + 12) > MAX_PAGE_PAYLOAD"
    "header_size + (length (ie_key m) + 12) + (length (ie_key b) + 12) > MAX_PAGE_PAYLOAD" "room al 9"
  shows "(\<exists>e ed. edit_plan E s cache (Some \<lparr>root_page = pid, root_height = 1, root_entries = 2\<rparr>) [Upsert m] al = (Inl e, ed)) \<and>
    (\<exists>plan al'. plan_index [a, m, b] al = (Inr plan, al'))"
proof
  show "\<exists>e ed. edit_plan E s cache (Some \<lparr>root_page = pid, root_height = 1, root_entries = 2\<rparr>) [Upsert m] al = (Inl e, ed)"
    using root_split_refused [OF assms(1-9)] by (metis sum.exhaust surj_pair)
  have "sorted_keys [a, m, b]" using assms(3,4) by (auto intro: less_trans)
  from plan_index_total [OF this, of 2 al] assms(5-7,10)
  show "\<exists>plan al'. plan_index [a, m, b] al = (Inr plan, al')" by auto
qed

definition wide_pages :: store where
  "wide_pages = fresh_store\<lparr>dirty := [(0, \<lparr>page_id = 0, page_lsn = 1, page_payload = node_image
    (Leaf [\<lparr>ie_key = [1], ie_value = 7\<rparr>, \<lparr>ie_key = 3 # replicate 99 0, ie_value = 8\<rparr>] None)\<rparr>)]\<rparr>"

theorem edit_refuses_legal_insert_witness:
  "\<exists>e ed. edit_plan sample_env wide_pages None (Some \<lparr>root_page = 0, root_height = 1, root_entries = 2\<rparr>)
    [Upsert \<lparr>ie_key = 2 # replicate 8079 0, ie_value = 9\<rparr>] \<lparr>next_page_id = 1, free_pages = []\<rparr> = (Inl e, ed)"
proof -
  let ?a = "\<lparr>ie_key = [1], ie_value = 7\<rparr> :: index_entry" and ?b = "\<lparr>ie_key = 3 # replicate 99 0, ie_value = 8\<rparr> :: index_entry"
  have "node_decode 0 (node_image (Leaf [?a, ?b] None)) = Inr (Leaf [?a, ?b] None)"
    by (rule node_decode_image) (simp add: node_size_def page_consts)
  then have "load_node sample_env wide_pages 0 = Inr (Leaf [?a, ?b] None)"
    by (simp add: load_node_def shared_read_page_def dirty_get_def wide_pages_def)
  from edit_refuses_legal_insert [OF this, of None "\<lparr>ie_key = 2 # replicate 8079 0, ie_value = 9\<rparr>" "\<lparr>next_page_id = 1, free_pages = []\<rparr>"]
  show ?thesis
    by (simp add: cache_coherent_def cache_lookup_def header_size_def node_consts page_consts room_def)
qed

end
