(* ===== verification/Mvcc_Record.thy ===== *)
theory Mvcc_Record
  imports Index_Edit
begin

unbundle bit_operations_syntax

text \<open>
  Model of \<open>mvcc/src/error.rs\<close>, \<open>mvcc/src/record.rs\<close> and \<open>mvcc/src/index_manifest.rs\<close>: the errors of the
  transaction layer, version records, which are packed back to back into pages, and the manifest
  page of an index generation. The size of a record in memory, which only cache accounting uses,
  is a parameter.
\<close>

section \<open>Errors\<close>

datatype transaction_error =
    TxStorage storage_error
  | TxIndex index_error
  | WriteConflict bytes
  | RangeConflict bytes
  | Inactive
  | RecordTooLarge nat nat
  | CorruptRecord u64 reason
  | TransactionIdExhausted
  | TimestampExhausted
  | StatePoisoned

section \<open>Version records\<close>

definition RECORD_MAGIC :: bytes where "RECORD_MAGIC = [0x51, 0x4E, 0x4D, 0x56]"
definition RECORD_FORMAT_VERSION :: u16 where "RECORD_FORMAT_VERSION = 1"
definition RECORD_HEADER_SIZE :: nat where "RECORD_HEADER_SIZE = 32"
definition FLAG_TOMBSTONE :: u16 where "FLAG_TOMBSTONE = 1"
definition RESERVED_OFFSET :: nat where "RESERVED_OFFSET = 24"

record version_record =
  vr_timestamp :: u64
  vr_key :: bytes
  vr_value :: "bytes option"

definition value_length :: "bytes option \<Rightarrow> nat" where
  "value_length v = (case v of None \<Rightarrow> 0 | Some bs \<Rightarrow> length bs)"

definition record_bytes :: "nat \<Rightarrow> version_record \<Rightarrow> nat" where
  "record_bytes record_size r = record_size + length (vr_key r) + value_length (vr_value r)"

definition validate_size :: "bytes \<Rightarrow> bytes option \<Rightarrow> transaction_error + unit" where
  "validate_size key val =
    (case Option.bind (checked_add_usize RECORD_HEADER_SIZE (length key))
        (\<lambda>len. checked_add_usize len (value_length val)) of
       None \<Rightarrow> Inl (RecordTooLarge usize_max MAX_PAGE_PAYLOAD)
     | Some actual \<Rightarrow>
         if actual > MAX_PAGE_PAYLOAD then Inl (RecordTooLarge actual MAX_PAGE_PAYLOAD) else Inr ())"

definition record_write_u16 :: "bytes \<Rightarrow> nat \<Rightarrow> u16 \<Rightarrow> bytes" where
  "record_write_u16 bs offset v = patch bs offset (le_u16 v)"

definition record_write_u32 :: "bytes \<Rightarrow> nat \<Rightarrow> u32 \<Rightarrow> bytes" where
  "record_write_u32 bs offset v = patch bs offset (le_u32 v)"

definition record_write_u64 :: "bytes \<Rightarrow> nat \<Rightarrow> u64 \<Rightarrow> bytes" where
  "record_write_u64 bs offset v = patch bs offset (le_u64 v)"

definition record_read_u16 :: "bytes \<Rightarrow> nat \<Rightarrow> u16" where
  "record_read_u16 bs offset = of_le_u16 (slice bs offset (offset + 2))"

definition record_read_u32 :: "bytes \<Rightarrow> nat \<Rightarrow> u32" where
  "record_read_u32 bs offset = of_le_u32 (slice bs offset (offset + 4))"

definition record_read_u64 :: "bytes \<Rightarrow> nat \<Rightarrow> u64" where
  "record_read_u64 bs offset = of_le_u64 (slice bs offset (offset + 8))"

lemmas record_fields =
  record_write_u16_def record_write_u32_def record_write_u64_def
  record_read_u16_def record_read_u32_def record_read_u64_def

lemmas record_consts =
  RECORD_MAGIC_def RECORD_FORMAT_VERSION_def RECORD_HEADER_SIZE_def FLAG_TOMBSTONE_def RESERVED_OFFSET_def

definition record_corrupt :: "u64 \<Rightarrow> string \<Rightarrow> nat list \<Rightarrow> transaction_error" where
  "record_corrupt pid msg ns = CorruptRecord pid (Reason msg ns)"

definition record_encode :: "version_record \<Rightarrow> transaction_error + bytes" where
  "record_encode r =
    (case validate_size (vr_key r) (vr_value r) of
       Inl e \<Rightarrow> Inl e
     | Inr _ \<Rightarrow>
         let bs = replicate (RECORD_HEADER_SIZE + length (vr_key r) + value_length (vr_value r)) 0;
             bs = patch bs 0 RECORD_MAGIC;
             bs = record_write_u16 bs 4 RECORD_FORMAT_VERSION;
             bs = (if vr_value r = None then record_write_u16 bs 6 FLAG_TOMBSTONE else bs);
             bs = record_write_u64 bs 8 (vr_timestamp r);
             bs = record_write_u32 bs 16 (word_of_nat (length (vr_key r)));
             bs = record_write_u32 bs 20 (word_of_nat (value_length (vr_value r)));
             bs = patch bs RECORD_HEADER_SIZE (vr_key r);
             bs = (case vr_value r of
                 None \<Rightarrow> bs
               | Some v \<Rightarrow> patch bs (RECORD_HEADER_SIZE + length (vr_key r)) v)
         in Inr bs)"

definition decode_at :: "u64 \<Rightarrow> bytes \<Rightarrow> nat \<Rightarrow> transaction_error + (version_record \<times> nat) option" where
  "decode_at pid page offset =
    (if offset > length page then Inr None
     else let bs = drop offset page in
     if length bs < 4 \<or> slice bs 0 4 \<noteq> RECORD_MAGIC then Inr None
     else if length bs < RECORD_HEADER_SIZE then Inl (record_corrupt pid ''record is shorter than its header'' [])
     else let version = record_read_u16 bs 4 in
     if version \<noteq> RECORD_FORMAT_VERSION
     then Inl (record_corrupt pid ''unsupported record format version {version}'' [unat version])
     else let flags = record_read_u16 bs 6 in
     if flags AND NOT FLAG_TOMBSTONE \<noteq> 0
     then Inl (record_corrupt pid ''unknown flags {flags:#06x}'' [unat flags])
     else if list_ex (\<lambda>b. b \<noteq> 0) (slice bs RESERVED_OFFSET RECORD_HEADER_SIZE)
     then Inl (record_corrupt pid ''reserved header bytes are not zero'' [])
     else let timestamp = record_read_u64 bs 8 in
     if timestamp = 0 then Inl (record_corrupt pid ''commit timestamp cannot be zero'' [])
     else let key_len = unat (record_read_u32 bs 16);
              value_len = unat (record_read_u32 bs 20) in
     (case Option.bind (checked_add_usize RECORD_HEADER_SIZE key_len)
         (\<lambda>len. checked_add_usize len value_len) of
        None \<Rightarrow> Inl (record_corrupt pid ''record length overflow'' [])
      | Some expected_length \<Rightarrow>
          if expected_length > length bs
          then Inl (record_corrupt pid
            ''record length mismatch: header declares {expected_length}, page contains {}''
            [expected_length, length bs])
          else let tombstone = (flags AND FLAG_TOMBSTONE \<noteq> 0) in
          if tombstone \<and> value_len \<noteq> 0 then Inl (record_corrupt pid ''tombstone contains a value'' [])
          else Inr (Some (\<lparr>vr_timestamp = timestamp,
            vr_key = slice bs RECORD_HEADER_SIZE (RECORD_HEADER_SIZE + key_len),
            vr_value = (if tombstone then None
              else Some (slice bs (RECORD_HEADER_SIZE + key_len) expected_length))\<rparr>, expected_length))))"

lemma decode_at_bounds:
  assumes "decode_at pid page offset = Inr (Some (r, len))"
  shows "32 \<le> len" "offset + len \<le> length page"
proof -
  have "offset \<le> length page" using assms by (auto simp: decode_at_def split: if_splits)
  moreover obtain len' where "checked_add_usize RECORD_HEADER_SIZE (unat (record_read_u32 (drop offset page) 16)) = Some len'"
    "checked_add_usize len' (unat (record_read_u32 (drop offset page) 20)) = Some len" "len \<le> length (drop offset page)"
    using assms by (auto simp: decode_at_def Let_def split: if_splits option.splits bind_splits)
  ultimately show "32 \<le> len" "offset + len \<le> length page"
    by (auto simp: checked_add_usize_def record_consts split: if_splits)
qed

lemma decode_at_progress:
  "decode_at pid page offset = Inr (Some (r, len)) \<Longrightarrow> length page - (offset + len) < length page - offset"
  using decode_at_bounds [of pid page offset r len] by linarith

function decode_from :: "u64 \<Rightarrow> bytes \<Rightarrow> nat \<Rightarrow> transaction_error + version_record list" where
  "decode_from pid page cursor =
    (case decode_at pid page cursor of
       Inl e \<Rightarrow> Inl e
     | Inr None \<Rightarrow> Inr []
     | Inr (Some (r, len)) \<Rightarrow>
         (case decode_from pid page (cursor + len) of
            Inl e \<Rightarrow> Inl e
          | Inr rs \<Rightarrow> Inr (r # rs)))"
  by pat_completeness auto
termination
  by (relation "measure (\<lambda>(pid, page, cursor). length page - cursor)") (auto dest!: decode_at_progress)

declare decode_from.simps [simp del]

definition decode_page :: "u64 \<Rightarrow> bytes \<Rightarrow> transaction_error + version_record list" where
  "decode_page pid bs = decode_from pid bs 0"

section \<open>Index manifests\<close>

definition MANIFEST_MAGIC :: bytes where "MANIFEST_MAGIC = [0x51, 0x4E, 0x49, 0x52]"
definition MANIFEST_FORMAT_VERSION :: u16 where "MANIFEST_FORMAT_VERSION = 1"
definition ENCODED_SIZE :: nat where "ENCODED_SIZE = 48"
definition FLAG_HAS_ROOT :: u16 where "FLAG_HAS_ROOT = 1"

lemmas manifest_consts = MANIFEST_MAGIC_def MANIFEST_FORMAT_VERSION_def ENCODED_SIZE_def FLAG_HAS_ROOT_def

record index_generation =
  gen_timestamp :: u64
  gen_root :: "index_root option"
  manifest_page_id :: u64

definition manifest_write_u16 :: "bytes \<Rightarrow> nat \<Rightarrow> u16 \<Rightarrow> bytes" where
  "manifest_write_u16 bs offset v = patch bs offset (le_u16 v)"

definition manifest_write_u64 :: "bytes \<Rightarrow> nat \<Rightarrow> u64 \<Rightarrow> bytes" where
  "manifest_write_u64 bs offset v = patch bs offset (le_u64 v)"

definition manifest_read_u16 :: "bytes \<Rightarrow> nat \<Rightarrow> u16" where
  "manifest_read_u16 bs offset = of_le_u16 (slice bs offset (offset + 2))"

definition manifest_read_u64 :: "bytes \<Rightarrow> nat \<Rightarrow> u64" where
  "manifest_read_u64 bs offset = of_le_u64 (slice bs offset (offset + 8))"

lemmas manifest_fields =
  manifest_write_u16_def manifest_write_u64_def manifest_read_u16_def manifest_read_u64_def

definition generation_encode :: "index_generation \<Rightarrow> bytes" where
  "generation_encode g =
    (let root = gen_root g;
         bs = replicate ENCODED_SIZE 0;
         bs = patch bs 0 MANIFEST_MAGIC;
         bs = manifest_write_u16 bs 4 MANIFEST_FORMAT_VERSION;
         bs = (if root \<noteq> None then manifest_write_u16 bs 6 FLAG_HAS_ROOT else bs);
         bs = manifest_write_u64 bs 8 (gen_timestamp g);
         bs = manifest_write_u64 bs 16 (case root of None \<Rightarrow> NO_PAGE | Some r \<Rightarrow> root_page r);
         bs = manifest_write_u16 bs 24 (case root of None \<Rightarrow> 0 | Some r \<Rightarrow> root_height r)
     in manifest_write_u64 bs 32 (case root of None \<Rightarrow> 0 | Some r \<Rightarrow> root_entries r))"

definition generation_decode :: "u64 \<Rightarrow> bytes \<Rightarrow> transaction_error + index_generation option" where
  "generation_decode pid bs =
    (if length bs < 4 \<or> slice bs 0 4 \<noteq> MANIFEST_MAGIC then Inr None
     else if length bs \<noteq> ENCODED_SIZE then Inl (record_corrupt pid ''manifest length is not 48 bytes'' [])
     else let version = manifest_read_u16 bs 4 in
     if version \<noteq> MANIFEST_FORMAT_VERSION
     then Inl (record_corrupt pid ''unsupported index manifest version {version}'' [unat version])
     else let flags = manifest_read_u16 bs 6 in
     if flags AND NOT FLAG_HAS_ROOT \<noteq> 0
     then Inl (record_corrupt pid ''unknown manifest flags {flags:#06x}'' [unat flags])
     else if list_ex (\<lambda>b. b \<noteq> 0) (slice bs 26 32) \<or> list_ex (\<lambda>b. b \<noteq> 0) (slice bs 40 48)
     then Inl (record_corrupt pid ''reserved manifest bytes are not zero'' [])
     else let timestamp = manifest_read_u64 bs 8;
              root_page_id = manifest_read_u64 bs 16;
              height = manifest_read_u16 bs 24;
              entries = manifest_read_u64 bs 32 in
     if flags AND FLAG_HAS_ROOT \<noteq> 0
     then (if root_page_id = NO_PAGE \<or> height = 0 \<or> entries = 0
           then Inl (record_corrupt pid ''root metadata is incomplete'' [])
           else Inr (Some \<lparr>gen_timestamp = timestamp,
             gen_root = Some \<lparr>root_page = root_page_id, root_height = height, root_entries = entries\<rparr>,
             manifest_page_id = pid\<rparr>))
     else (if root_page_id \<noteq> NO_PAGE \<or> height \<noteq> 0 \<or> entries \<noteq> 0
           then Inl (record_corrupt pid ''empty generation contains root metadata'' [])
           else Inr (Some \<lparr>gen_timestamp = timestamp, gen_root = None, manifest_page_id = pid\<rparr>)))"

section \<open>Round trips\<close>

definition record_image :: "version_record \<Rightarrow> bytes" where
  "record_image r =
    RECORD_MAGIC @ le_u16 RECORD_FORMAT_VERSION @ le_u16 (if vr_value r = None then FLAG_TOMBSTONE else 0) @
    le_u64 (vr_timestamp r) @ le_u32 (word_of_nat (length (vr_key r))) @
    le_u32 (word_of_nat (value_length (vr_value r))) @ replicate 8 0 @
    vr_key r @ (case vr_value r of None \<Rightarrow> [] | Some v \<Rightarrow> v)"

definition record_size :: "version_record \<Rightarrow> nat" where
  "record_size r = 32 + length (vr_key r) + value_length (vr_value r)"

lemma length_record_image [simp]: "length (record_image r) = record_size r"
  by (auto simp: record_image_def record_size_def value_length_def RECORD_MAGIC_def split: option.splits)

lemma validate_size_ok: "validate_size k v = Inr () \<longleftrightarrow> 32 + length k + value_length v \<le> MAX_PAGE_PAYLOAD"
  by (auto simp: validate_size_def checked_add_usize_def record_consts page_consts usize_max_def
      split: option.splits bind_splits if_splits)

lemma le_u16_0: "le_u16 0 = [0, 0]"
  by (simp add: le_u16_def numeral_2_eq_2)

lemma patch_field:
  "off = length pre \<Longrightarrow> length new \<le> m \<Longrightarrow> m' = m - length new \<Longrightarrow>
    patch (pre @ replicate m 0) off new = (pre @ new) @ replicate m' 0"
  by (simp add: patch_zeros)

lemma record_encode_eq:
  assumes "record_size r \<le> MAX_PAGE_PAYLOAD"
  shows "record_encode r = Inr (record_image r)"
proof -
  have v: "validate_size (vr_key r) (vr_value r) = Inr ()"
    using assms by (simp add: validate_size_ok record_size_def)
  let ?n = "length (vr_key r) + value_length (vr_value r)"
  have h1: "patch (replicate (RECORD_HEADER_SIZE + length (vr_key r) + value_length (vr_value r)) 0) 0 RECORD_MAGIC =
      RECORD_MAGIC @ replicate (28 + ?n) 0"
  proof -
    have "RECORD_HEADER_SIZE + length (vr_key r) + value_length (vr_value r) = 32 + ?n"
      by (simp add: RECORD_HEADER_SIZE_def)
    moreover have "patch ([] @ replicate (32 + ?n) 0) 0 RECORD_MAGIC = ([] @ RECORD_MAGIC) @ replicate (28 + ?n) 0"
      by (rule patch_field) (simp_all add: RECORD_MAGIC_def)
    ultimately show ?thesis by (simp only: append_Nil)
  qed
  have h2: "record_write_u16 (RECORD_MAGIC @ replicate (28 + ?n) 0) 4 RECORD_FORMAT_VERSION =
      (RECORD_MAGIC @ le_u16 RECORD_FORMAT_VERSION) @ replicate (26 + ?n) 0"
    unfolding record_fields by (rule patch_field) (simp_all add: RECORD_MAGIC_def)
  let ?f = "le_u16 (if vr_value r = None then FLAG_TOMBSTONE else 0)"
  let ?p2 = "RECORD_MAGIC @ le_u16 RECORD_FORMAT_VERSION"
  have h3: "(if vr_value r = None then record_write_u16 (?p2 @ replicate (26 + ?n) 0) 6 FLAG_TOMBSTONE
      else ?p2 @ replicate (26 + ?n) 0) = (?p2 @ ?f) @ replicate (24 + ?n) 0"
  proof (cases "vr_value r = None")
    case True
    have "record_write_u16 (?p2 @ replicate (26 + ?n) 0) 6 FLAG_TOMBSTONE = (?p2 @ le_u16 FLAG_TOMBSTONE) @ replicate (24 + ?n) 0"
      unfolding record_fields by (rule patch_field) (simp_all add: RECORD_MAGIC_def)
    then show ?thesis using True by simp
  next
    case False
    have "replicate (26 + ?n) (0 :: u8) = [0, 0] @ replicate (24 + ?n) 0"
      using replicate_add [of 2 "24 + ?n" "0 :: u8"] by (simp add: numeral_2_eq_2)
    then show ?thesis using False by (simp only: if_False le_u16_0 append.assoc)
  qed
  have h4: "record_write_u64 ((?p2 @ ?f) @ replicate (24 + ?n) 0) 8 (vr_timestamp r) =
      ((?p2 @ ?f) @ le_u64 (vr_timestamp r)) @ replicate (16 + ?n) 0"
    unfolding record_fields by (rule patch_field) (simp_all add: RECORD_MAGIC_def)
  let ?p4 = "(?p2 @ ?f) @ le_u64 (vr_timestamp r)"
  have h5: "record_write_u32 (?p4 @ replicate (16 + ?n) 0) 16 k = (?p4 @ le_u32 k) @ replicate (12 + ?n) 0" for k
    unfolding record_fields by (rule patch_field) (simp_all add: RECORD_MAGIC_def)
  let ?p5 = "?p4 @ le_u32 (word_of_nat (length (vr_key r)))"
  have h6: "record_write_u32 (?p5 @ replicate (12 + ?n) 0) 20 k = ((?p5 @ le_u32 k) @ replicate 8 0) @ replicate ?n 0" for k
  proof -
    have "record_write_u32 (?p5 @ replicate (12 + ?n) 0) 20 k = (?p5 @ le_u32 k) @ replicate (8 + ?n) 0"
      unfolding record_fields by (rule patch_field) (simp_all add: RECORD_MAGIC_def)
    then show ?thesis by (simp add: replicate_add)
  qed
  let ?p6 = "(?p5 @ le_u32 (word_of_nat (value_length (vr_value r)))) @ replicate 8 0"
  have h7: "patch (?p6 @ replicate ?n 0) RECORD_HEADER_SIZE (vr_key r) = (?p6 @ vr_key r) @ replicate (value_length (vr_value r)) 0"
    by (rule patch_field) (simp_all add: RECORD_MAGIC_def RECORD_HEADER_SIZE_def)
  have h8: "patch ((?p6 @ vr_key r) @ replicate (length v) 0) (RECORD_HEADER_SIZE + length (vr_key r)) v = (?p6 @ vr_key r) @ v" for v
    using patch_field [of "RECORD_HEADER_SIZE + length (vr_key r)" "?p6 @ vr_key r" v "length v" 0]
    by (simp add: RECORD_MAGIC_def RECORD_HEADER_SIZE_def)
  show ?thesis
    unfolding record_encode_def v sum.case Let_def h1 h2 h3 h4 h5 h6 h7
    using h8 by (cases "vr_value r") (simp_all add: record_image_def value_length_def)
qed

definition version_header :: "u16 \<Rightarrow> u64 \<Rightarrow> u32 \<Rightarrow> u32 \<Rightarrow> bytes" where
  "version_header f ts kl vl =
    RECORD_MAGIC @ le_u16 RECORD_FORMAT_VERSION @ le_u16 f @ le_u64 ts @ le_u32 kl @ le_u32 vl @ replicate 8 0"

lemma length_version_header [simp]: "length (version_header f ts kl vl) = 32"
  by (simp add: version_header_def RECORD_MAGIC_def)

lemma version_header_fields [simp]:
  "slice (version_header f ts kl vl @ xs) 0 4 = RECORD_MAGIC"
  "record_read_u16 (version_header f ts kl vl @ xs) 4 = RECORD_FORMAT_VERSION"
  "record_read_u16 (version_header f ts kl vl @ xs) 6 = f"
  "record_read_u64 (version_header f ts kl vl @ xs) 8 = ts"
  "record_read_u32 (version_header f ts kl vl @ xs) 16 = kl"
  "record_read_u32 (version_header f ts kl vl @ xs) 20 = vl"
  "slice (version_header f ts kl vl @ xs) 24 32 = replicate 8 0"
  by (simp_all add: version_header_def record_fields slice_def RECORD_MAGIC_def)

lemma version_header_canonical:
  assumes "32 \<le> length bs" "slice bs 0 4 = RECORD_MAGIC" "record_read_u16 bs 4 = RECORD_FORMAT_VERSION"
    "\<not> list_ex (\<lambda>b. b \<noteq> 0) (slice bs 24 32)"
  shows "take 32 bs = version_header (record_read_u16 bs 6) (record_read_u64 bs 8) (record_read_u32 bs 16) (record_read_u32 bs 20)"
proof -
  have f: "slice bs 4 6 = le_u16 RECORD_FORMAT_VERSION" "slice bs 6 8 = le_u16 (record_read_u16 bs 6)"
    "slice bs 8 16 = le_u64 (record_read_u64 bs 8)" "slice bs 16 20 = le_u32 (record_read_u32 bs 16)"
    "slice bs 20 24 = le_u32 (record_read_u32 bs 20)" "slice bs 24 32 = replicate 8 0"
    using assms zeros_replicate [OF assms(4)]
    by (simp_all add: record_fields le_u16_of_le le_u32_of_le le_u64_of_le flip: assms(3))
  have "slice bs 0 4 @ slice bs 4 6 @ slice bs 6 8 @ slice bs 8 16 @ slice bs 16 20 @ slice bs 20 24 @
    slice bs 24 32 = slice bs 0 32"
    using assms(1) by (simp add: slice_concat)
  then have "take 32 bs = slice bs 0 4 @ slice bs 4 6 @ slice bs 6 8 @ slice bs 8 16 @ slice bs 16 20 @
    slice bs 20 24 @ slice bs 24 32"
    by (simp add: slice_def)
  then show ?thesis unfolding f assms(2) version_header_def .
qed

lemma flag_bit:
  "(f :: u16) AND NOT 1 = 0 \<Longrightarrow> f = (if f AND 1 \<noteq> 0 then 1 else 0)"
proof -
  assume "f AND NOT 1 = 0"
  moreover have "f = (f AND 1) OR (f AND NOT 1)"
    by (simp flip: bit.conj_disj_distrib)
  moreover have "f AND 1 = 0 \<or> f AND 1 = 1"
    by (simp add: and_one_eq) (metis not_mod_2_eq_0_eq_1)
  ultimately show ?thesis by auto
qed

definition record_ok :: "version_record \<Rightarrow> bool" where
  "record_ok r \<longleftrightarrow> vr_timestamp r \<noteq> 0 \<and> length (vr_key r) < 2 ^ 32 \<and> value_length (vr_value r) < 2 ^ 32"

lemma record_image_header:
  "record_image r = version_header (if vr_value r = None then FLAG_TOMBSTONE else 0) (vr_timestamp r)
    (word_of_nat (length (vr_key r))) (word_of_nat (value_length (vr_value r))) @
    vr_key r @ (case vr_value r of None \<Rightarrow> [] | Some v \<Rightarrow> v)"
  by (simp add: record_image_def version_header_def)

lemma decode_at_drop: "offset \<le> length page \<Longrightarrow> decode_at pid page offset = decode_at pid (drop offset page) 0"
  by (simp add: decode_at_def)

lemma decode_at_append: "decode_at pid (pre @ bs) (length pre) = decode_at pid bs 0"
  by (simp add: decode_at_def)

lemma decode_at_image:
  assumes "record_ok r"
  shows "decode_at pid (record_image r @ suf) 0 = Inr (Some (r, record_size r))"
proof -
  have n: "unat (word_of_nat (length (vr_key r)) :: u32) = length (vr_key r)"
    "unat (word_of_nat (value_length (vr_value r)) :: u32) = value_length (vr_value r)"
    using assms by (simp_all add: record_ok_def unat_word_of_nat_u32)
  show ?thesis
  proof (cases "vr_value r")
    case None
    then show ?thesis using assms n
      by (simp add: decode_at_def record_image_header Let_def record_ok_def value_length_def record_size_def
          list_ex_iff RECORD_HEADER_SIZE_def RESERVED_OFFSET_def FLAG_TOMBSTONE_def checked_add_usize_def
          usize_max_def slice_append_right slice_full)
  next
    case (Some v)
    then show ?thesis using assms n
      by (simp add: decode_at_def record_image_header Let_def record_ok_def value_length_def record_size_def
          list_ex_iff RECORD_HEADER_SIZE_def RESERVED_OFFSET_def FLAG_TOMBSTONE_def checked_add_usize_def
          usize_max_def slice_append_right slice_full)
  qed
qed

lemma decode_at_None: "decode_at pid bs 0 = Inr None \<longleftrightarrow> take 4 bs \<noteq> RECORD_MAGIC"
  by (auto simp: decode_at_def Let_def slice_def RECORD_MAGIC_def split: if_splits option.splits dest: arg_cong [of _ _ length])

lemma decode_at_Some:
  assumes "decode_at pid bs 0 = Inr (Some (r, len))"
  shows "record_ok r" "len = record_size r" "\<exists>suf. bs = record_image r @ suf"
proof -
  let ?f = "record_read_u16 bs 6" and ?kl = "record_read_u32 bs 16" and ?vl = "record_read_u32 bs 20"
  have h: "32 \<le> length bs" "slice bs 0 4 = RECORD_MAGIC" "record_read_u16 bs 4 = RECORD_FORMAT_VERSION"
    "\<not> list_ex (\<lambda>b. b \<noteq> 0) (slice bs 24 32)" "?f AND NOT 1 = 0" "record_read_u64 bs 8 \<noteq> 0"
    and len: "len = 32 + unat ?kl + unat ?vl" "len \<le> length bs"
    and tomb: "?f AND 1 \<noteq> 0 \<longrightarrow> ?vl = 0"
    and r: "r = \<lparr>vr_timestamp = record_read_u64 bs 8, vr_key = slice bs 32 (32 + unat ?kl),
      vr_value = (if ?f AND 1 \<noteq> 0 then None else Some (slice bs (32 + unat ?kl) len))\<rparr>"
    using assms
    by (auto simp: decode_at_def Let_def record_consts checked_add_usize_def unat_eq_zero split: if_splits option.splits bind_splits)
  have kl: "length (vr_key r) = unat ?kl" and vl: "value_length (vr_value r) = unat ?vl"
    using len tomb by (auto simp: r value_length_def)
  show ok: "record_ok r"
    using h(6) kl vl unat_u32_less [of ?kl] unat_u32_less [of ?vl] by (simp add: record_ok_def r)
  show size: "len = record_size r" using kl vl len by (simp add: record_size_def)
  have flag: "?f = (if vr_value r = None then FLAG_TOMBSTONE else 0)"
    using flag_bit [OF h(5)] by (auto simp: r FLAG_TOMBSTONE_def split: if_splits)
  have body: "vr_key r @ (case vr_value r of None \<Rightarrow> [] | Some v \<Rightarrow> v) = slice bs 32 len"
  proof (cases "?f AND 1 = 0")
    case True
    then show ?thesis using len by (simp add: r slice_concat)
  next
    case False
    then show ?thesis using tomb len by (simp add: r)
  qed
  have "bs = take 32 bs @ slice bs 32 len @ drop len bs"
  proof -
    have "take 32 bs = slice bs 0 32" "drop len bs = slice bs len (length bs)" by (simp_all add: slice_def)
    moreover have "slice bs 0 32 @ slice bs 32 len @ slice bs len (length bs) = bs"
      using len by (simp add: slice_concat slice_full)
    ultimately show ?thesis by simp
  qed
  then have "bs = record_image r @ drop len bs"
    unfolding version_header_canonical [OF h(1-4)] record_image_header body kl vl flag [symmetric]
    by (simp add: r)
  then show "\<exists>suf. bs = record_image r @ suf" by blast
qed

lemma decode_from_image:
  "list_all record_ok rs \<Longrightarrow> take 4 suf \<noteq> RECORD_MAGIC \<Longrightarrow>
    decode_from pid (pre @ concat (map record_image rs) @ suf) (length pre) = Inr rs"
proof (induction rs arbitrary: pre)
  case Nil
  then show ?case by (subst decode_from.simps) (simp add: decode_at_append decode_at_None [THEN iffD2])
next
  case (Cons r rs)
  have "decode_from pid ((pre @ record_image r) @ concat (map record_image rs) @ suf) (length (pre @ record_image r)) = Inr rs"
    by (rule Cons.IH) (use Cons.prems in simp_all)
  then show ?case using Cons.prems by (subst decode_from.simps) (simp add: decode_at_append decode_at_image)
qed

lemma decode_from_sound:
  assumes "decode_from pid page c = Inr rs" "c \<le> length page"
  shows "list_all record_ok rs \<and> (\<exists>suf. drop c page = concat (map record_image rs) @ suf \<and> take 4 suf \<noteq> RECORD_MAGIC)"
  using assms
proof (induction pid page c arbitrary: rs rule: decode_from.induct)
  case (1 pid page c)
  consider "decode_at pid page c = Inr None" "rs = []"
    | r len rs' where "decode_at pid page c = Inr (Some (r, len))" "decode_from pid page (c + len) = Inr rs'" "rs = r # rs'"
    using 1(2) by (subst (asm) decode_from.simps) (auto split: sum.splits option.splits)
  then show ?case
  proof cases
    case 1
    then show ?thesis using decode_at_None [of pid "drop c page"] decode_at_drop [OF "1.prems"(2), of pid] by simp
  next
    case (2 r len rs')
    note d = decode_at_Some [OF trans [OF decode_at_drop [OF "1.prems"(2), symmetric] 2(1)]]
    obtain suf where suf: "drop c page = record_image r @ suf" using d(3) by blast
    have "drop (c + len) page = drop len (drop c page)" by (simp add: add.commute)
    then have "drop (c + len) page = suf" using suf d(2) by simp
    then show ?thesis using "1.IH" [OF 2(1) refl refl 2(2)] decode_at_bounds(2) [OF 2(1)] suf d(1) 2(3) by auto
  qed
qed

lemma decode_page_eq:
  "decode_page pid bs = Inr rs \<longleftrightarrow>
    list_all record_ok rs \<and> (\<exists>suf. bs = concat (map record_image rs) @ suf \<and> take 4 suf \<noteq> RECORD_MAGIC)"
  unfolding decode_page_def
  using decode_from_sound [of pid bs 0 rs] decode_from_image [of rs _ pid "[]"] by auto

lemma record_size_le_concat: "r \<in> set rs \<Longrightarrow> record_size r \<le> length (concat (map record_image rs))"
  by (induction rs) auto

lemma record_ok_small: "record_size r \<le> MAX_PAGE_PAYLOAD \<Longrightarrow> record_ok r \<longleftrightarrow> vr_timestamp r \<noteq> 0"
  by (auto simp: record_ok_def record_size_def page_consts)

lemma record_encode_Inr: "record_encode r = Inr bs \<longleftrightarrow> record_size r \<le> MAX_PAGE_PAYLOAD \<and> bs = record_image r"
proof (cases "record_size r \<le> MAX_PAGE_PAYLOAD")
  case True
  then show ?thesis by (auto simp: record_encode_eq)
next
  case False
  then have "validate_size (vr_key r) (vr_value r) \<noteq> Inr ()"
    by (simp add: validate_size_ok record_size_def)
  then have "\<exists>e. record_encode r = Inl e" by (auto simp: record_encode_def split: sum.splits)
  then show ?thesis using False by auto
qed

section \<open>The round trip of a manifest\<close>

lemma of_le_u16_0: "of_le_u16 (replicate 2 0) = 0"
  using of_le_u16_le [of 0] by (simp add: le_u16_0 numeral_2_eq_2)

definition generation_image :: "u16 \<Rightarrow> u64 \<Rightarrow> u64 \<Rightarrow> u16 \<Rightarrow> u64 \<Rightarrow> bytes" where
  "generation_image f ts pid h n =
    MANIFEST_MAGIC @ le_u16 MANIFEST_FORMAT_VERSION @ le_u16 f @ le_u64 ts @ le_u64 pid @ le_u16 h @
    replicate 6 0 @ le_u64 n @ replicate 8 0"

lemma length_generation_image [simp]: "length (generation_image f ts pid h n) = 48"
  by (simp add: generation_image_def MANIFEST_MAGIC_def)

lemma generation_image_fields [simp]:
  "slice (generation_image f ts pid h n) 0 4 = MANIFEST_MAGIC"
  "manifest_read_u16 (generation_image f ts pid h n) 4 = MANIFEST_FORMAT_VERSION"
  "manifest_read_u16 (generation_image f ts pid h n) 6 = f"
  "manifest_read_u64 (generation_image f ts pid h n) 8 = ts"
  "manifest_read_u64 (generation_image f ts pid h n) 16 = pid"
  "manifest_read_u16 (generation_image f ts pid h n) 24 = h"
  "slice (generation_image f ts pid h n) 26 32 = replicate 6 0"
  "manifest_read_u64 (generation_image f ts pid h n) 32 = n"
  "slice (generation_image f ts pid h n) 40 48 = replicate 8 0"
  by (simp_all add: generation_image_def manifest_fields slice_def MANIFEST_MAGIC_def)

lemma generation_image_canonical:
  assumes "length bs = 48" "slice bs 0 4 = MANIFEST_MAGIC" "manifest_read_u16 bs 4 = MANIFEST_FORMAT_VERSION"
    "\<not> list_ex (\<lambda>b. b \<noteq> 0) (slice bs 26 32)" "\<not> list_ex (\<lambda>b. b \<noteq> 0) (slice bs 40 48)"
  shows "bs = generation_image (manifest_read_u16 bs 6) (manifest_read_u64 bs 8) (manifest_read_u64 bs 16)
    (manifest_read_u16 bs 24) (manifest_read_u64 bs 32)"
proof -
  have f: "slice bs 4 6 = le_u16 MANIFEST_FORMAT_VERSION" "slice bs 6 8 = le_u16 (manifest_read_u16 bs 6)"
    "slice bs 8 16 = le_u64 (manifest_read_u64 bs 8)" "slice bs 16 24 = le_u64 (manifest_read_u64 bs 16)"
    "slice bs 24 26 = le_u16 (manifest_read_u16 bs 24)" "slice bs 32 40 = le_u64 (manifest_read_u64 bs 32)"
    "slice bs 26 32 = replicate 6 0" "slice bs 40 48 = replicate 8 0"
    using assms zeros_replicate [OF assms(4)] zeros_replicate [OF assms(5)]
    by (simp_all add: manifest_fields le_u16_of_le le_u64_of_le flip: assms(3))
  have "slice bs 0 4 @ slice bs 4 6 @ slice bs 6 8 @ slice bs 8 16 @ slice bs 16 24 @ slice bs 24 26 @
    slice bs 26 32 @ slice bs 32 40 @ slice bs 40 48 = slice bs 0 48"
    using assms(1) by (simp add: slice_concat)
  moreover have "slice bs 0 48 = bs" using assms(1) slice_full [of bs] by simp
  ultimately have "bs = slice bs 0 4 @ slice bs 4 6 @ slice bs 6 8 @ slice bs 8 16 @ slice bs 16 24 @
    slice bs 24 26 @ slice bs 26 32 @ slice bs 32 40 @ slice bs 40 48" by simp
  then show ?thesis unfolding f assms(2) generation_image_def .
qed

lemma generation_encode_eq:
  "generation_encode g = generation_image (if gen_root g = None then 0 else FLAG_HAS_ROOT) (gen_timestamp g)
    (case gen_root g of None \<Rightarrow> NO_PAGE | Some r \<Rightarrow> root_page r)
    (case gen_root g of None \<Rightarrow> 0 | Some r \<Rightarrow> root_height r)
    (case gen_root g of None \<Rightarrow> 0 | Some r \<Rightarrow> root_entries r)"
proof -
  let ?bs = "generation_encode g"
  have len: "length ?bs = 48"
    by (simp add: generation_encode_def Let_def manifest_fields manifest_consts)
  have f: "slice ?bs 0 4 = MANIFEST_MAGIC" "manifest_read_u16 ?bs 4 = MANIFEST_FORMAT_VERSION"
    "manifest_read_u16 ?bs 6 = (if gen_root g = None then 0 else FLAG_HAS_ROOT)"
    "manifest_read_u64 ?bs 8 = gen_timestamp g"
    "manifest_read_u64 ?bs 16 = (case gen_root g of None \<Rightarrow> NO_PAGE | Some r \<Rightarrow> root_page r)"
    "manifest_read_u16 ?bs 24 = (case gen_root g of None \<Rightarrow> 0 | Some r \<Rightarrow> root_height r)"
    "manifest_read_u64 ?bs 32 = (case gen_root g of None \<Rightarrow> 0 | Some r \<Rightarrow> root_entries r)"
    "slice ?bs 26 32 = replicate 6 0" "slice ?bs 40 48 = replicate 8 0"
    by (simp_all add: generation_encode_def Let_def manifest_fields ENCODED_SIZE_def MANIFEST_MAGIC_def patch_simps of_le_u16_0)
  show ?thesis
    using generation_image_canonical [OF len f(1,2)] by (simp add: f list_ex_iff)
qed

definition generation_ok :: "index_generation \<Rightarrow> bool" where
  "generation_ok g \<longleftrightarrow> (case gen_root g of None \<Rightarrow> True
    | Some r \<Rightarrow> root_page r \<noteq> NO_PAGE \<and> root_height r \<noteq> 0 \<and> root_entries r \<noteq> 0)"

lemma select_convs_gen: "g = \<lparr>gen_timestamp = t, gen_root = r, manifest_page_id = p\<rparr> \<Longrightarrow> manifest_page_id g = p"
  by simp

lemma generation_decode_eq:
  "generation_decode pid bs = Inr (Some g) \<longleftrightarrow>
    manifest_page_id g = pid \<and> generation_ok g \<and> bs = generation_encode g"
proof
  assume d: "generation_decode pid bs = Inr (Some g)"
  then have h: "length bs = 48" "slice bs 0 4 = MANIFEST_MAGIC" "manifest_read_u16 bs 4 = MANIFEST_FORMAT_VERSION"
    "\<not> list_ex (\<lambda>b. b \<noteq> 0) (slice bs 26 32)" "\<not> list_ex (\<lambda>b. b \<noteq> 0) (slice bs 40 48)"
    and f: "manifest_read_u16 bs 6 AND NOT 1 = 0"
    by (auto simp: generation_decode_def Let_def ENCODED_SIZE_def FLAG_HAS_ROOT_def split: if_splits)
  have g: "g = \<lparr>gen_timestamp = manifest_read_u64 bs 8,
      gen_root = (if manifest_read_u16 bs 6 AND 1 \<noteq> 0 then Some \<lparr>root_page = manifest_read_u64 bs 16,
        root_height = manifest_read_u16 bs 24, root_entries = manifest_read_u64 bs 32\<rparr> else None),
      manifest_page_id = pid\<rparr> \<and> generation_ok g \<and> (manifest_read_u16 bs 6 AND 1 = 0 \<longrightarrow>
        manifest_read_u64 bs 16 = NO_PAGE \<and> manifest_read_u16 bs 24 = 0 \<and> manifest_read_u64 bs 32 = 0)"
    using d h(4,5) by (auto simp: generation_decode_def Let_def generation_ok_def FLAG_HAS_ROOT_def split: if_splits)
  have "generation_encode g = generation_image (manifest_read_u16 bs 6) (manifest_read_u64 bs 8)
      (manifest_read_u64 bs 16) (manifest_read_u16 bs 24) (manifest_read_u64 bs 32)"
    using flag_bit [OF f] g by (cases "manifest_read_u16 bs 6 AND 1 = 0") (auto simp: generation_encode_eq FLAG_HAS_ROOT_def)
  then show "manifest_page_id g = pid \<and> generation_ok g \<and> bs = generation_encode g"
    using generation_image_canonical [OF h] g by (metis select_convs_gen)
next
  assume "manifest_page_id g = pid \<and> generation_ok g \<and> bs = generation_encode g"
  moreover have "g = \<lparr>gen_timestamp = gen_timestamp g, gen_root = gen_root g, manifest_page_id = manifest_page_id g\<rparr>"
    by simp
  ultimately show "generation_decode pid bs = Inr (Some g)"
    by (cases "gen_root g") (auto simp: generation_decode_def generation_encode_eq Let_def ENCODED_SIZE_def
        generation_ok_def FLAG_HAS_ROOT_def list_ex_iff)
qed

lemma decode_page_encoded:
  assumes "\<forall>r\<in>set rs. record_size r \<le> MAX_PAGE_PAYLOAD \<and> vr_timestamp r \<noteq> 0" "take 4 suf \<noteq> RECORD_MAGIC"
  shows "decode_page pid (concat (map (\<lambda>r. projr (record_encode r)) rs) @ suf) = Inr rs"
proof -
  have "map (\<lambda>r. projr (record_encode r)) rs = map record_image rs"
    using assms(1) by (simp add: record_encode_eq)
  moreover have "list_all record_ok rs" using assms(1) by (auto simp: list_all_iff record_ok_small)
  ultimately show ?thesis using assms(2) decode_page_eq [of pid _ rs] by metis
qed

interpretation record_page_codec: codec "\<lambda>rs. concat (map (\<lambda>r. projr (record_encode r)) rs)" "decode_page pid"
    "\<lambda>rs. \<forall>r\<in>set rs. record_size r \<le> MAX_PAGE_PAYLOAD \<and> vr_timestamp r \<noteq> 0" for pid
  by unfold_locales (use decode_page_encoded [where suf = "[]"] in \<open>simp add: RECORD_MAGIC_def\<close>)

section \<open>Properties of the formats\<close>

text \<open>C35: walking a page always ends, and it returns exactly the records that were packed into it: a
  page payload decodes to a list of records just when every record has a nonzero commit timestamp
  and the payload is the concatenation of their encodings, in that order, followed by bytes
  that do not start with the record magic.\<close>

theorem decode_page_iff_encode:
  assumes "length bs \<le> MAX_PAGE_PAYLOAD"
  shows "decode_page pid bs = Inr rs \<longleftrightarrow>
    (\<exists>ims suf. map record_encode rs = map Inr ims \<and> (\<forall>r\<in>set rs. vr_timestamp r \<noteq> 0) \<and>
      bs = concat ims @ suf \<and> take 4 suf \<noteq> RECORD_MAGIC)"
proof
  assume "decode_page pid bs = Inr rs"
  then obtain suf where ok: "list_all record_ok rs" and bs: "bs = concat (map record_image rs) @ suf"
    and suf: "take 4 suf \<noteq> RECORD_MAGIC"
    by (auto simp: decode_page_eq)
  have "record_size r \<le> MAX_PAGE_PAYLOAD" if "r \<in> set rs" for r
    using record_size_le_concat [OF that] assms bs by simp
  then have "map record_encode rs = map Inr (map record_image rs)" by (simp add: record_encode_eq)
  moreover have "\<forall>r\<in>set rs. vr_timestamp r \<noteq> 0" using ok by (auto simp: list_all_iff record_ok_def)
  ultimately show "\<exists>ims suf. map record_encode rs = map Inr ims \<and> (\<forall>r\<in>set rs. vr_timestamp r \<noteq> 0) \<and>
      bs = concat ims @ suf \<and> take 4 suf \<noteq> RECORD_MAGIC"
    using bs suf by blast
next
  assume "\<exists>ims suf. map record_encode rs = map Inr ims \<and> (\<forall>r\<in>set rs. vr_timestamp r \<noteq> 0) \<and>
      bs = concat ims @ suf \<and> take 4 suf \<noteq> RECORD_MAGIC"
  then obtain ims suf where e: "map record_encode rs = map Inr ims" "\<forall>r\<in>set rs. vr_timestamp r \<noteq> 0"
    and bs: "bs = concat ims @ suf" and suf: "take 4 suf \<noteq> RECORD_MAGIC" by blast
  have "record_encode ` set rs = Inr ` set ims" using arg_cong [OF e(1), of set] by simp
  then have "\<forall>r\<in>set rs. \<exists>im. record_encode r = Inr im" by blast
  then have small: "\<forall>r\<in>set rs. record_size r \<le> MAX_PAGE_PAYLOAD" by (auto simp: record_encode_Inr)
  have "ims = map projr (map record_encode rs)" unfolding e(1) by (simp add: comp_def)
  then show "decode_page pid bs = Inr rs"
    using decode_page_encoded [of rs suf pid] small e(2) suf bs by (simp add: comp_def)
qed

definition sample_records :: "version_record list" where
  "sample_records = [\<lparr>vr_timestamp = 7, vr_key = [1], vr_value = Some [2, 3]\<rparr>,
    \<lparr>vr_timestamp = 8, vr_key = [1], vr_value = None\<rparr>]"

theorem decode_page_iff_encode_witness:
  "decode_page 5 (concat (map record_image sample_records) @ replicate 40 0) = Inr sample_records"
proof -
  have "map record_encode sample_records = map Inr (map record_image sample_records)"
    by (simp add: sample_records_def record_encode_eq record_size_def value_length_def page_consts)
  moreover have "take 4 (replicate 40 0) \<noteq> RECORD_MAGIC"
    by (simp add: RECORD_MAGIC_def list_eq_iff_nth_eq) (rule exI [of _ 0], simp)
  moreover have "length (concat (map record_image sample_records) @ replicate 40 0) \<le> MAX_PAGE_PAYLOAD"
    by (simp add: sample_records_def record_size_def value_length_def page_consts)
  moreover have "\<forall>r\<in>set sample_records. vr_timestamp r \<noteq> 0" by (simp add: sample_records_def)
  ultimately show ?thesis using decode_page_iff_encode by blast
qed

text \<open>C36: a page decodes to an index generation just when it is the encoding of that generation and
  the generation is complete: a root comes with a page, a height and a number of entries, and
  the manifest names the page it was read from.\<close>

theorem generation_decode_iff_encode:
  "generation_decode pid bs = Inr (Some g) \<longleftrightarrow>
    bs = generation_encode g \<and> manifest_page_id g = pid \<and>
    (case gen_root g of None \<Rightarrow> True
     | Some r \<Rightarrow> root_page r \<noteq> NO_PAGE \<and> root_height r \<noteq> 0 \<and> root_entries r \<noteq> 0)"
  using generation_decode_eq [of pid bs g] by (auto simp: generation_ok_def)

end
