(* ===== verification/Mvcc_State.thy ===== *)
theory Mvcc_State
  imports Mvcc_Record
begin

text \<open>
  Model of the state of \<open>mvcc/src/database.rs\<close>: the version map, write intents, active snapshots,
  the ring of index generations, and the operations that run under the lock of that state:
  \<open>begin\<close>, the two phases of a commit, the end of a transaction, the start and the publication of
  an index generation, and reclamation. A \<open>BTreeSet\<close> is a sorted list without repetitions. The
  error \<open>StatePoisoned\<close> of a lock whose holder panicked does not occur, since no operation
  panics.
\<close>

section \<open>State\<close>

record version =
  ver_timestamp :: u64
  ver_value :: "bytes option"
  ver_page :: u64

type_synonym version_map = "(bytes \<times> version list) list"

record mvcc_state =
  ms_versions :: version_map
  ms_page_refs :: "(u64 \<times> u32) list"
  ms_intents :: "(bytes \<times> u64) list"
  ms_active :: "(u64 \<times> u64) list"
  ms_completed :: "u64 list"
  ms_next_transaction_id :: u64
  ms_next_commit_timestamp :: u64
  ms_visible_through :: u64
  ms_generations :: "index_generation list"
  ms_dirty_keys :: "bytes list"
  ms_reclaimed :: u64

definition key_versions :: "version_map \<Rightarrow> bytes \<Rightarrow> version list" where
  "key_versions vm key = (case map_of vm key of None \<Rightarrow> [] | Some vs \<Rightarrow> vs)"

text \<open>The search \<open>iter().rev().find(|version| version.timestamp <= snapshot)\<close> that all readers make.\<close>

definition newest_at :: "u64 \<Rightarrow> version list \<Rightarrow> version option" where
  "newest_at snapshot vs = find (\<lambda>v. ver_timestamp v \<le> snapshot) (rev vs)"

definition latest_generation :: "mvcc_state \<Rightarrow> index_generation option" where
  "latest_generation st = (if ms_generations st = [] then None else Some (last (ms_generations st)))"

definition generation_at :: "u64 \<Rightarrow> mvcc_state \<Rightarrow> index_generation option" where
  "generation_at snapshot st = find (\<lambda>g. gen_timestamp g \<le> snapshot) (rev (ms_generations st))"

definition oldest_active_snapshot :: "mvcc_state \<Rightarrow> u64" where
  "oldest_active_snapshot st =
    (case map snd (ms_active st) of [] \<Rightarrow> ms_visible_through st | x # xs \<Rightarrow> fold min xs x)"

definition generation_key_le :: "u64 \<times> u64 \<Rightarrow> u64 \<times> u64 \<Rightarrow> bool" where
  "generation_key_le a b \<longleftrightarrow> fst a < fst b \<or> fst a = fst b \<and> snd a \<le> snd b"

definition generation_key :: "index_generation \<Rightarrow> u64 \<times> u64" where
  "generation_key g = (gen_timestamp g, manifest_page_id g)"

definition publish_generation :: "index_generation \<Rightarrow> mvcc_state \<Rightarrow> mvcc_state" where
  "publish_generation g st =
    (let gs = ms_generations st;
         key = generation_key g;
         position = partition_point (\<lambda>existing. generation_key_le (generation_key existing) key) gs;
         duplicate = (position > 0 \<and> generation_key (gs ! (position - 1)) = key) in
     if duplicate then st
     else st\<lparr>ms_generations := take position gs @ [g] @ drop position gs\<rparr>)"

section \<open>Reclamation\<close>

definition release_page ::
    "u64 option \<Rightarrow> u64 \<Rightarrow> (u64 \<times> u32) list \<times> u64 list \<Rightarrow> (u64 \<times> u32) list \<times> u64 list" where
  "release_page protect pid acc =
    (case acc of (refs, freed) \<Rightarrow>
     (case map_of refs pid of
        None \<Rightarrow> (refs, freed)
      | Some n \<Rightarrow>
          let remaining = (if n = 0 then 0 else n - 1) in
          if remaining = 0
          then (AList.delete pid refs, if protect \<noteq> Some pid then freed @ [pid] else freed)
          else (AList.update pid remaining refs, freed)))"

record reclaim =
  rc_refs :: "(u64 \<times> u32) list"
  rc_freed :: "u64 list"
  rc_count :: u64

definition drain_versions :: "u64 \<Rightarrow> u64 option \<Rightarrow> version list \<Rightarrow> reclaim \<Rightarrow> version list \<times> reclaim" where
  "drain_versions oldest protect vs rc =
    (case rposition (\<lambda>v. ver_timestamp v \<le> oldest) vs of
       None \<Rightarrow> (vs, rc)
     | Some i \<Rightarrow>
         (case fold (release_page protect) (map ver_page (take i vs)) (rc_refs rc, rc_freed rc) of
            (refs, freed) \<Rightarrow>
              (drop i vs, \<lparr>rc_refs = refs, rc_freed = freed, rc_count = rc_count rc + word_of_nat i\<rparr>)))"

definition fully_covered :: "u64 option \<Rightarrow> mvcc_state \<Rightarrow> bytes \<Rightarrow> version list \<Rightarrow> bool" where
  "fully_covered cover st key vs \<longleftrightarrow>
    (case cover of
       None \<Rightarrow> False
     | Some c \<Rightarrow> length vs = 1 \<and> ver_timestamp (vs ! 0) \<le> c \<and>
         key \<notin> set (ms_dirty_keys st) \<and> map_of (ms_intents st) key = None)"

fun retain_versions ::
    "u64 \<Rightarrow> u64 option \<Rightarrow> u64 option \<Rightarrow> mvcc_state \<Rightarrow> version_map \<Rightarrow> reclaim \<Rightarrow> version_map \<times> reclaim" where
  "retain_versions oldest cover protect st [] rc = ([], rc)"
| "retain_versions oldest cover protect st ((key, vs) # vm) rc =
    (case drain_versions oldest protect vs rc of (vs, rc) \<Rightarrow>
      if fully_covered cover st key vs
      then retain_versions oldest cover protect st vm (rc\<lparr>rc_count := rc_count rc + 1\<rparr>)
      else (case retain_versions oldest cover protect st vm rc of (vm, rc) \<Rightarrow> ((key, vs) # vm, rc)))"

definition reclaim_covered :: "u64 option \<Rightarrow> mvcc_state \<Rightarrow> u64 list \<times> mvcc_state" where
  "reclaim_covered protect st =
    (let oldest = oldest_active_snapshot st;
         (freed, st) =
           (case rposition (\<lambda>g. gen_timestamp g \<le> oldest) (ms_generations st) of
              None \<Rightarrow> ([], st)
            | Some i \<Rightarrow> (map manifest_page_id (take i (ms_generations st)),
                st\<lparr>ms_generations := drop i (ms_generations st)\<rparr>));
         cover = map_option gen_timestamp (generation_at oldest st) in
     case retain_versions oldest cover protect st (ms_versions st)
         \<lparr>rc_refs = ms_page_refs st, rc_freed = freed, rc_count = ms_reclaimed st\<rparr> of
       (vm, rc) \<Rightarrow>
         (rc_freed rc, st\<lparr>ms_versions := vm, ms_page_refs := rc_refs rc, ms_reclaimed := rc_count rc\<rparr>))"

section \<open>Transactions\<close>

record transaction =
  tx_id :: u64
  tx_snapshot :: u64
  tx_writes :: "(bytes \<times> bytes option) list"
  tx_scanned :: "bytes list"
  tx_range_protected :: bool
  tx_finished :: bool

definition begin_transaction :: "mvcc_state \<Rightarrow> (transaction_error + transaction) \<times> mvcc_state" where
  "begin_transaction st =
    (let id = ms_next_transaction_id st in
     case checked_add_u64 id 1 of
       None \<Rightarrow> (Inl TransactionIdExhausted, st)
     | Some n \<Rightarrow>
         let st = st\<lparr>ms_next_transaction_id := n\<rparr>;
             snapshot = ms_visible_through st in
         (Inr \<lparr>tx_id = id, tx_snapshot = snapshot, tx_writes = [], tx_scanned = [],
            tx_range_protected = False, tx_finished = False\<rparr>,
          st\<lparr>ms_active := AList.update id snapshot (ms_active st)\<rparr>))"

definition end_transaction :: "u64 \<Rightarrow> mvcc_state \<Rightarrow> mvcc_state" where
  "end_transaction tid st = st\<lparr>ms_active := AList.delete tid (ms_active st)\<rparr>"

section \<open>Key ranges\<close>

text \<open>The loop of \<open>prefix_end\<close> looks for the last byte that is not 255; here the reversed key is
  walked from its head.\<close>

fun prefix_end_rev :: "bytes \<Rightarrow> bytes option" where
  "prefix_end_rev [] = None"
| "prefix_end_rev (b # bs) = (if b \<noteq> 255 then Some (rev bs @ [b + 1]) else prefix_end_rev bs)"

definition prefix_end :: "bytes \<Rightarrow> bytes option" where
  "prefix_end pre = prefix_end_rev (rev pre)"

datatype bound = Unbounded | Excluded bytes

definition end_bound :: "bytes option \<Rightarrow> bound" where
  "end_bound e = (case e of None \<Rightarrow> Unbounded | Some k \<Rightarrow> Excluded k)"

definition below_bound :: "bytes \<Rightarrow> bound \<Rightarrow> bool" where
  "below_bound k b = (case b of Unbounded \<Rightarrow> True | Excluded e \<Rightarrow> k < e)"

definition version_range :: "version_map \<Rightarrow> bytes \<Rightarrow> version_map" where
  "version_range vm pre =
    filter (\<lambda>kv. pre \<le> fst kv \<and> below_bound (fst kv) (end_bound (prefix_end pre))) vm"

abbreviation starts_with :: "bytes \<Rightarrow> bytes \<Rightarrow> bool" where
  "starts_with key pre \<equiv> take (length pre) key = pre"

section \<open>Commits\<close>

definition newer_than :: "u64 \<Rightarrow> version list \<Rightarrow> bool" where
  "newer_than snapshot vs \<longleftrightarrow> vs \<noteq> [] \<and> ver_timestamp (last vs) > snapshot"

definition write_conflict :: "u64 \<Rightarrow> u64 \<Rightarrow> mvcc_state \<Rightarrow> bytes \<Rightarrow> bool" where
  "write_conflict tid snapshot st key \<longleftrightarrow>
    (case map_of (ms_intents st) key of None \<Rightarrow> False | Some owner \<Rightarrow> owner \<noteq> tid) \<or>
    newer_than snapshot (key_versions (ms_versions st) key)"

definition range_conflict :: "u64 \<Rightarrow> u64 \<Rightarrow> mvcc_state \<Rightarrow> bytes \<Rightarrow> bool" where
  "range_conflict tid snapshot st pre \<longleftrightarrow>
    list_ex (\<lambda>kv. newer_than snapshot (snd kv)) (version_range (ms_versions st) pre) \<or>
    list_ex (\<lambda>ko. snd ko \<noteq> tid \<and> starts_with (fst ko) pre) (ms_intents st)"

definition prepare_commit ::
    "u64 \<Rightarrow> u64 \<Rightarrow> bytes list \<Rightarrow> bytes list \<Rightarrow> mvcc_state \<Rightarrow> (transaction_error + u64) \<times> mvcc_state" where
  "prepare_commit tid snapshot keys scanned st =
    (case find (write_conflict tid snapshot st) keys of
       Some key \<Rightarrow> (Inl (WriteConflict key), st)
     | None \<Rightarrow>
     (case find (range_conflict tid snapshot st) scanned of
        Some pre \<Rightarrow> (Inl (RangeConflict pre), st)
      | None \<Rightarrow>
          let timestamp = ms_next_commit_timestamp st in
          (case checked_add_u64 timestamp 1 of
             None \<Rightarrow> (Inl TimestampExhausted, st)
           | Some n \<Rightarrow>
               (Inr timestamp,
                st\<lparr>ms_next_commit_timestamp := n,
                  ms_intents := fold (\<lambda>key. AList.update key tid) keys (ms_intents st)\<rparr>))))"

definition drop_intent :: "u64 \<Rightarrow> bytes \<Rightarrow> (bytes \<times> u64) list \<Rightarrow> (bytes \<times> u64) list" where
  "drop_intent tid key intents = (if map_of intents key = Some tid then AList.delete key intents else intents)"

fun install_versions ::
    "u64 \<Rightarrow> ((bytes \<times> bytes option) \<times> u64) list \<Rightarrow> nat \<Rightarrow> mvcc_state \<Rightarrow>
     (transaction_error + unit) \<times> mvcc_state" where
  "install_versions timestamp [] position st = (Inr (), st)"
| "install_versions timestamp (((key, val), pid) # xs) position st =
    (let vs = key_versions (ms_versions st) key;
         insert_at = (case binary_search ver_timestamp timestamp vs of Inr i \<Rightarrow> i | Inl i \<Rightarrow> i) in
     if insert_at < length vs \<and> ver_timestamp (vs ! insert_at) = timestamp
     then (Inl (CorruptRecord pid
         (Reason ''duplicate commit timestamp {} at write {position}'' [unat timestamp, position])), st)
     else
       let v = \<lparr>ver_timestamp = timestamp, ver_value = val, ver_page = pid\<rparr>;
           refs = (case map_of (ms_page_refs st) pid of None \<Rightarrow> 0 | Some n \<Rightarrow> n) in
       install_versions timestamp xs (position + 1)
         (st\<lparr>ms_versions := bt_insert key (take insert_at vs @ [v] @ drop insert_at vs) (ms_versions st),
            ms_page_refs := AList.update pid (refs + 1) (ms_page_refs st),
            ms_dirty_keys := insort_insert key (ms_dirty_keys st)\<rparr>))"

function advance_visible :: "u64 \<Rightarrow> u64 list \<Rightarrow> u64 \<times> u64 list" where
  "advance_visible visible completed =
    (case checked_add_u64 visible 1 of
       None \<Rightarrow> (visible, completed)
     | Some next_ts \<Rightarrow>
         if next_ts \<in> set completed then advance_visible next_ts (removeAll next_ts completed)
         else (visible, completed))"
  by pat_completeness auto
termination
  by (relation "measure (\<lambda>(v, c). length c)") (auto intro: length_removeAll_less)

declare advance_visible.simps [simp del]

definition complete_timestamp :: "u64 \<Rightarrow> mvcc_state \<Rightarrow> mvcc_state" where
  "complete_timestamp timestamp st =
    (case advance_visible (ms_visible_through st) (insort_insert timestamp (ms_completed st)) of
       (visible, completed) \<Rightarrow> st\<lparr>ms_visible_through := visible, ms_completed := completed\<rparr>)"

definition finish_prepared ::
    "u64 \<Rightarrow> u64 \<Rightarrow> (bytes \<times> bytes option) list \<Rightarrow> u64 list option \<Rightarrow> mvcc_state \<Rightarrow>
     (transaction_error + unit) \<times> mvcc_state" where
  "finish_prepared tid timestamp writes pids st =
    (let st = st\<lparr>ms_intents := fold (\<lambda>w. drop_intent tid (fst w)) writes (ms_intents st)\<rparr> in
     try_then (case pids of None \<Rightarrow> (Inr (), st) | Some ps \<Rightarrow> install_versions timestamp (zip writes ps) 0 st)
       (\<lambda>_ st. (Inr (), complete_timestamp timestamp st)))"

section \<open>Index generations\<close>

definition current_index_entries :: "version_map \<Rightarrow> u64 \<Rightarrow> index_entry list" where
  "current_index_entries vm snapshot =
    List.map_filter (\<lambda>(key, vs).
      case newest_at snapshot vs of
        None \<Rightarrow> None
      | Some v \<Rightarrow> map_option (\<lambda>_. \<lparr>ie_key = key, ie_value = ver_page v\<rparr>) (ver_value v)) vm"

definition key_mutation :: "mvcc_state \<Rightarrow> u64 \<Rightarrow> u64 \<Rightarrow> bytes \<Rightarrow> index_mutation option" where
  "key_mutation st base timestamp key =
    (case map_of (ms_versions st) key of
       None \<Rightarrow> None
     | Some vs \<Rightarrow>
         (case newest_at timestamp vs of
            None \<Rightarrow> None
          | Some newest \<Rightarrow>
              if ver_timestamp newest \<le> base then None
              else Some (case ver_value newest of
                  None \<Rightarrow> Delete key
                | Some _ \<Rightarrow> Upsert \<lparr>ie_key = key, ie_value = ver_page newest\<rparr>)))"

record index_job =
  job_timestamp :: u64
  job_base :: "index_generation option"
  job_entries :: "index_entry list option"
  job_mutations :: "index_mutation list option"

record index_build_result =
  built_timestamp :: u64
  built_root :: "index_root option"

text \<open>The first part of \<open>rebuild_index\<close>, under the lock: the early return when the newest generation is
  current, and otherwise what the new generation is made of.\<close>

definition start_rebuild :: "mvcc_state \<Rightarrow> index_build_result + index_job" where
  "start_rebuild st =
    (let timestamp = ms_visible_through st;
         base = latest_generation st in
     if (case base of None \<Rightarrow> False | Some g \<Rightarrow> gen_timestamp g = timestamp)
     then Inl \<lparr>built_timestamp = timestamp, built_root = Option.bind base gen_root\<rparr>
     else Inr \<lparr>job_timestamp = timestamp, job_base = base,
       job_entries = (if base = None then Some (current_index_entries (ms_versions st) timestamp) else None),
       job_mutations = map_option
         (\<lambda>g. List.map_filter (key_mutation st (gen_timestamp g) timestamp) (ms_dirty_keys st)) base\<rparr>)"

text \<open>Its last part, under the lock again: the generation joins the ring, the keys it covers are no
  longer dirty, and versions are reclaimed.\<close>

definition publish_rebuild :: "index_generation \<Rightarrow> u64 option \<Rightarrow> mvcc_state \<Rightarrow> u64 list \<times> mvcc_state" where
  "publish_rebuild g open_page st =
    (let st = publish_generation g st;
         st = st\<lparr>ms_dirty_keys := filter (\<lambda>key.
           case map_of (ms_versions st) key of
             None \<Rightarrow> False
           | Some vs \<Rightarrow> list_ex (\<lambda>v. ver_timestamp v > gen_timestamp g) vs) (ms_dirty_keys st)\<rparr> in
     reclaim_covered open_page st)"

end
