(* ===== verification/Mvcc_Isolation.thy ===== *)
theory Mvcc_Isolation
  imports Mvcc_State
begin

text \<open>
  Snapshot isolation of the transaction layer. The operations under the state lock are the steps
  of a transition relation on a world that also records what the code itself forgets: the full
  history of every key, the commits between their two phases, and which page each index generation
  maps a key to. The invariant shows that neither reclamation nor publication
  changes what a reachable snapshot reads.
\<close>

section \<open>Versions visible at a snapshot\<close>

lemma find_rev_filter: "find P (rev xs) = (if filter P xs = [] then None else Some (last (filter P xs)))"
  by (induction xs rule: rev_induct) auto

lemma newest_at_filter:
  "newest_at t vs = (let ys = filter (\<lambda>v. ver_timestamp v \<le> t) vs in if ys = [] then None else Some (last ys))"
  by (simp add: newest_at_def find_rev_filter Let_def)

lemma newest_at_None: "newest_at t vs = None \<longleftrightarrow> (\<forall>v\<in>set vs. t < ver_timestamp v)"
  by (simp add: newest_at_filter Let_def filter_empty_conv not_le)

lemma newest_at_SomeD: "newest_at t vs = Some v \<Longrightarrow> v \<in> set vs \<and> ver_timestamp v \<le> t"
  unfolding newest_at_def by (metis find_Some_iff nth_mem set_rev)

abbreviation sorted_versions :: "version list \<Rightarrow> bool" where
  "sorted_versions vs \<equiv> sorted_wrt (<) (map ver_timestamp vs)"

lemma newest_at_append:
  "newest_at t (as @ bs) = (case newest_at t bs of None \<Rightarrow> newest_at t as | Some v \<Rightarrow> Some v)"
  by (auto simp: newest_at_filter Let_def)

lemma newest_at_max:
  "sorted_versions vs \<Longrightarrow> newest_at t vs = Some v \<Longrightarrow> u \<in> set vs \<Longrightarrow> ver_timestamp u \<le> t \<Longrightarrow>
    ver_timestamp u \<le> ver_timestamp v"
  by (induction vs rule: rev_induct) (auto simp: newest_at_append newest_at_def sorted_wrt_append less_imp_le split: if_splits)

lemma newest_at_unique:
  assumes "sorted_versions vs" "v \<in> set vs" "ver_timestamp v \<le> t"
    "\<forall>u\<in>set vs. ver_timestamp u \<le> t \<longrightarrow> ver_timestamp u \<le> ver_timestamp v"
  shows "newest_at t vs = Some v"
proof -
  obtain w where w: "newest_at t vs = Some w" using assms(2,3) newest_at_None [of t vs] by (metis leD not_None_eq)
  have "ver_timestamp v = ver_timestamp w"
    using newest_at_max [OF assms(1) w assms(2,3)] newest_at_SomeD [OF w] assms(4) by force
  moreover have "distinct (map ver_timestamp vs)" using assms(1) by (simp add: strict_sorted_iff)
  ultimately have "v = w" using newest_at_SomeD [OF w] assms(2) by (metis distinct_map inj_onD)
  with w show ?thesis by simp
qed

lemma newest_at_cong:
  "filter (\<lambda>v. ver_timestamp v \<le> t) vs = filter (\<lambda>v. ver_timestamp v \<le> t) us \<Longrightarrow> newest_at t vs = newest_at t us"
  by (simp add: newest_at_filter)

definition live_page :: "u64 \<Rightarrow> version list \<Rightarrow> u64 option" where
  "live_page t vs = (case newest_at t vs of None \<Rightarrow> None | Some v \<Rightarrow> map_option (\<lambda>_. ver_page v) (ver_value v))"

definition value_at :: "u64 \<Rightarrow> version list \<Rightarrow> bytes option" where
  "value_at t vs = Option.bind (newest_at t vs) ver_value"

section \<open>Key ranges\<close>

lemma prefix_end_rev_snoc:
  "prefix_end_rev (xs @ [b]) =
    (case prefix_end_rev xs of Some e \<Rightarrow> Some (b # e) | None \<Rightarrow> if b \<noteq> 255 then Some [b + 1] else None)"
  by (induction xs) auto

lemma prefix_end_simps:
  "prefix_end [] = None"
  "prefix_end (b # bs) =
    (case prefix_end bs of Some e \<Rightarrow> Some (b # e) | None \<Rightarrow> if b \<noteq> 255 then Some [b + 1] else None)"
  by (simp_all add: prefix_end_def prefix_end_rev_snoc)

lemma u8_less_Suc: "(b :: u8) \<noteq> 255 \<Longrightarrow> k < b + 1 \<longleftrightarrow> k \<le> b"
proof -
  assume b: "b \<noteq> 255"
  then have "unat b \<noteq> unat (255 :: u8)" by (simp add: unsigned_word_eqI word_unat_eq_iff)
  then have "unat (b + 1) = unat b + 1" using unat_u8_less [of b] by (simp add: unat_plus_if_size word_size)
  then show ?thesis by (simp add: word_less_nat_alt word_le_nat_alt less_Suc_eq_le)
qed

lemma u8_le_255: "(k :: u8) \<le> 255"
  using unat_u8_less [of k] by (simp add: word_le_nat_alt)

lemma prefix_range:
  "pre \<le> k \<and> below_bound k (end_bound (prefix_end pre)) \<longleftrightarrow> starts_with k pre"
proof (induction pre arbitrary: k)
  case Nil
  then show ?case by (simp add: prefix_end_simps end_bound_def below_bound_def)
next
  case (Cons b bs)
  show ?case
  proof (cases k)
    case Nil
    then show ?thesis by simp
  next
    case (Cons c cs)
    have IH: "bs \<le> cs \<and> below_bound cs (end_bound (prefix_end bs)) \<longleftrightarrow> starts_with cs bs" by (rule Cons.IH)
    show ?thesis
    proof (cases "prefix_end bs")
      case None
      then show ?thesis using IH u8_less_Suc [of b c] u8_le_255 [of c]
        by (auto simp: \<open>k = c # cs\<close> prefix_end_simps end_bound_def below_bound_def)
    next
      case (Some e)
      then show ?thesis using IH
        by (auto simp: \<open>k = c # cs\<close> prefix_end_simps end_bound_def below_bound_def)
    qed
  qed
qed

section \<open>The world and its steps\<close>

record prepared =
  pr_tid :: u64
  pr_ts :: u64
  pr_snapshot :: u64
  pr_writes :: "(bytes \<times> bytes option) list"
  pr_scanned :: "bytes list"

abbreviation pr_keys :: "prepared \<Rightarrow> bytes set" where
  "pr_keys p \<equiv> fst ` set (pr_writes p)"

type_synonym index_view = "bytes \<rightharpoonup> u64"

record world =
  w_state :: mvcc_state
  w_hist :: "bytes \<Rightarrow> version list"
  w_prepared :: "prepared set"
  w_commits :: "prepared set"
  w_jobs :: "(u64 \<times> index_view) set"
  w_index :: "index_generation \<Rightarrow> index_view"

text \<open>What a commit adds to the history, and what a rebuilt tree maps keys to: building and editing
  a tree give it exactly these entries.\<close>

definition committed_version :: "prepared \<Rightarrow> u64 list \<Rightarrow> bytes \<Rightarrow> version list" where
  "committed_version p pids k =
    (case map_of (zip (map fst (pr_writes p)) (zip (map snd (pr_writes p)) pids)) k of
       None \<Rightarrow> []
     | Some (val, pid) \<Rightarrow> [\<lparr>ver_timestamp = pr_ts p, ver_value = val, ver_page = pid\<rparr>])"

definition job_view :: "(index_generation \<Rightarrow> index_view) \<Rightarrow> index_job \<Rightarrow> index_view" where
  "job_view idx job =
    (case job_base job of
       None \<Rightarrow> entry_map (the (job_entries job))
     | Some g \<Rightarrow> fold mutate (the (job_mutations job)) (idx g))"

inductive mvcc_step :: "world \<Rightarrow> world \<Rightarrow> bool" where
  step_begin:
    "begin_transaction (w_state w) = (Inr tx, st) \<Longrightarrow> mvcc_step w (w\<lparr>w_state := st\<rparr>)"
| step_prepare:
    "map_of (ms_active (w_state w)) tid = Some snapshot \<Longrightarrow> tid \<notin> pr_tid ` w_prepared w \<Longrightarrow>
     bt_sorted writes \<Longrightarrow>
     prepare_commit tid snapshot (map fst writes) scanned (w_state w) = (Inr ts, st) \<Longrightarrow>
     mvcc_step w (w\<lparr>w_state := st, w_prepared := insert \<lparr>pr_tid = tid, pr_ts = ts,
       pr_snapshot = snapshot, pr_writes = writes, pr_scanned = scanned\<rparr> (w_prepared w)\<rparr>)"
| step_finish:
    "p \<in> w_prepared w \<Longrightarrow> length pids = length (pr_writes p) \<Longrightarrow>
     finish_prepared (pr_tid p) (pr_ts p) (pr_writes p) (Some pids) (w_state w) = (r, st) \<Longrightarrow>
     mvcc_step w (w\<lparr>w_state := st, w_prepared := w_prepared w - {p}, w_commits := insert p (w_commits w),
       w_hist := (\<lambda>k. w_hist w k @ committed_version p pids k)\<rparr>)"
| step_abort:
    "p \<in> w_prepared w \<Longrightarrow>
     finish_prepared (pr_tid p) (pr_ts p) (pr_writes p) None (w_state w) = (r, st) \<Longrightarrow>
     mvcc_step w (w\<lparr>w_state := st, w_prepared := w_prepared w - {p}\<rparr>)"
| step_end:
    "tid \<notin> pr_tid ` w_prepared w \<Longrightarrow> mvcc_step w (w\<lparr>w_state := end_transaction tid (w_state w)\<rparr>)"
| step_rebuild:
    "start_rebuild (w_state w) = Inr job \<Longrightarrow>
     mvcc_step w (w\<lparr>w_jobs := insert (job_timestamp job, job_view (w_index w) job) (w_jobs w)\<rparr>)"
| step_publish:
    "(gen_timestamp g, view) \<in> w_jobs w \<Longrightarrow>
     manifest_page_id g \<notin> manifest_page_id ` set (ms_generations (w_state w)) \<Longrightarrow>
     publish_rebuild g open_page (w_state w) = (freed, st) \<Longrightarrow>
     mvcc_step w (w\<lparr>w_state := st, w_index := (w_index w)(g := view)\<rparr>)"

section \<open>The invariant\<close>

definition clock_inv :: "world \<Rightarrow> bool" where
  "clock_inv w \<longleftrightarrow> (let st = w_state w in
    ms_visible_through st < ms_next_commit_timestamp st \<and>
    distinct (map fst (ms_active st)) \<and>
    (\<forall>i s. map_of (ms_active st) i = Some s \<longrightarrow> i < ms_next_transaction_id st \<and> s \<le> ms_visible_through st) \<and>
    (\<forall>p\<in>w_prepared w. map_of (ms_active st) (pr_tid p) = Some (pr_snapshot p)) \<and>
    set (ms_completed st) \<union> pr_ts ` w_prepared w = {ms_visible_through st <..< ms_next_commit_timestamp st} \<and>
    set (ms_completed st) \<inter> pr_ts ` w_prepared w = {} \<and>
    ms_visible_through st + 1 \<notin> set (ms_completed st) \<and>
    inj_on pr_ts (w_prepared w) \<and> inj_on pr_tid (w_prepared w))"

definition settled :: "mvcc_state \<Rightarrow> u64 \<Rightarrow> bool" where
  "settled st t \<longleftrightarrow> t \<le> ms_visible_through st \<or> t \<in> set (ms_completed st)"

definition hist_inv :: "world \<Rightarrow> bool" where
  "hist_inv w \<longleftrightarrow> (\<forall>k. sorted_versions (w_hist w k) \<and> (\<forall>v\<in>set (w_hist w k). settled (w_state w) (ver_timestamp v)))"

definition intent_inv :: "world \<Rightarrow> bool" where
  "intent_inv w \<longleftrightarrow>
    (\<forall>p\<in>w_prepared w. bt_sorted (pr_writes p) \<and>
      (\<forall>k\<in>pr_keys p. map_of (ms_intents (w_state w)) k = Some (pr_tid p) \<and>
        (\<forall>v\<in>set (w_hist w k). ver_timestamp v \<le> pr_snapshot p)))"

definition covered :: "u64 \<Rightarrow> index_generation list \<Rightarrow> version list \<Rightarrow> nat \<Rightarrow> bool" where
  "covered oldest gs hs n \<longleftrightarrow>
    n = 0 \<or> n < length hs \<and> ver_timestamp (hs ! n) \<le> oldest \<or>
    n \<le> length hs \<and> (\<exists>g\<in>set gs. gen_timestamp g \<le> oldest \<and> ver_timestamp (hs ! (n - 1)) \<le> gen_timestamp g)"

definition map_inv :: "world \<Rightarrow> bool" where
  "map_inv w \<longleftrightarrow> bt_sorted (ms_versions (w_state w)) \<and>
    (\<forall>k. \<exists>n. key_versions (ms_versions (w_state w)) k = drop n (w_hist w k) \<and>
      covered (oldest_active_snapshot (w_state w)) (ms_generations (w_state w)) (w_hist w k) n)"

definition exact_view :: "(bytes \<Rightarrow> version list) \<Rightarrow> u64 \<Rightarrow> index_view \<Rightarrow> bool" where
  "exact_view H t view \<longleftrightarrow> (\<forall>k. view k = live_page t (H k))"

definition generation_less :: "index_generation \<Rightarrow> index_generation \<Rightarrow> bool" where
  "generation_less a b \<longleftrightarrow> generation_key_le (generation_key a) (generation_key b) \<and> generation_key a \<noteq> generation_key b"

definition index_inv :: "world \<Rightarrow> bool" where
  "index_inv w \<longleftrightarrow> (let st = w_state w in
    sorted_wrt generation_less (ms_generations st) \<and>
    (\<forall>g\<in>set (ms_generations st). gen_timestamp g \<le> ms_visible_through st \<and>
      exact_view (w_hist w) (gen_timestamp g) (w_index w g)) \<and>
    (\<forall>(t, view)\<in>w_jobs w. t \<le> ms_visible_through st \<and> exact_view (w_hist w) t view) \<and>
    (\<forall>k v. v \<in> set (key_versions (ms_versions st) k) \<longrightarrow> k \<notin> set (ms_dirty_keys st) \<longrightarrow>
      (\<exists>g\<in>set (ms_generations st). ver_timestamp v \<le> gen_timestamp g)) \<and>
    sorted_wrt (<) (ms_dirty_keys st))"

definition guarded :: "prepared \<Rightarrow> bytes \<Rightarrow> bool" where
  "guarded p k \<longleftrightarrow> k \<in> pr_keys p \<or> (\<exists>s\<in>set (pr_scanned p). starts_with k s)"

definition conflict_inv :: "world \<Rightarrow> bool" where
  "conflict_inv w \<longleftrightarrow>
    (\<forall>p\<in>w_prepared w \<union> w_commits w. \<forall>k. guarded p k \<longrightarrow>
      (\<forall>v\<in>set (w_hist w k). ver_timestamp v \<le> pr_snapshot p \<or> pr_ts p \<le> ver_timestamp v) \<and>
      (\<forall>q\<in>w_prepared w. k \<in> pr_keys q \<longrightarrow> pr_ts p \<le> pr_ts q)) \<and>
    (\<forall>p\<in>w_commits w. settled (w_state w) (pr_ts p))"

definition mvcc_inv :: "world \<Rightarrow> bool" where
  "mvcc_inv w \<longleftrightarrow> clock_inv w \<and> hist_inv w \<and> intent_inv w \<and> map_inv w \<and> index_inv w \<and> conflict_inv w"

section \<open>Snapshots in use\<close>

lemma oldest_active_Min:
  "ms_active st \<noteq> [] \<Longrightarrow> oldest_active_snapshot st = Min (set (map snd (ms_active st)))"
proof -
  assume "ms_active st \<noteq> []"
  then obtain x xs where "map snd (ms_active st) = x # xs" by (cases "ms_active st") auto
  then show ?thesis using Min.set_eq_fold [of x xs] by (simp add: oldest_active_snapshot_def del: set_map)
qed

lemma oldest_active_cases:
  assumes "distinct (map fst (ms_active st))"
  shows "ms_active st = [] \<and> oldest_active_snapshot st = ms_visible_through st \<or>
    (\<exists>i. map_of (ms_active st) i = Some (oldest_active_snapshot st))"
proof (cases "ms_active st")
  case (Cons a as)
  then have "oldest_active_snapshot st = Min (set (map snd (ms_active st)))"
    by (intro oldest_active_Min) simp
  then have "oldest_active_snapshot st \<in> set (map snd (ms_active st))"
    using Cons Min_in [of "set (map snd (ms_active st))"] by simp
  then show ?thesis using assms by (auto simp del: set_map simp: set_map image_iff)
qed (simp add: oldest_active_snapshot_def)

lemma oldest_active_le:
  "map_of (ms_active st) i = Some s \<Longrightarrow> oldest_active_snapshot st \<le> s"
proof -
  assume a: "map_of (ms_active st) i = Some s"
  then have "s \<in> set (map snd (ms_active st))" by (metis map_of_SomeD set_map snd_conv image_eqI)
  moreover obtain x xs where "ms_active st = x # xs" using a by (cases "ms_active st") auto
  ultimately show ?thesis using oldest_active_Min [of st] Min_le [of "set (map snd (ms_active st))" s] by simp
qed

lemma clock_invD:
  assumes "clock_inv w"
  shows "ms_visible_through (w_state w) < ms_next_commit_timestamp (w_state w)"
    "distinct (map fst (ms_active (w_state w)))"
    "map_of (ms_active (w_state w)) i = Some s \<Longrightarrow> i < ms_next_transaction_id (w_state w)"
    "map_of (ms_active (w_state w)) i = Some s \<Longrightarrow> s \<le> ms_visible_through (w_state w)"
    "p \<in> w_prepared w \<Longrightarrow> map_of (ms_active (w_state w)) (pr_tid p) = Some (pr_snapshot p)"
    "set (ms_completed (w_state w)) \<union> pr_ts ` w_prepared w =
      {ms_visible_through (w_state w) <..< ms_next_commit_timestamp (w_state w)}"
    "set (ms_completed (w_state w)) \<inter> pr_ts ` w_prepared w = {}"
    "ms_visible_through (w_state w) + 1 \<notin> set (ms_completed (w_state w))"
    "inj_on pr_ts (w_prepared w)" "inj_on pr_tid (w_prepared w)"
  using assms by (simp_all add: clock_inv_def Let_def)

lemma oldest_le_visible: "clock_inv w \<Longrightarrow> oldest_active_snapshot (w_state w) \<le> ms_visible_through (w_state w)"
  using oldest_active_cases [of "w_state w"] clock_invD(2,4) [of w] by (metis order.refl)

text \<open>The oldest snapshot in use never moves back.\<close>

lemma oldest_mono:
  assumes "clock_inv w" "distinct (map fst (ms_active st'))"
    and "ms_visible_through (w_state w) \<le> ms_visible_through st'"
    and "\<And>i s. map_of (ms_active st') i = Some s \<Longrightarrow>
      map_of (ms_active (w_state w)) i = Some s \<or> s = ms_visible_through (w_state w)"
  shows "oldest_active_snapshot (w_state w) \<le> oldest_active_snapshot st'"
  using oldest_active_cases [OF assms(2)] oldest_le_visible [OF assms(1)] oldest_active_le [of "w_state w"] assms(3,4)
  by (metis order.trans)

lemma covered_le_length: "covered o' gs hs n \<Longrightarrow> n \<le> length hs"
  by (auto simp: covered_def)

lemma covered_mono:
  assumes "covered x gs hs n" "x \<le> y"
    "\<And>g. g \<in> set gs \<Longrightarrow> gen_timestamp g \<le> x \<Longrightarrow> \<exists>g'\<in>set gs'. gen_timestamp g \<le> gen_timestamp g' \<and> gen_timestamp g' \<le> y"
  shows "covered y gs' hs n"
  using assms unfolding covered_def by (meson order.trans)

lemma covered_append: "covered x gs hs n \<Longrightarrow> covered x gs (hs @ vs) n"
  by (auto simp: covered_def nth_append)

text \<open>What was dropped from memory is no newer than the oldest snapshot in use.\<close>

lemma covered_dropped:
  assumes "covered x gs hs n" "sorted_versions hs" "v \<in> set (take n hs)"
  shows "ver_timestamp v \<le> x"
proof -
  obtain i where i: "i < n" "i < length hs" "v = hs ! i" using assms(3) by (auto simp: in_set_conv_nth)
  have mono: "ver_timestamp (hs ! a) \<le> ver_timestamp (hs ! b)" if "a \<le> b" "b < length hs" for a b
    using assms(2) that by (cases "a = b") (auto simp: sorted_wrt_iff_nth_less less_imp_le)
  show ?thesis
    using assms(1) mono [of i n] mono [of i "n - 1"] i unfolding covered_def by fastforce
qed

section \<open>Reads\<close>

text \<open>
  A read at a snapshot: the version map answers first, then the newest generation that is not newer
  than the snapshot. The page it names holds the versions written to it, of which the newest
  visible one is returned.
\<close>

definition read_state ::
    "(index_generation \<Rightarrow> index_view) \<Rightarrow> (bytes \<Rightarrow> version list) \<Rightarrow> mvcc_state \<Rightarrow> bytes \<Rightarrow> u64 \<Rightarrow> bytes option" where
  "read_state idx H st key snapshot =
    (case newest_at snapshot (key_versions (ms_versions st) key) of
       Some v \<Rightarrow> ver_value v
     | None \<Rightarrow>
         (case generation_at snapshot st of
            None \<Rightarrow> None
          | Some g \<Rightarrow>
              (case idx g key of
                 None \<Rightarrow> None
               | Some pid \<Rightarrow> value_at snapshot (filter (\<lambda>v. ver_page v = pid) (H key)))))"

lemma generation_less_le: "generation_less a b \<Longrightarrow> gen_timestamp a \<le> gen_timestamp b"
  by (auto simp: generation_less_def generation_key_le_def generation_key_def)

lemma last_generation_max:
  "sorted_wrt generation_less gs \<Longrightarrow> g \<in> set gs \<Longrightarrow> gen_timestamp g \<le> gen_timestamp (last gs)"
  by (induction gs rule: rev_induct) (auto simp: sorted_wrt_append dest: generation_less_le)

lemma find_rev_max:
  "sorted_wrt generation_less gs \<Longrightarrow> find (\<lambda>g. gen_timestamp g \<le> t) (rev gs) = Some g \<Longrightarrow>
    g \<in> set gs \<and> gen_timestamp g \<le> t \<and> (\<forall>h\<in>set gs. gen_timestamp h \<le> t \<longrightarrow> gen_timestamp h \<le> gen_timestamp g)"
  by (induction gs rule: rev_induct) (fastforce simp: sorted_wrt_append dest: generation_less_le split: if_splits)+

lemma generation_at_max:
  assumes "sorted_wrt generation_less (ms_generations st)" "generation_at t st = Some g"
  shows "g \<in> set (ms_generations st)" "gen_timestamp g \<le> t"
    "h \<in> set (ms_generations st) \<Longrightarrow> gen_timestamp h \<le> t \<Longrightarrow> gen_timestamp h \<le> gen_timestamp g"
  using find_rev_max [OF assms(1), of t g] assms(2) by (auto simp: generation_at_def)

lemma generation_at_None: "generation_at t st = None \<longleftrightarrow> (\<forall>g\<in>set (ms_generations st). t < gen_timestamp g)"
  by (auto simp: generation_at_def find_None_iff not_le)

lemma value_at_page:
  assumes "sorted_versions hs" "newest_at t hs = Some v" "ver_page v = pid"
  shows "value_at t (filter (\<lambda>v. ver_page v = pid) hs) = ver_value v"
proof -
  let ?f = "filter (\<lambda>v. ver_page v = pid) hs"
  have "sorted_versions ?f" using assms(1) by (induction hs) auto
  then have "newest_at t ?f = Some v"
    using newest_at_SomeD [OF assms(2)] assms newest_at_max [OF assms(1,2)] by (intro newest_at_unique) auto
  then show ?thesis by (simp add: value_at_def)
qed

lemma dropped_newest:
  assumes "sorted_versions hs" "0 < n" "n \<le> length hs" "newest_at t (drop n hs) = None" "ver_timestamp (hs ! (n - 1)) \<le> t"
  shows "newest_at t hs = Some (hs ! (n - 1))"
proof (rule newest_at_unique [OF assms(1)])
  show "hs ! (n - 1) \<in> set hs" using assms(2,3) by simp
  show "\<forall>u\<in>set hs. ver_timestamp u \<le> t \<longrightarrow> ver_timestamp u \<le> ver_timestamp (hs ! (n - 1))"
  proof (intro ballI impI)
    fix u assume u: "u \<in> set hs" "ver_timestamp u \<le> t"
    then have "u \<notin> set (drop n hs)" using assms(4) by (auto simp: newest_at_None)
    then have "u \<in> set (take n hs)" using u(1) by (metis append_take_drop_id Un_iff set_append)
    then obtain i where "i < n" "i < length hs" "u = hs ! i" by (auto simp: in_set_conv_nth)
    then show "ver_timestamp u \<le> ver_timestamp (hs ! (n - 1))"
      using assms(1-3) by (cases "i = n - 1") (auto simp: sorted_wrt_iff_nth_less less_imp_le)
  qed
qed (rule assms(5))

lemma covered_unmasked:
  assumes "covered x gs hs n" "x \<le> t" "newest_at t (drop n hs) = None" "n \<noteq> 0"
  obtains g where "g \<in> set gs" "gen_timestamp g \<le> x" "ver_timestamp (hs ! (n - 1)) \<le> gen_timestamp g" "n \<le> length hs"
proof -
  have "\<not> (n < length hs \<and> ver_timestamp (hs ! n) \<le> x)"
  proof
    assume a: "n < length hs \<and> ver_timestamp (hs ! n) \<le> x"
    then have "hs ! n \<in> set (drop n hs)" by (metis Cons_nth_drop_Suc list.set_intros(1))
    then have "t < ver_timestamp (hs ! n)" using assms(3) by (simp add: newest_at_None)
    then show False using a assms(2) by (meson leD order.trans)
  qed
  then show thesis using assms(1,4) that unfolding covered_def by blast
qed

lemma read_state_correct:
  assumes inv: "mvcc_inv w" and old: "oldest_active_snapshot (w_state w) \<le> t"
  shows "read_state (w_index w) (w_hist w) (w_state w) k t = value_at t (w_hist w k)"
proof -
  let ?st = "w_state w" and ?hs = "w_hist w k"
  obtain n where n: "key_versions (ms_versions ?st) k = drop n ?hs"
    "covered (oldest_active_snapshot ?st) (ms_generations ?st) ?hs n"
    using inv by (auto simp: mvcc_inv_def map_inv_def)
  have srt: "sorted_versions ?hs" and gs: "sorted_wrt generation_less (ms_generations ?st)"
    using inv by (auto simp: mvcc_inv_def hist_inv_def index_inv_def Let_def)
  have whole: "newest_at t ?hs = (case newest_at t (drop n ?hs) of None \<Rightarrow> newest_at t (take n ?hs) | Some v \<Rightarrow> Some v)"
    by (metis append_take_drop_id newest_at_append)
  show ?thesis
  proof (cases "newest_at t (drop n ?hs)")
    case (Some v)
    then show ?thesis using whole n(1) by (simp add: read_state_def value_at_def)
  next
    case None
    show ?thesis
    proof (cases "generation_at t ?st")
      case ngen: None
      have "n = 0"
      proof (rule ccontr)
        assume "n \<noteq> 0"
        obtain g where g: "g \<in> set (ms_generations ?st)" "gen_timestamp g \<le> oldest_active_snapshot ?st"
          by (rule covered_unmasked [OF n(2) old None \<open>n \<noteq> 0\<close>])
        then have "t < gen_timestamp g" using ngen by (simp add: generation_at_None)
        then show False using g(2) old by (meson leD order.trans)
      qed
      then show ?thesis using None ngen n(1) by (simp add: read_state_def value_at_def)
    next
      case (Some g)
      note g = generation_at_max [OF gs Some]
      have ex: "w_index w g k = live_page (gen_timestamp g) ?hs"
        using inv g(1) by (simp add: mvcc_inv_def index_inv_def exact_view_def Let_def)
      have same: "newest_at (gen_timestamp g) ?hs = newest_at t ?hs"
      proof (cases "n = 0")
        case True
        then have "newest_at t ?hs = None" using None by simp
        moreover have "newest_at (gen_timestamp g) ?hs = None"
          using calculation g(2) by (auto simp: newest_at_None)
        ultimately show ?thesis by simp
      next
        case False
        obtain h where h: "h \<in> set (ms_generations ?st)" "gen_timestamp h \<le> oldest_active_snapshot ?st"
          "ver_timestamp (?hs ! (n - 1)) \<le> gen_timestamp h" and le: "n \<le> length ?hs"
          by (rule covered_unmasked [OF n(2) old None False])
        have "gen_timestamp h \<le> gen_timestamp g" using g(3) h(1,2) old by (meson order.trans)
        then have le': "ver_timestamp (?hs ! (n - 1)) \<le> gen_timestamp g" "ver_timestamp (?hs ! (n - 1)) \<le> t"
          using h(3) g(2) by (meson order.trans)+
        have "newest_at (gen_timestamp g) (drop n ?hs) = None"
          using None g(2) by (auto simp: newest_at_None)
        then show ?thesis
          using dropped_newest [OF srt _ le _ le'(1)] dropped_newest [OF srt _ le None le'(2)] False by simp
      qed
      show ?thesis
      proof (cases "newest_at t ?hs")
        case none: None
        then show ?thesis using None Some ex n(1) same by (simp add: read_state_def live_page_def value_at_def)
      next
        case v: (Some v)
        then show ?thesis
          using None Some ex n(1) same value_at_page [OF srt v]
          by (cases "ver_value v") (simp_all add: read_state_def live_page_def value_at_def)
      qed
    qed
  qed
qed

section \<open>Beginning and ending a transaction\<close>

lemma settled_simps [simp]:
  "settled (st\<lparr>ms_active := A\<rparr>) t = settled st t"
  "settled (st\<lparr>ms_next_transaction_id := n\<rparr>) t = settled st t"
  "settled (st\<lparr>ms_next_commit_timestamp := c\<rparr>) t = settled st t"
  "settled (st\<lparr>ms_intents := I\<rparr>) t = settled st t"
  "settled (st\<lparr>ms_generations := G\<rparr>) t = settled st t"
  "settled (st\<lparr>ms_dirty_keys := D\<rparr>) t = settled st t"
  "settled (st\<lparr>ms_versions := V\<rparr>) t = settled st t"
  "settled (st\<lparr>ms_page_refs := R\<rparr>) t = settled st t"
  "settled (st\<lparr>ms_reclaimed := m\<rparr>) t = settled st t"
  by (simp_all add: settled_def)

lemma oldest_simps [simp]:
  "oldest_active_snapshot (st\<lparr>ms_next_commit_timestamp := c\<rparr>) = oldest_active_snapshot st"
  "oldest_active_snapshot (st\<lparr>ms_intents := I\<rparr>) = oldest_active_snapshot st"
  "oldest_active_snapshot (st\<lparr>ms_generations := G\<rparr>) = oldest_active_snapshot st"
  "oldest_active_snapshot (st\<lparr>ms_dirty_keys := D\<rparr>) = oldest_active_snapshot st"
  "oldest_active_snapshot (st\<lparr>ms_versions := V\<rparr>) = oldest_active_snapshot st"
  "oldest_active_snapshot (st\<lparr>ms_page_refs := R\<rparr>) = oldest_active_snapshot st"
  "oldest_active_snapshot (st\<lparr>ms_reclaimed := m\<rparr>) = oldest_active_snapshot st"
  by (simp_all add: oldest_active_snapshot_def cong: list.case_cong)

lemma map_inv_frame:
  assumes "map_inv w" "ms_versions st' = ms_versions (w_state w)"
    "ms_generations st' = ms_generations (w_state w)"
    "oldest_active_snapshot (w_state w) \<le> oldest_active_snapshot st'"
  shows "map_inv (w\<lparr>w_state := st'\<rparr>)"
  using assms covered_mono [OF _ assms(4)] order.trans [OF _ assms(4)] unfolding map_inv_def
  by simp (meson order.refl order.trans)

lemma frame_active:
  assumes inv: "mvcc_inv w" and st': "st' = (w_state w)\<lparr>ms_active := A, ms_next_transaction_id := n\<rparr>"
    and clk: "clock_inv (w\<lparr>w_state := st'\<rparr>)"
    and old: "oldest_active_snapshot (w_state w) \<le> oldest_active_snapshot st'"
  shows "mvcc_inv (w\<lparr>w_state := st'\<rparr>)"
  unfolding mvcc_inv_def
proof (intro conjI)
  show "map_inv (w\<lparr>w_state := st'\<rparr>)"
    using inv old by (intro map_inv_frame) (auto simp: mvcc_inv_def st')
qed (use inv clk in \<open>simp_all add: mvcc_inv_def hist_inv_def intent_inv_def index_inv_def conflict_inv_def Let_def st'\<close>)

lemma begin_inv:
  assumes inv: "mvcc_inv w" and b: "begin_transaction (w_state w) = (Inr tx, st')"
  shows "mvcc_inv (w\<lparr>w_state := st'\<rparr>)"
proof -
  let ?st = "w_state w" and ?id = "ms_next_transaction_id (w_state w)"
  have clk: "clock_inv w" using inv by (simp add: mvcc_inv_def)
  obtain n where n: "checked_add_u64 ?id 1 = Some n"
    and st': "st' = ?st\<lparr>ms_active := AList.update ?id (ms_visible_through ?st) (ms_active ?st), ms_next_transaction_id := n\<rparr>"
    using b by (auto simp: begin_transaction_def Let_def split: option.splits)
  have lt: "?id < n" using n by (rule checked_add_u64_less)
  have fresh: "map_of (ms_active ?st) ?id = None" using clock_invD(3) [OF clk, of ?id] by (cases "map_of (ms_active ?st) ?id") auto
  have act: "map_of (ms_active st') = (map_of (ms_active ?st))(?id \<mapsto> ms_visible_through ?st)"
    by (simp add: st' update_conv')
  have dist: "distinct (map fst (ms_active st'))"
    using clock_invD(2) [OF clk] by (simp add: st' distinct_update)
  have "clock_inv (w\<lparr>w_state := st'\<rparr>)"
    unfolding clock_inv_def Let_def
  proof (intro conjI allI impI ballI)
    fix p assume "p \<in> w_prepared (w\<lparr>w_state := st'\<rparr>)"
    then show "map_of (ms_active (w_state (w\<lparr>w_state := st'\<rparr>))) (pr_tid p) = Some (pr_snapshot p)"
      using clock_invD(5) [OF clk, of p] fresh act by auto
  next
    fix i s assume "map_of (ms_active (w_state (w\<lparr>w_state := st'\<rparr>))) i = Some s"
    then show "i < ms_next_transaction_id (w_state (w\<lparr>w_state := st'\<rparr>))"
      "s \<le> ms_visible_through (w_state (w\<lparr>w_state := st'\<rparr>))"
      using clock_invD(3,4) [OF clk] act lt by (auto simp: st' split: if_splits intro: less_trans)
  qed (use clock_invD [OF clk] dist in \<open>simp_all add: st'\<close>)
  moreover have "oldest_active_snapshot ?st \<le> oldest_active_snapshot st'"
    using act dist by (intro oldest_mono [OF clk]) (auto simp: st' split: if_splits)
  ultimately show ?thesis using frame_active [OF inv] st' by blast
qed

lemma end_inv:
  assumes inv: "mvcc_inv w" and tid: "tid \<notin> pr_tid ` w_prepared w"
  shows "mvcc_inv (w\<lparr>w_state := end_transaction tid (w_state w)\<rparr>)"
proof -
  let ?st = "w_state w" and ?st' = "end_transaction tid (w_state w)"
  have clk: "clock_inv w" using inv by (simp add: mvcc_inv_def)
  have st': "?st' = ?st\<lparr>ms_active := AList.delete tid (ms_active ?st),
      ms_next_transaction_id := ms_next_transaction_id ?st\<rparr>"
    by (simp add: end_transaction_def)
  have act: "map_of (ms_active ?st') = (map_of (ms_active ?st))(tid := None)"
    by (simp add: end_transaction_def delete_conv')
  have dist: "distinct (map fst (ms_active ?st'))"
    using clock_invD(2) [OF clk] by (simp add: end_transaction_def distinct_delete)
  have "clock_inv (w\<lparr>w_state := ?st'\<rparr>)"
    unfolding clock_inv_def Let_def
  proof (intro conjI allI impI ballI)
    fix p assume "p \<in> w_prepared (w\<lparr>w_state := ?st'\<rparr>)"
    then show "map_of (ms_active (w_state (w\<lparr>w_state := ?st'\<rparr>))) (pr_tid p) = Some (pr_snapshot p)"
      using clock_invD(5) [OF clk, of p] act tid by auto
  next
    fix i s assume "map_of (ms_active (w_state (w\<lparr>w_state := ?st'\<rparr>))) i = Some s"
    then show "i < ms_next_transaction_id (w_state (w\<lparr>w_state := ?st'\<rparr>))"
      "s \<le> ms_visible_through (w_state (w\<lparr>w_state := ?st'\<rparr>))"
      using clock_invD(3,4) [OF clk] act by (auto simp: st' split: if_splits)
  qed (use clock_invD [OF clk] dist in \<open>simp_all add: end_transaction_def\<close>)
  moreover have "oldest_active_snapshot ?st \<le> oldest_active_snapshot ?st'"
    using act dist by (intro oldest_mono [OF clk]) (auto simp: end_transaction_def split: if_splits)
  ultimately show ?thesis using frame_active [OF inv st'] by blast
qed

section \<open>Preparing a commit\<close>

lemma checked_Suc: "checked_add_u64 a 1 = Some c \<Longrightarrow> t < c \<longleftrightarrow> t \<le> a"
  by (drule checked_add_u64_Some) (simp add: word_less_nat_alt word_le_nat_alt less_Suc_eq_le)

lemma map_of_fold_update:
  "map_of (fold (\<lambda>key. AList.update key tid) keys al) k = (if k \<in> set keys then Some tid else map_of al k)"
  by (induction keys arbitrary: al) (auto simp: update_conv')

lemma prepare_commitD:
  assumes "prepare_commit tid snapshot keys scanned st = (Inr ts, st')"
  shows "k \<in> set keys \<Longrightarrow> \<not> write_conflict tid snapshot st k"
    "s \<in> set scanned \<Longrightarrow> \<not> range_conflict tid snapshot st s"
    "ts = ms_next_commit_timestamp st"
    "\<exists>n. checked_add_u64 ts 1 = Some n \<and> st' = st\<lparr>ms_next_commit_timestamp := n,
      ms_intents := fold (\<lambda>key. AList.update key tid) keys (ms_intents st)\<rparr>"
  using assms by (auto simp: prepare_commit_def Let_def find_None_iff split: option.splits)

lemma write_conflict_other:
  "map_of (ms_intents st) k = Some owner \<Longrightarrow> owner \<noteq> tid \<Longrightarrow> write_conflict tid snapshot st k"
  by (simp add: write_conflict_def)

lemma range_conflict_other:
  "map_of (ms_intents st) k = Some owner \<Longrightarrow> owner \<noteq> tid \<Longrightarrow> starts_with k s \<Longrightarrow> range_conflict tid snapshot st s"
  unfolding range_conflict_def list_ex_iff by (rule disjI2, rule bexI [OF _ map_of_SomeD]) auto

lemma range_conflict_newer:
  assumes "newer_than snapshot (key_versions (ms_versions st) k)" "starts_with k s"
  shows "range_conflict tid snapshot st s"
proof -
  obtain vs where vs: "map_of (ms_versions st) k = Some vs" "newer_than snapshot vs"
    using assms(1) by (cases "map_of (ms_versions st) k") (auto simp: key_versions_def newer_than_def)
  have "(k, vs) \<in> set (version_range (ms_versions st) s)"
    using map_of_SomeD [OF vs(1)] prefix_range [of s k] assms(2) by (simp add: version_range_def)
  then show ?thesis using vs(2) unfolding range_conflict_def list_ex_iff by (intro disjI1 bexI) auto
qed

lemma sorted_versions_last:
  "sorted_versions vs \<Longrightarrow> v \<in> set vs \<Longrightarrow> ver_timestamp v \<le> ver_timestamp (last vs)"
  by (induction vs rule: rev_induct) (auto simp: sorted_wrt_append less_imp_le)

lemma hist_le_snapshot:
  assumes inv: "mvcc_inv w" and act: "map_of (ms_active (w_state w)) tid = Some snapshot"
    and new: "\<not> newer_than snapshot (key_versions (ms_versions (w_state w)) k)" and v: "v \<in> set (w_hist w k)"
  shows "ver_timestamp v \<le> snapshot"
proof -
  obtain n where n: "key_versions (ms_versions (w_state w)) k = drop n (w_hist w k)"
    "covered (oldest_active_snapshot (w_state w)) (ms_generations (w_state w)) (w_hist w k) n"
    using inv by (auto simp: mvcc_inv_def map_inv_def)
  have srt: "sorted_versions (w_hist w k)" using inv by (simp add: mvcc_inv_def hist_inv_def)
  show ?thesis
  proof (cases "drop n (w_hist w k) = []")
    case True
    then have "v \<in> set (take n (w_hist w k))" using v by simp
    then show ?thesis using covered_dropped [OF n(2) srt] oldest_active_le [OF act] by (meson order.trans)
  next
    case False
    then have "ver_timestamp (last (w_hist w k)) \<le> snapshot" using new n(1) by (simp add: newer_than_def not_less)
    then show ?thesis using sorted_versions_last [OF srt v] by (meson order.trans)
  qed
qed

lemma prepared_ts:
  "clock_inv w \<Longrightarrow> p \<in> w_prepared w \<Longrightarrow>
    ms_visible_through (w_state w) < pr_ts p \<and> pr_ts p < ms_next_commit_timestamp (w_state w) \<and>
    pr_ts p \<notin> set (ms_completed (w_state w))"
  using clock_invD(6,7) [of w] by (metis Int_iff Un_iff empty_iff greaterThanLessThan_iff image_eqI)

lemma settled_less_next:
  "clock_inv w \<Longrightarrow> settled (w_state w) t \<Longrightarrow> t < ms_next_commit_timestamp (w_state w)"
  using clock_invD(1,6) [of w] unfolding settled_def
  by (metis Un_iff greaterThanLessThan_iff order.strict_trans1)

lemma prepared_not_settled: "clock_inv w \<Longrightarrow> p \<in> w_prepared w \<Longrightarrow> \<not> settled (w_state w) (pr_ts p)"
  using prepared_ts [of w p] by (auto simp: settled_def)

lemma intent_invD:
  assumes "mvcc_inv w" "p \<in> w_prepared w"
  shows "bt_sorted (pr_writes p)"
    "k \<in> pr_keys p \<Longrightarrow> map_of (ms_intents (w_state w)) k = Some (pr_tid p)"
    "k \<in> pr_keys p \<Longrightarrow> v \<in> set (w_hist w k) \<Longrightarrow> ver_timestamp v \<le> pr_snapshot p"
  using assms unfolding mvcc_inv_def intent_inv_def by blast+

lemma conflict_invD:
  assumes "mvcc_inv w"
  shows "p \<in> w_prepared w \<union> w_commits w \<Longrightarrow> guarded p k \<Longrightarrow> v \<in> set (w_hist w k) \<Longrightarrow>
      ver_timestamp v \<le> pr_snapshot p \<or> pr_ts p \<le> ver_timestamp v"
    "p \<in> w_prepared w \<union> w_commits w \<Longrightarrow> guarded p k \<Longrightarrow> q \<in> w_prepared w \<Longrightarrow> k \<in> pr_keys q \<Longrightarrow> pr_ts p \<le> pr_ts q"
    "p \<in> w_commits w \<Longrightarrow> settled (w_state w) (pr_ts p)"
  using assms unfolding mvcc_inv_def conflict_inv_def by blast+

lemma prepare_inv:
  assumes inv: "mvcc_inv w" and act: "map_of (ms_active (w_state w)) tid = Some snapshot"
    and tid: "tid \<notin> pr_tid ` w_prepared w" and srt: "bt_sorted writes"
    and prep: "prepare_commit tid snapshot (map fst writes) scanned (w_state w) = (Inr ts, st')"
  defines "p \<equiv> \<lparr>pr_tid = tid, pr_ts = ts, pr_snapshot = snapshot, pr_writes = writes, pr_scanned = scanned\<rparr>"
  shows "mvcc_inv (w\<lparr>w_state := st', w_prepared := insert p (w_prepared w)\<rparr>)"
proof -
  let ?st = "w_state w" and ?w' = "w\<lparr>w_state := st', w_prepared := insert p (w_prepared w)\<rparr>"
  note d = prepare_commitD [OF prep]
  obtain n where n: "checked_add_u64 ts 1 = Some n" and st': "st' = ?st\<lparr>ms_next_commit_timestamp := n,
      ms_intents := fold (\<lambda>key. AList.update key tid) (map fst writes) (ms_intents ?st)\<rparr>"
    using d(4) by blast
  have clk: "clock_inv w" using inv by (simp add: mvcc_inv_def)
  have suc: "t < n \<longleftrightarrow> t \<le> ts" for t by (rule checked_Suc [OF n])
  have own: "map_of (ms_intents ?st) k = Some (pr_tid q)" if "q \<in> w_prepared w" "k \<in> pr_keys q" for q k
    by (rule intent_invD(2) [OF inv that])
  have disj: "\<not> guarded p k" if q: "q \<in> w_prepared w" "k \<in> pr_keys q" for q k
  proof
    have ne: "pr_tid q \<noteq> tid" using tid q(1) by blast
    assume "guarded p k"
    then consider "k \<in> set (map fst writes)" | s where "s \<in> set scanned" "starts_with k s"
      by (auto simp: guarded_def p_def)
    then show False
      using d(1) [of k] write_conflict_other [OF own [OF q] ne] d(2) range_conflict_other [OF own [OF q] ne]
      by cases blast+
  qed
  have le: "ver_timestamp v \<le> snapshot" if k: "guarded p k" "v \<in> set (w_hist w k)" for k v
  proof (rule hist_le_snapshot [OF inv act _ k(2)])
    consider "k \<in> set (map fst writes)" | s where "s \<in> set scanned" "starts_with k s"
      using k(1) by (auto simp: guarded_def p_def)
    then show "\<not> newer_than snapshot (key_versions (ms_versions ?st) k)"
      using d(1) [of k] d(2) range_conflict_newer [of snapshot ?st k _ tid]
      by cases (auto simp: write_conflict_def)
  qed
  have "clock_inv ?w'"
    using clock_invD [OF clk] prepared_ts [OF clk] act tid suc d(3) unfolding clock_inv_def Let_def
    by (auto simp: st' p_def inj_on_insert less_imp_le)
  moreover have "intent_inv ?w'"
    unfolding intent_inv_def
  proof (intro ballI conjI)
    fix q assume q: "q \<in> w_prepared ?w'"
    show "bt_sorted (pr_writes q)" using q srt inv by (auto simp: p_def mvcc_inv_def intent_inv_def)
    fix k assume k: "k \<in> pr_keys q"
    show "map_of (ms_intents (w_state ?w')) k = Some (pr_tid q)"
    proof (cases "q = p")
      case True
      then show ?thesis using k by (simp add: p_def st' map_of_fold_update)
    next
      case False
      then have "k \<notin> pr_keys p" using disj q k by (auto simp: guarded_def)
      then show ?thesis using own q k False by (simp add: st' map_of_fold_update p_def)
    qed
    fix v assume v: "v \<in> set (w_hist ?w' k)"
    show "ver_timestamp v \<le> pr_snapshot q"
    proof (cases "q = p")
      case True
      then show ?thesis using le [of k v] k v by (simp add: guarded_def p_def)
    next
      case False
      then show ?thesis using intent_invD(3) [OF inv, of q k v] q k v by simp
    qed
  qed
  moreover have "conflict_inv ?w'"
  proof -
    have new: "pr_ts q \<le> ts" if "q \<in> w_prepared w \<union> w_commits w" for q
      using that prepared_ts [OF clk, of q] settled_less_next [OF clk conflict_invD(3) [OF inv, of q]] d(3)
      by (auto simp: less_imp_le)
    show ?thesis
      unfolding conflict_inv_def
    proof (intro conjI ballI allI impI)
      fix q k assume q: "q \<in> w_prepared ?w' \<union> w_commits ?w'" and g: "guarded q k"
      fix v assume v: "v \<in> set (w_hist ?w' k)"
      show "ver_timestamp v \<le> pr_snapshot q \<or> pr_ts q \<le> ver_timestamp v"
      proof (cases "q = p")
        case True
        then show ?thesis using le [of k v] g v by (simp add: p_def)
      next
        case False
        then show ?thesis using conflict_invD(1) [OF inv _ g] q v by auto
      qed
    next
      fix q k r assume q: "q \<in> w_prepared ?w' \<union> w_commits ?w'" and g: "guarded q k"
        and r: "r \<in> w_prepared ?w'" "k \<in> pr_keys r"
      consider "r = p" | "r \<in> w_prepared w" "q = p" | "r \<in> w_prepared w" "q \<in> w_prepared w \<union> w_commits w"
        using q r(1) by auto
      then show "pr_ts q \<le> pr_ts r"
      proof cases
        case 1
        then show ?thesis using new [of q] q by (auto simp: p_def)
      next
        case 2
        then show ?thesis using disj [OF _ r(2)] g by blast
      next
        case 3
        then show ?thesis using conflict_invD(2) [OF inv _ g] r(2) by blast
      qed
    next
      fix q assume "q \<in> w_commits ?w'"
      then show "settled (w_state ?w') (pr_ts q)" using conflict_invD(3) [OF inv, of q] by (simp add: st')
    qed
  qed
  moreover have "map_inv ?w'"
  proof -
    have "map_inv (w\<lparr>w_state := st'\<rparr>)"
      using inv by (intro map_inv_frame) (auto simp: mvcc_inv_def st')
    then show ?thesis by (simp add: map_inv_def)
  qed
  ultimately show ?thesis
    using inv by (simp add: mvcc_inv_def hist_inv_def index_inv_def Let_def st')
qed

section \<open>Finishing a commit\<close>

lemma map_of_drop_intents:
  "map_of (fold (\<lambda>w. drop_intent tid (fst w)) writes I) k =
    (if k \<in> fst ` set writes \<and> map_of I k = Some tid then None else map_of I k)"
proof (induction writes arbitrary: I)
  case (Cons w ws)
  then show ?case by (auto simp: drop_intent_def delete_conv')
qed simp

lemma key_versions_insert:
  "bt_sorted vm \<Longrightarrow> key_versions (bt_insert key vs vm) k = (if k = key then vs else key_versions vm k)"
  by (simp add: key_versions_def map_of_bt_insert)

lemma insert_position:
  assumes "\<forall>v\<in>set vs. ver_timestamp v < t"
  shows "binary_search ver_timestamp t vs = Inl (length vs)"
proof -
  have tw: "takeWhile (\<lambda>v. ver_timestamp v < t) vs = vs" using assms by simp
  show ?thesis unfolding binary_search.simps partition_point_def tw by simp
qed

lemma strict_insort_insert: "sorted_wrt (<) xs \<Longrightarrow> sorted_wrt (<) (insort_insert x xs)"
  by (simp add: strict_sorted_iff sorted_insort_insert distinct_insort_insert)

lemma install_versions_ok:
  assumes "distinct (map (fst \<circ> fst) xs)" "bt_sorted (ms_versions st)" "sorted_wrt (<) (ms_dirty_keys st)"
    "\<forall>x\<in>set xs. \<forall>v\<in>set (key_versions (ms_versions st) (fst (fst x))). ver_timestamp v < ts"
  shows "\<exists>V R D. install_versions ts xs pos st =
      (Inr (), st\<lparr>ms_versions := V, ms_page_refs := R, ms_dirty_keys := D\<rparr>) \<and>
    bt_sorted V \<and> sorted_wrt (<) D \<and> set D = set (ms_dirty_keys st) \<union> (fst \<circ> fst) ` set xs \<and>
    (\<forall>k. key_versions V k = key_versions (ms_versions st) k @
      (case map_of (map (\<lambda>x. (fst (fst x), (snd (fst x), snd x))) xs) k of
         None \<Rightarrow> [] | Some (val, pid) \<Rightarrow> [\<lparr>ver_timestamp = ts, ver_value = val, ver_page = pid\<rparr>]))"
  using assms
proof (induction xs arbitrary: pos st)
  case Nil
  show ?case by (rule exI [of _ "ms_versions st"], rule exI [of _ "ms_page_refs st"], rule exI [of _ "ms_dirty_keys st"])
      (use Nil in simp)
next
  case (Cons x xs)
  obtain key val pid where x: "x = ((key, val), pid)" by (metis prod.exhaust)
  let ?vs = "key_versions (ms_versions st) key"
  let ?v = "\<lparr>ver_timestamp = ts, ver_value = val, ver_page = pid\<rparr>"
  let ?refs = "case map_of (ms_page_refs st) pid of None \<Rightarrow> 0 | Some n \<Rightarrow> n"
  let ?st1 = "st\<lparr>ms_versions := bt_insert key (?vs @ [?v]) (ms_versions st),
    ms_page_refs := AList.update pid (?refs + 1) (ms_page_refs st),
    ms_dirty_keys := insort_insert key (ms_dirty_keys st)\<rparr>"
  have "binary_search ver_timestamp ts ?vs = Inl (length ?vs)"
    using Cons.prems(4) x by (intro insert_position) simp
  then have step: "install_versions ts (x # xs) pos st = install_versions ts xs (pos + 1) ?st1"
    by (simp add: x Let_def)
  have kv: "key_versions (ms_versions ?st1) k = (if k = key then ?vs @ [?v] else key_versions (ms_versions st) k)" for k
    using key_versions_insert [OF Cons.prems(2)] by simp
  have fresh: "y \<in> set xs \<Longrightarrow> fst (fst y) \<noteq> key" for y using Cons.prems(1) x by (auto simp: image_iff)
  have "\<forall>y\<in>set xs. \<forall>v\<in>set (key_versions (ms_versions ?st1) (fst (fst y))). ver_timestamp v < ts"
    using Cons.prems(4) fresh unfolding kv by simp
  then obtain V R D where
    r: "install_versions ts xs (pos + 1) ?st1 = (Inr (), ?st1\<lparr>ms_versions := V, ms_page_refs := R, ms_dirty_keys := D\<rparr>)"
    and sV: "bt_sorted V" and sD: "sorted_wrt (<) D" and D: "set D = set (ms_dirty_keys ?st1) \<union> (fst \<circ> fst) ` set xs"
    and V: "\<forall>k. key_versions V k = key_versions (ms_versions ?st1) k @
      (case map_of (map (\<lambda>x. (fst (fst x), (snd (fst x), snd x))) xs) k of
         None \<Rightarrow> [] | Some (val, pid) \<Rightarrow> [\<lparr>ver_timestamp = ts, ver_value = val, ver_page = pid\<rparr>])"
    using Cons.IH [of ?st1 "pos + 1"] Cons.prems(1-3) by (auto simp: bt_sorted_insert strict_insort_insert)
  have none: "map_of (map (\<lambda>x. (fst (fst x), (snd (fst x), snd x))) xs) key = None"
    using fresh by (fastforce simp: map_of_eq_None_iff)
  show ?case
  proof (intro exI conjI)
    show "install_versions ts (x # xs) pos st = (Inr (), st\<lparr>ms_versions := V, ms_page_refs := R, ms_dirty_keys := D\<rparr>)"
      unfolding step r by simp
    show "set D = set (ms_dirty_keys st) \<union> (fst \<circ> fst) ` set (x # xs)"
      unfolding D by (auto simp: x set_insort_insert)
    show "\<forall>k. key_versions V k = key_versions (ms_versions st) k @
      (case map_of (map (\<lambda>x. (fst (fst x), (snd (fst x), snd x))) (x # xs)) k of
         None \<Rightarrow> [] | Some (val, pid) \<Rightarrow> [\<lparr>ver_timestamp = ts, ver_value = val, ver_page = pid\<rparr>])"
      using V none unfolding kv by (simp add: x)
  qed (rule sV, rule sD)
qed

lemma advance_visible_spec:
  "advance_visible v c = (v', c') \<Longrightarrow> \<forall>t\<in>set c. v < t \<Longrightarrow>
    v \<le> v' \<and> set c' = {t \<in> set c. v' < t} \<and> {v<..v'} \<subseteq> set c \<and> v' + 1 \<notin> set c'"
proof (induction v c arbitrary: v' c' rule: advance_visible.induct)
  case (1 v c)
  show ?case
  proof (cases "checked_add_u64 v 1")
    case None
    then have "unat v + 1 \<ge> 2 ^ 64" by (auto simp: checked_add_u64_def split: if_splits)
    then have "\<not> v < t" for t using unat_u64_less [of t] unfolding word_less_nat_alt by linarith
    then have "c = []" using "1.prems"(2) by (cases c) auto
    then show ?thesis using None "1.prems"(1) by (auto simp: advance_visible.simps [of v "[]"])
  next
    case (Some n)
    note suc = checked_Suc [OF Some] and lt = checked_add_u64_less [OF Some]
    have n: "n = v + 1" using Some by (auto simp: checked_add_u64_def split: if_splits)
    have le: "n \<le> t" if "v < t" for t using suc [of t] that by (meson leD not_le)
    show ?thesis
    proof (cases "n \<in> set c")
      case True
      have "advance_visible n (removeAll n c) = (v', c')"
        using "1.prems"(1) Some True by (simp add: advance_visible.simps [of v c])
      moreover have "\<forall>t\<in>set (removeAll n c). n < t"
      proof
        fix t assume "t \<in> set (removeAll n c)"
        then have "n \<le> t" "t \<noteq> n" using "1.prems"(2) le by simp_all
        then show "n < t" by simp
      qed
      ultimately have IH: "n \<le> v'" "set c' = {t \<in> set (removeAll n c). v' < t}" "{n<..v'} \<subseteq> set (removeAll n c)"
        "v' + 1 \<notin> set c'"
        using "1.IH" [OF Some True, of v' c'] by blast+
      have "{v<..v'} \<subseteq> set c"
      proof
        fix t assume t: "t \<in> {v<..v'}"
        show "t \<in> set c"
        proof (cases "t = n")
          case False
          then have "t \<in> {n<..v'}" using t le [of t] by auto
          then show ?thesis using IH(3) by auto
        qed (use True in simp)
      qed
      moreover have "set c' = {t \<in> set c. v' < t}"
        unfolding IH(2) using IH(1) by (simp add: set_eq_iff) (metis leD)
      moreover have "v \<le> v'" using IH(1) lt by (meson less_imp_le order.trans)
      ultimately show ?thesis using IH(4) by blast
    next
      case False
      then have "v' = v" "c' = c" using "1.prems"(1) Some by (simp_all add: advance_visible.simps [of v c])
      then show ?thesis using False n "1.prems"(2) by auto
    qed
  qed
qed

lemma complete_timestamp_ok:
  assumes clk: "clock_inv w" and p: "p \<in> w_prepared w"
    and st1: "ms_visible_through st1 = ms_visible_through (w_state w)" "ms_completed st1 = ms_completed (w_state w)"
  defines "st' \<equiv> complete_timestamp (pr_ts p) st1"
  shows "\<exists>V' C'. st' = st1\<lparr>ms_visible_through := V', ms_completed := C'\<rparr> \<and> ms_visible_through (w_state w) \<le> V' \<and>
    V' < ms_next_commit_timestamp (w_state w) \<and> V' + 1 \<notin> set C' \<and>
    set C' \<union> pr_ts ` (w_prepared w - {p}) = {V'<..<ms_next_commit_timestamp (w_state w)} \<and>
    set C' \<inter> pr_ts ` (w_prepared w - {p}) = {} \<and>
    (\<forall>t. (t \<le> V' \<or> t \<in> set C') = (settled (w_state w) t \<or> t = pr_ts p))"
proof -
  let ?V = "ms_visible_through (w_state w)" and ?C = "ms_completed (w_state w)"
  let ?N = "ms_next_commit_timestamp (w_state w)" and ?P = "pr_ts ` (w_prepared w - {p})"
  obtain V' C' where a: "advance_visible ?V (insort_insert (pr_ts p) ?C) = (V', C')" by force
  have set_c: "set (insort_insert (pr_ts p) ?C) = insert (pr_ts p) (set ?C)" by (simp add: set_insort_insert)
  have all: "insert (pr_ts p) (set ?C) \<union> ?P = {?V<..<?N}"
    using clock_invD(6) [OF clk] p by auto
  have notin: "pr_ts p \<notin> ?P" using clock_invD(9) [OF clk] p by (auto simp: inj_on_def)
  then have disj: "insert (pr_ts p) (set ?C) \<inter> ?P = {}" using clock_invD(7) [OF clk] by blast
  have gt: "\<forall>t\<in>set (insort_insert (pr_ts p) ?C). ?V < t" unfolding set_c using all by auto
  let ?A = "insert (pr_ts p) (set ?C)"
  have le: "?V \<le> V'" and c': "t \<in> set C' \<longleftrightarrow> t \<in> ?A \<and> V' < t" and nx: "V' + 1 \<notin> set C'"
    and sub: "?V < t \<Longrightarrow> t \<le> V' \<Longrightarrow> t \<in> ?A" for t
    using advance_visible_spec [OF a gt, unfolded set_c] by auto
  have all': "t \<in> ?A \<or> t \<in> ?P \<longleftrightarrow> ?V < t \<and> t < ?N" for t
    using all by (metis Un_iff greaterThanLessThan_iff)
  have vn: "V' < ?N"
  proof (cases "V' = ?V")
    case True
    then show ?thesis using clock_invD(1) [OF clk] by simp
  next
    case False
    then have "?V < V'" using le by simp
    then show ?thesis using sub [of V'] all' [of V'] by blast
  qed
  have mem: "t \<in> set C' \<or> t \<in> ?P \<longleftrightarrow> V' < t \<and> t < ?N" for t
  proof
    assume t: "t \<in> set C' \<or> t \<in> ?P"
    then have "?V < t" "t < ?N" using c' all' by blast+
    moreover have "V' < t" using t c' disj sub [OF \<open>?V < t\<close>] by (meson disjoint_iff not_le)
    ultimately show "V' < t \<and> t < ?N" by simp
  next
    assume t: "V' < t \<and> t < ?N"
    then have "?V < t" using le by (meson order.strict_trans1)
    then show "t \<in> set C' \<or> t \<in> ?P" using all' [of t] c' t by blast
  qed
  have s1: "set C' \<union> ?P = {V'<..<?N}" by (rule set_eqI) (simp only: Un_iff mem greaterThanLessThan_iff)
  have s2: "set C' \<inter> ?P = {}" using disj c' by (meson disjoint_iff)
  have settle: "(t \<le> V' \<or> t \<in> set C') = (settled (w_state w) t \<or> t = pr_ts p)" for t
  proof -
    have "settled (w_state w) t \<or> t = pr_ts p \<longleftrightarrow> t \<le> ?V \<or> t \<in> ?A" by (auto simp: settled_def)
    also have "\<dots> \<longleftrightarrow> t \<le> V' \<or> t \<in> set C'" using le c' sub by (meson not_le order.trans)
    finally show ?thesis by simp
  qed
  have "st' = st1\<lparr>ms_visible_through := V', ms_completed := C'\<rparr>"
    unfolding st'_def complete_timestamp_def st1 a by simp
  with le vn nx s1 s2 settle show ?thesis by (intro exI [of _ V'] exI [of _ C'] conjI allI)
qed

lemma index_invD:
  assumes "mvcc_inv w"
  shows "sorted_wrt generation_less (ms_generations (w_state w))"
    "g \<in> set (ms_generations (w_state w)) \<Longrightarrow> gen_timestamp g \<le> ms_visible_through (w_state w)"
    "g \<in> set (ms_generations (w_state w)) \<Longrightarrow> exact_view (w_hist w) (gen_timestamp g) (w_index w g)"
    "(t, view) \<in> w_jobs w \<Longrightarrow> t \<le> ms_visible_through (w_state w)"
    "(t, view) \<in> w_jobs w \<Longrightarrow> exact_view (w_hist w) t view"
    "v \<in> set (key_versions (ms_versions (w_state w)) k) \<Longrightarrow> k \<notin> set (ms_dirty_keys (w_state w)) \<Longrightarrow>
      \<exists>g\<in>set (ms_generations (w_state w)). ver_timestamp v \<le> gen_timestamp g"
    "sorted_wrt (<) (ms_dirty_keys (w_state w))"
  using assms unfolding mvcc_inv_def index_inv_def Let_def by blast+

lemma hist_invD:
  assumes "mvcc_inv w"
  shows "sorted_versions (w_hist w k)" "v \<in> set (w_hist w k) \<Longrightarrow> settled (w_state w) (ver_timestamp v)"
  using assms unfolding mvcc_inv_def hist_inv_def by blast+

lemma live_page_later:
  "\<forall>v\<in>set vs. t < ver_timestamp v \<Longrightarrow> live_page t (hs @ vs) = live_page t hs"
  by (simp add: live_page_def newest_at_append newest_at_None [THEN iffD2])

lemma exact_view_later:
  assumes "exact_view H t view" "\<And>k v. v \<in> set (new k) \<Longrightarrow> t < ver_timestamp v"
  shows "exact_view (\<lambda>k. H k @ new k) t view"
  using assms by (simp add: exact_view_def live_page_later)

lemma finish_core:
  fixes new :: "bytes \<Rightarrow> version list" and I' V R D
  assumes inv: "mvcc_inv w" and p: "p \<in> w_prepared w"
    and I': "\<And>k. map_of I' k = (if k \<in> pr_keys p then None else map_of (ms_intents (w_state w)) k)"
    and V: "bt_sorted V" "\<And>k. key_versions V k = key_versions (ms_versions (w_state w)) k @ new k"
    and new: "\<And>k v. v \<in> set (new k) \<Longrightarrow> k \<in> pr_keys p \<and> ver_timestamp v = pr_ts p" "\<And>k. length (new k) \<le> 1"
    and D: "sorted_wrt (<) D" "set (ms_dirty_keys (w_state w)) \<subseteq> set D" "\<And>k. new k \<noteq> [] \<Longrightarrow> k \<in> set D"
    and C: "Cs = w_commits w \<or> Cs = insert p (w_commits w)"
    and st': "st' = complete_timestamp (pr_ts p)
      ((w_state w)\<lparr>ms_intents := I', ms_versions := V, ms_page_refs := R, ms_dirty_keys := D\<rparr>)"
  shows "mvcc_inv (w\<lparr>w_state := st', w_prepared := w_prepared w - {p}, w_commits := Cs,
    w_hist := (\<lambda>k. w_hist w k @ new k)\<rparr>)" (is "mvcc_inv ?w'")
proof -
  let ?st = "w_state w"
  have clk: "clock_inv w" using inv by (simp add: mvcc_inv_def)
  obtain V' C' where st: "st' = ?st\<lparr>ms_intents := I', ms_versions := V, ms_page_refs := R, ms_dirty_keys := D,
      ms_visible_through := V', ms_completed := C'\<rparr>"
    and le: "ms_visible_through ?st \<le> V'" and vn: "V' < ms_next_commit_timestamp ?st" and nx: "V' + 1 \<notin> set C'"
    and s1: "set C' \<union> pr_ts ` (w_prepared w - {p}) = {V'<..<ms_next_commit_timestamp ?st}"
    and s2: "set C' \<inter> pr_ts ` (w_prepared w - {p}) = {}"
    and settle: "\<And>t. (t \<le> V' \<or> t \<in> set C') = (settled ?st t \<or> t = pr_ts p)"
    using complete_timestamp_ok [OF clk p, of "?st\<lparr>ms_intents := I', ms_versions := V, ms_page_refs := R, ms_dirty_keys := D\<rparr>"]
    unfolding st' by auto
  have settled': "settled st' t \<longleftrightarrow> settled ?st t \<or> t = pr_ts p" for t
    using settle [of t] by (simp add: settled_def st)
  have pts: "ms_visible_through ?st < pr_ts p" using prepared_ts [OF clk p] by simp
  have snap: "pr_snapshot p \<le> ms_visible_through ?st" using clock_invD(4) [OF clk clock_invD(5) [OF clk p]] .
  have newgt: "ms_visible_through ?st < ver_timestamp v" if "v \<in> set (new k)" for k v
    using new(1) [OF that] pts by simp
  have other: "k \<notin> pr_keys p" if q: "q \<in> w_prepared w" "q \<noteq> p" "k \<in> pr_keys q" for q k
    using intent_invD(2) [OF inv q(1,3)] intent_invD(2) [OF inv p, of k] clock_invD(10) [OF clk] q p
    by (metis inj_onD option.inject)
  have old: "oldest_active_snapshot ?st \<le> oldest_active_snapshot st'"
    using clock_invD(2) [OF clk] le by (intro oldest_mono [OF clk]) (simp_all add: st)
  have "clock_inv ?w'"
    unfolding clock_inv_def Let_def
  proof (intro conjI allI impI ballI)
    fix i s assume "map_of (ms_active (w_state ?w')) i = Some s"
    then show "i < ms_next_transaction_id (w_state ?w')" "s \<le> ms_visible_through (w_state ?w')"
      using clock_invD(3,4) [OF clk, of i s] le by (auto simp: st intro: order.trans)
  qed (use clock_invD(2,5,9,10) [OF clk] vn nx s1 s2 in \<open>auto simp: st intro: inj_on_subset\<close>)
  moreover have "hist_inv ?w'"
    unfolding hist_inv_def
  proof (intro allI conjI ballI)
    fix k
    have "ver_timestamp v < ver_timestamp u" if "v \<in> set (w_hist w k)" "u \<in> set (new k)" for u v
      using intent_invD(3) [OF inv p _ that(1)] new(1) [OF that(2)] snap newgt [OF that(2)]
      by (meson order.strict_trans1 order.trans)
    moreover have "sorted_versions (new k)" using new(2) [of k] by (cases "new k") auto
    ultimately show "sorted_versions (w_hist ?w' k)"
      using hist_invD(1) [OF inv, of k] by (simp add: sorted_wrt_append)
    fix v assume "v \<in> set (w_hist ?w' k)"
    then show "settled (w_state ?w') (ver_timestamp v)"
      using hist_invD(2) [OF inv, of v k] new(1) [of v k] settled' by auto
  qed
  moreover have "intent_inv ?w'"
    unfolding intent_inv_def
  proof (intro ballI conjI)
    fix q assume q: "q \<in> w_prepared ?w'"
    then show "bt_sorted (pr_writes q)" using intent_invD(1) [OF inv, of q] by simp
    fix k assume k: "k \<in> pr_keys q"
    have kp: "k \<notin> pr_keys p" using other [OF _ _ k] q by simp
    show "map_of (ms_intents (w_state ?w')) k = Some (pr_tid q)"
      using intent_invD(2) [OF inv, of q k] q k I' [of k] kp by (simp add: st)
    fix v assume "v \<in> set (w_hist ?w' k)"
    then show "ver_timestamp v \<le> pr_snapshot q"
      using intent_invD(3) [OF inv, of q k v] q k kp new(1) [of v k] by auto
  qed
  moreover have "map_inv ?w'"
    unfolding map_inv_def
  proof (intro conjI allI)
    fix k
    obtain n where n: "key_versions (ms_versions ?st) k = drop n (w_hist w k)"
      "covered (oldest_active_snapshot ?st) (ms_generations ?st) (w_hist w k) n"
      using inv by (auto simp: mvcc_inv_def map_inv_def)
    have "key_versions V k = drop n (w_hist w k @ new k)"
      using V(2) n(1) covered_le_length [OF n(2)] by simp
    moreover have "covered (oldest_active_snapshot st') (ms_generations st') (w_hist w k @ new k) n"
      by (rule covered_mono [OF covered_append [OF n(2)] old]) (use old in \<open>auto simp: st intro: order.trans\<close>)
    ultimately show "\<exists>n. key_versions (ms_versions (w_state ?w')) k = drop n (w_hist ?w' k) \<and>
        covered (oldest_active_snapshot (w_state ?w')) (ms_generations (w_state ?w')) (w_hist ?w' k) n"
      by (auto simp: st)
  qed (use V(1) in \<open>simp add: st\<close>)
  moreover have "index_inv ?w'"
  proof -
    have ex: "exact_view (\<lambda>k. w_hist w k @ new k) t view" if "exact_view (w_hist w) t view" "t \<le> ms_visible_through ?st" for t view
      by (rule exact_view_later [OF that(1)]) (use that(2) newgt in \<open>meson order.strict_trans1\<close>)
    show ?thesis
      unfolding index_inv_def Let_def
    proof (intro conjI allI impI ballI)
      fix x assume "x \<in> w_jobs ?w'"
      then show "case x of (t, view) \<Rightarrow> t \<le> ms_visible_through (w_state ?w') \<and> exact_view (w_hist ?w') t view"
        using index_invD(4,5) [OF inv] ex le by (cases x) (auto simp: st intro: order.trans)
    next
      fix k v assume v: "v \<in> set (key_versions (ms_versions (w_state ?w')) k)" and k: "k \<notin> set (ms_dirty_keys (w_state ?w'))"
      have "new k = []" using D(3) k by (auto simp: st)
      then have "v \<in> set (key_versions (ms_versions ?st) k)" using v V(2) by (simp add: st)
      then show "\<exists>g\<in>set (ms_generations (w_state ?w')). ver_timestamp v \<le> gen_timestamp g"
        using index_invD(6) [OF inv] k D(2) by (auto simp: st)
    next
      fix g assume g: "g \<in> set (ms_generations (w_state ?w'))"
      then show "gen_timestamp g \<le> ms_visible_through (w_state ?w')"
        using index_invD(2) [OF inv, of g] le by (auto simp: st intro: order.trans)
      show "exact_view (w_hist ?w') (gen_timestamp g) (w_index ?w' g)"
        using ex [OF index_invD(3) [OF inv, of g] index_invD(2) [OF inv, of g]] g by (simp add: st)
    qed (use index_invD(1) [OF inv] D(1) in \<open>simp_all add: st\<close>)
  qed
  moreover have "conflict_inv ?w'"
    unfolding conflict_inv_def
  proof (intro conjI ballI allI impI)
    fix q k v assume q: "q \<in> w_prepared ?w' \<union> w_commits ?w'" and g: "guarded q k" and v: "v \<in> set (w_hist ?w' k)"
    have q': "q \<in> w_prepared w \<union> w_commits w" using q C p by auto
    show "ver_timestamp v \<le> pr_snapshot q \<or> pr_ts q \<le> ver_timestamp v"
      using v conflict_invD(1) [OF inv q' g, of v] conflict_invD(2) [OF inv q' g p] new(1) [of v k] by auto
  next
    fix q k r assume q: "q \<in> w_prepared ?w' \<union> w_commits ?w'" and g: "guarded q k"
      and r: "r \<in> w_prepared ?w'" "k \<in> pr_keys r"
    have q': "q \<in> w_prepared w \<union> w_commits w" using q C p by auto
    show "pr_ts q \<le> pr_ts r" using conflict_invD(2) [OF inv q' g] r by simp
  next
    fix q assume "q \<in> w_commits ?w'"
    then show "settled (w_state ?w') (pr_ts q)" using conflict_invD(3) [OF inv, of q] C settled' by auto
  qed
  ultimately show ?thesis by (simp add: mvcc_inv_def)
qed

lemma drop_intents_prepared:
  assumes "mvcc_inv w" "p \<in> w_prepared w"
  shows "map_of (fold (\<lambda>w. drop_intent (pr_tid p) (fst w)) (pr_writes p) (ms_intents (w_state w))) k =
    (if k \<in> pr_keys p then None else map_of (ms_intents (w_state w)) k)"
  using intent_invD(2) [OF assms, of k] by (auto simp: map_of_drop_intents)

lemma abort_inv:
  assumes inv: "mvcc_inv w" and p: "p \<in> w_prepared w"
    and f: "finish_prepared (pr_tid p) (pr_ts p) (pr_writes p) None (w_state w) = (r, st')"
  shows "mvcc_inv (w\<lparr>w_state := st', w_prepared := w_prepared w - {p}\<rparr>)" "r = Inr ()"
proof -
  let ?st = "w_state w"
  let ?I = "fold (\<lambda>w. drop_intent (pr_tid p) (fst w)) (pr_writes p) (ms_intents ?st)"
  have st': "st' = complete_timestamp (pr_ts p) (?st\<lparr>ms_intents := ?I, ms_versions := ms_versions ?st,
      ms_page_refs := ms_page_refs ?st, ms_dirty_keys := ms_dirty_keys ?st\<rparr>)" and r: "r = Inr ()"
    using f by (auto simp: finish_prepared_def Let_def)
  have "mvcc_inv (w\<lparr>w_state := st', w_prepared := w_prepared w - {p}, w_commits := w_commits w,
      w_hist := (\<lambda>k. w_hist w k @ [])\<rparr>)"
    using inv index_invD(7) [OF inv]
    by (intro finish_core [OF inv p drop_intents_prepared [OF inv p] _ _ _ _ _ _ _ _ st'])
      (auto simp: mvcc_inv_def map_inv_def)
  then show "mvcc_inv (w\<lparr>w_state := st', w_prepared := w_prepared w - {p}\<rparr>)" by simp
  show "r = Inr ()" by (rule r)
qed

lemma zip_split: "length ps = length xs \<Longrightarrow>
  map (\<lambda>x. (fst (fst x), (snd (fst x), snd x))) (zip xs ps) = zip (map fst xs) (zip (map snd xs) ps)"
  by (induction ps xs rule: list_induct2) auto

lemma map_zip_key: "length ps = length xs \<Longrightarrow> map (fst \<circ> fst) (zip xs ps) = map fst xs"
  by (induction ps xs rule: list_induct2) auto

lemma finish_inv:
  assumes inv: "mvcc_inv w" and p: "p \<in> w_prepared w" and len: "length pids = length (pr_writes p)"
    and f: "finish_prepared (pr_tid p) (pr_ts p) (pr_writes p) (Some pids) (w_state w) = (r, st')"
  shows "mvcc_inv (w\<lparr>w_state := st', w_prepared := w_prepared w - {p}, w_commits := insert p (w_commits w),
      w_hist := (\<lambda>k. w_hist w k @ committed_version p pids k)\<rparr>)" "r = Inr ()"
proof -
  let ?st = "w_state w" and ?xs = "zip (pr_writes p) pids"
  let ?I = "fold (\<lambda>w. drop_intent (pr_tid p) (fst w)) (pr_writes p) (ms_intents ?st)"
  have clk: "clock_inv w" using inv by (simp add: mvcc_inv_def)
  have keys: "(fst \<circ> fst) ` set ?xs = pr_keys p" using map_zip_key [OF len] by (metis set_map)
  have "distinct (map (fst \<circ> fst) ?xs)"
    using bt_sorted_distinct [OF intent_invD(1) [OF inv p]] map_zip_key [OF len] by simp
  moreover have "\<forall>x\<in>set ?xs. \<forall>v\<in>set (key_versions (ms_versions (?st\<lparr>ms_intents := ?I\<rparr>)) (fst (fst x))). ver_timestamp v < pr_ts p"
  proof (intro ballI)
    fix x v assume x: "x \<in> set ?xs" and v: "v \<in> set (key_versions (ms_versions (?st\<lparr>ms_intents := ?I\<rparr>)) (fst (fst x)))"
    have "fst (fst x) \<in> pr_keys p" using keys x by (metis comp_apply image_eqI)
    moreover have "v \<in> set (w_hist w (fst (fst x)))"
      using inv v unfolding mvcc_inv_def map_inv_def by simp (metis in_set_dropD)
    ultimately have "ver_timestamp v \<le> pr_snapshot p" by (rule intent_invD(3) [OF inv p])
    then show "ver_timestamp v < pr_ts p"
      using clock_invD(4) [OF clk clock_invD(5) [OF clk p]] prepared_ts [OF clk p] by (meson order.strict_trans1 order.trans)
  qed
  moreover have "bt_sorted (ms_versions (?st\<lparr>ms_intents := ?I\<rparr>))" using inv by (simp add: mvcc_inv_def map_inv_def)
  moreover have "sorted_wrt (<) (ms_dirty_keys (?st\<lparr>ms_intents := ?I\<rparr>))" using index_invD(7) [OF inv] by simp
  ultimately obtain V R D where
    ins: "install_versions (pr_ts p) ?xs 0 (?st\<lparr>ms_intents := ?I\<rparr>) =
      (Inr (), ?st\<lparr>ms_intents := ?I, ms_versions := V, ms_page_refs := R, ms_dirty_keys := D\<rparr>)"
    and V: "bt_sorted V" and D: "sorted_wrt (<) D" "set D = set (ms_dirty_keys ?st) \<union> pr_keys p"
    and kv: "\<And>k. key_versions V k = key_versions (ms_versions ?st) k @ committed_version p pids k"
    using install_versions_ok [of ?xs "?st\<lparr>ms_intents := ?I\<rparr>" "pr_ts p" 0] keys
    unfolding zip_split [OF len] committed_version_def by auto
  have st': "st' = complete_timestamp (pr_ts p) (?st\<lparr>ms_intents := ?I, ms_versions := V, ms_page_refs := R, ms_dirty_keys := D\<rparr>)"
    and r: "r = Inr ()"
    using f ins by (auto simp: finish_prepared_def Let_def)
  have new: "k \<in> pr_keys p \<and> ver_timestamp v = pr_ts p" if v: "v \<in> set (committed_version p pids k)" for k v
  proof -
    obtain x where x: "map_of (zip (map fst (pr_writes p)) (zip (map snd (pr_writes p)) pids)) k = Some x"
      "v = \<lparr>ver_timestamp = pr_ts p, ver_value = fst x, ver_page = snd x\<rparr>"
      using v unfolding committed_version_def
      by (cases "map_of (zip (map fst (pr_writes p)) (zip (map snd (pr_writes p)) pids)) k") (auto split: prod.splits)
    then show ?thesis using set_zip_leftD [OF map_of_SomeD [OF x(1)]] by simp
  qed
  show "mvcc_inv (w\<lparr>w_state := st', w_prepared := w_prepared w - {p}, w_commits := insert p (w_commits w),
      w_hist := (\<lambda>k. w_hist w k @ committed_version p pids k)\<rparr>)"
  proof (rule finish_core [OF inv p drop_intents_prepared [OF inv p] V kv new _ D(1) _ _ _ st'])
    show "length (committed_version p pids k) \<le> 1" for k by (auto simp: committed_version_def split: option.splits)
    show "k \<in> set D" if "committed_version p pids k \<noteq> []" for k
      using that D(2) new [of "hd (committed_version p pids k)" k] by simp
  qed (use D(2) in auto)
  show "r = Inr ()" by (rule r)
qed

section \<open>Starting an index generation\<close>

lemma entry_map_current:
  "distinct (map fst vm) \<Longrightarrow> entry_map (current_index_entries vm t) k = live_page t (key_versions vm k)"
proof (induction vm)
  case Nil
  then show ?case by (simp add: current_index_entries_def entry_map_def key_versions_def live_page_def newest_at_def)
next
  case (Cons x vm)
  obtain key vs where x: "x = (key, vs)" by (cases x)
  have rest: "key_versions (x # vm) k = (if k = key then vs else key_versions vm k)" by (simp add: key_versions_def x)
  have "map_of vm key = None" using Cons.prems x by (simp add: map_of_eq_None_iff)
  then have "key_versions vm key = []" by (simp add: key_versions_def)
  then have none: "entry_map (current_index_entries vm t) key = None" if "k = key"
    using Cons that by (simp add: live_page_def newest_at_def)
  have "current_index_entries (x # vm) t = (case live_page t vs of None \<Rightarrow> [] | Some p \<Rightarrow> [\<lparr>ie_key = key, ie_value = p\<rparr>]) @
      current_index_entries vm t"
    by (auto simp: current_index_entries_def x live_page_def map_filter_simps split: option.splits)
  then show ?case
    using Cons none unfolding rest by (cases "live_page t vs") (auto simp: entry_map_Cons)
qed

lemma fold_mutate_keys:
  assumes "distinct ks" "\<And>key m. f key = Some m \<Longrightarrow> \<exists>x. \<forall>F. mutate m F = F(key := x)"
  shows "fold mutate (List.map_filter f ks) F k =
    (if k \<in> set ks then case f k of None \<Rightarrow> F k | Some m \<Rightarrow> mutate m F k else F k)"
  using assms(1)
proof (induction ks arbitrary: F)
  case (Cons a ks)
  show ?case
  proof (cases "f a")
    case None
    then show ?thesis using Cons by (auto simp: map_filter_simps)
  next
    case (Some m)
    then obtain x where x: "\<forall>F. mutate m F = F(a := x)" using assms(2) by blast
    have "fold mutate (List.map_filter f ks) (mutate m F) k =
      (if k \<in> set ks then case f k of None \<Rightarrow> mutate m F k | Some m' \<Rightarrow> mutate m' (mutate m F) k else mutate m F k)"
      using Cons by simp
    moreover have "mutate m' (mutate m F) k = mutate m' F k" if "k \<in> set ks" "f k = Some m'" for m'
      using assms(2) [OF that(2)] by auto
    ultimately show ?thesis using Some x Cons.prems by (auto simp: map_filter_simps split: option.splits)
  qed
qed (simp add: map_filter_simps)

lemma key_mutation_Some:
  "key_mutation st base t key = Some m \<longleftrightarrow>
    (\<exists>v. newest_at t (key_versions (ms_versions st) key) = Some v \<and> base < ver_timestamp v \<and>
      (\<forall>F. mutate m F = F(key := map_option (\<lambda>_. ver_page v) (ver_value v))) \<and>
      m = (case ver_value v of None \<Rightarrow> Delete key | Some _ \<Rightarrow> Upsert \<lparr>ie_key = key, ie_value = ver_page v\<rparr>))"
proof -
  have "newest_at t [] = None" by (simp add: newest_at_def)
  then show ?thesis
    by (auto simp: key_mutation_def key_versions_def mutate_def not_le split: option.splits if_splits)
qed

lemma newest_in_map:
  assumes inv: "mvcc_inv w" and t: "oldest_active_snapshot (w_state w) \<le> t"
    and v: "newest_at t (w_hist w k) = Some v" and g: "\<forall>g\<in>set (ms_generations (w_state w)). gen_timestamp g < ver_timestamp v"
  shows "newest_at t (key_versions (ms_versions (w_state w)) k) = Some v"
proof -
  obtain n where n: "key_versions (ms_versions (w_state w)) k = drop n (w_hist w k)"
    "covered (oldest_active_snapshot (w_state w)) (ms_generations (w_state w)) (w_hist w k) n"
    using inv by (auto simp: mvcc_inv_def map_inv_def)
  show ?thesis
  proof (cases "newest_at t (drop n (w_hist w k))")
    case None
    have "n \<noteq> 0"
    proof
      assume "n = 0"
      then show False using None v by simp
    qed
    obtain h where h: "h \<in> set (ms_generations (w_state w))" "gen_timestamp h \<le> oldest_active_snapshot (w_state w)"
      "ver_timestamp (w_hist w k ! (n - 1)) \<le> gen_timestamp h" "n \<le> length (w_hist w k)"
      by (rule covered_unmasked [OF n(2) t None \<open>n \<noteq> 0\<close>])
    have "newest_at t (w_hist w k) = Some (w_hist w k ! (n - 1))"
      using dropped_newest [OF hist_invD(1) [OF inv] _ h(4) None] h(2,3) t \<open>n \<noteq> 0\<close> by (meson not_gr_zero order.trans)
    then have "gen_timestamp h < gen_timestamp h" using v g h(1,3) by (metis option.inject order.strict_trans2)
    then show ?thesis by simp
  next
    case (Some u)
    then have "newest_at t (w_hist w k) = Some u" by (metis append_take_drop_id newest_at_append option.simps(5))
    then show ?thesis using Some v n(1) by simp
  qed
qed

lemma newest_of_map:
  assumes "mvcc_inv w" "newest_at t (key_versions (ms_versions (w_state w)) k) = Some v"
  shows "newest_at t (w_hist w k) = Some v"
proof -
  obtain n where "key_versions (ms_versions (w_state w)) k = drop n (w_hist w k)"
    using assms(1) by (auto simp: mvcc_inv_def map_inv_def)
  then show ?thesis using assms(2) by (metis append_take_drop_id newest_at_append option.simps(5))
qed

lemma rebuild_exact:
  assumes inv: "mvcc_inv w" and job: "start_rebuild (w_state w) = Inr job"
  shows "job_timestamp job = ms_visible_through (w_state w)"
    "exact_view (w_hist w) (job_timestamp job) (job_view (w_index w) job)"
proof -
  let ?st = "w_state w" and ?t = "ms_visible_through (w_state w)"
  have clk: "clock_inv w" using inv by (simp add: mvcc_inv_def)
  note old = oldest_le_visible [OF clk]
  show ts: "job_timestamp job = ?t" using job by (auto simp: start_rebuild_def Let_def split: if_splits)
  show "exact_view (w_hist w) (job_timestamp job) (job_view (w_index w) job)"
    unfolding exact_view_def ts
  proof
    fix k
    show "job_view (w_index w) job k = live_page ?t (w_hist w k)"
    proof (cases "ms_generations ?st = []")
      case True
      then have jv: "job_view (w_index w) job k = entry_map (current_index_entries (ms_versions ?st) ?t) k"
        using job by (auto simp: start_rebuild_def job_view_def latest_generation_def Let_def)
      have "distinct (map fst (ms_versions ?st))" using inv by (simp add: mvcc_inv_def map_inv_def bt_sorted_distinct)
      then have "job_view (w_index w) job k = live_page ?t (key_versions (ms_versions ?st) k)"
        unfolding jv by (rule entry_map_current)
      moreover have "newest_at ?t (key_versions (ms_versions ?st) k) = newest_at ?t (w_hist w k)"
        using newest_in_map [OF inv old, of k] newest_of_map [OF inv, of ?t k] True
        by (cases "newest_at ?t (w_hist w k)"; cases "newest_at ?t (key_versions (ms_versions ?st) k)") auto
      ultimately show ?thesis by (simp add: live_page_def)
    next
      case False
      let ?g = "last (ms_generations ?st)"
      have gm: "?g \<in> set (ms_generations ?st)" using False by simp
      have gt: "gen_timestamp ?g \<le> ?t" by (rule index_invD(2) [OF inv gm])
      have base: "w_index w ?g k = live_page (gen_timestamp ?g) (w_hist w k)"
        using index_invD(3) [OF inv gm] by (simp add: exact_view_def)
      have jv: "job_view (w_index w) job = fold mutate
          (List.map_filter (key_mutation ?st (gen_timestamp ?g) ?t) (ms_dirty_keys ?st)) (w_index w ?g)"
        using job False by (auto simp: start_rebuild_def job_view_def latest_generation_def Let_def split: if_splits)
      have mem: "job_view (w_index w) job k = (if k \<in> set (ms_dirty_keys ?st) then
          case key_mutation ?st (gen_timestamp ?g) ?t k of None \<Rightarrow> w_index w ?g k | Some m \<Rightarrow> mutate m (w_index w ?g) k
          else w_index w ?g k)"
        unfolding jv using index_invD(7) [OF inv]
        by (intro fold_mutate_keys) (auto simp: strict_sorted_iff key_mutation_Some)
      have keep: "key_mutation ?st (gen_timestamp ?g) ?t k = None" "live_page ?t (w_hist w k) = live_page (gen_timestamp ?g) (w_hist w k)"
        if "newest_at ?t (w_hist w k) = None \<or> (\<exists>v. newest_at ?t (w_hist w k) = Some v \<and> ver_timestamp v \<le> gen_timestamp ?g)"
      proof -
        show "key_mutation ?st (gen_timestamp ?g) ?t k = None"
        proof (rule ccontr)
          assume "key_mutation ?st (gen_timestamp ?g) ?t k \<noteq> None"
          then obtain v where "newest_at ?t (key_versions (ms_versions ?st) k) = Some v" "gen_timestamp ?g < ver_timestamp v"
            using key_mutation_Some by blast
          then show False using newest_of_map [OF inv, of ?t k v] that by auto
        qed
        have "newest_at (gen_timestamp ?g) (w_hist w k) = newest_at ?t (w_hist w k)"
        proof (cases "newest_at ?t (w_hist w k)")
          case None
          then show ?thesis using gt by (metis newest_at_None order.strict_trans1)
        next
          case (Some v)
          then have "ver_timestamp v \<le> gen_timestamp ?g" using that by simp
          then have "newest_at (gen_timestamp ?g) (w_hist w k) = Some v"
            using newest_at_SomeD [OF Some] newest_at_max [OF hist_invD(1) [OF inv] Some] gt
            by (intro newest_at_unique hist_invD(1) [OF inv]) (auto intro: order.trans)
          then show ?thesis using Some by simp
        qed
        then show "live_page ?t (w_hist w k) = live_page (gen_timestamp ?g) (w_hist w k)" by (simp add: live_page_def)
      qed
      show ?thesis
      proof (cases "\<exists>v. newest_at ?t (w_hist w k) = Some v \<and> gen_timestamp ?g < ver_timestamp v")
        case False
        then show ?thesis using keep base mem by (cases "newest_at ?t (w_hist w k)") (auto simp: not_less)
      next
        case True
        then obtain v where v: "newest_at ?t (w_hist w k) = Some v" "gen_timestamp ?g < ver_timestamp v" by blast
        have lt: "\<forall>h\<in>set (ms_generations ?st). gen_timestamp h < ver_timestamp v"
          using last_generation_max [OF index_invD(1) [OF inv]] v(2) by (meson order.strict_trans1)
        have m: "newest_at ?t (key_versions (ms_versions ?st) k) = Some v" by (rule newest_in_map [OF inv old v(1) lt])
        have "k \<in> set (ms_dirty_keys ?st)"
          using index_invD(6) [OF inv, of v k] newest_at_SomeD [OF m] lt by (meson leD)
        moreover obtain mu where "key_mutation ?st (gen_timestamp ?g) ?t k = Some mu"
          "mutate mu (w_index w ?g) k = map_option (\<lambda>_. ver_page v) (ver_value v)"
          using m v(2) by (auto simp: key_mutation_def key_versions_def mutate_def newest_at_def not_le split: option.splits)
        ultimately show ?thesis using mem v(1) by (simp add: live_page_def)
      qed
    qed
  qed
qed

section \<open>Publishing an index generation\<close>

lemma generation_key_le_less:
  "\<not> generation_key_le (generation_key a) (generation_key b) \<Longrightarrow> generation_less b a"
  by (auto simp: generation_less_def generation_key_le_def generation_key_def)

lemma generation_less_trans: "generation_less a b \<Longrightarrow> generation_less b c \<Longrightarrow> generation_less a c"
  by (auto simp: generation_less_def generation_key_le_def generation_key_def)

lemma publish_generation_ok:
  assumes srt: "sorted_wrt generation_less (ms_generations st)"
    and fresh: "manifest_page_id g \<notin> manifest_page_id ` set (ms_generations st)"
  shows "\<exists>G. publish_generation g st = st\<lparr>ms_generations := G\<rparr> \<and> set G = insert g (set (ms_generations st)) \<and>
    sorted_wrt generation_less G"
proof -
  let ?gs = "ms_generations st"
  let ?P = "\<lambda>x. generation_key_le (generation_key x) (generation_key g)"
  let ?as = "takeWhile ?P ?gs" and ?bs = "dropWhile ?P ?gs"
  have pos: "take (partition_point ?P ?gs) ?gs = ?as" "drop (partition_point ?P ?gs) ?gs = ?bs"
    by (simp_all add: partition_point_def takeWhile_eq_take [symmetric] dropWhile_eq_drop [symmetric])
  have ne: "generation_key x \<noteq> generation_key g" if "x \<in> set ?gs" for x
    using fresh that by (metis generation_key_def image_eqI prod.inject)
  have nd: "\<not> (0 < partition_point ?P ?gs \<and> generation_key (?gs ! (partition_point ?P ?gs - 1)) = generation_key g)"
    using ne nth_mem [of "partition_point ?P ?gs - 1" ?gs] partition_point_le [of ?P ?gs] by fastforce
  have as: "generation_less x g" if "x \<in> set ?as" for x
    using set_takeWhileD [OF that] ne by (simp add: generation_less_def)
  have sb: "sorted_wrt generation_less ?bs" and sa: "sorted_wrt generation_less ?as"
    and ab: "\<forall>x\<in>set ?as. \<forall>y\<in>set ?bs. generation_less x y"
    using srt sorted_wrt_append [of generation_less ?as ?bs] by simp_all
  have bs: "generation_less g y" if "y \<in> set ?bs" for y
  proof (cases ?bs)
    case (Cons b cs)
    have "\<not> ?P b" using hd_dropWhile [of ?P ?gs] Cons by (metis list.distinct(1) list.sel(1))
    then have "generation_less g b" by (rule generation_key_le_less)
    then show ?thesis using that sb Cons generation_less_trans by auto
  next
    case Nil
    with that have False by (metis empty_iff list.set(1))
    then show ?thesis by simp
  qed
  have "set (?as @ [g] @ ?bs) = insert g (set ?gs)"
    by (metis (no_types) append_Cons append_Nil list.set(2) set_append takeWhile_dropWhile_id Un_insert_right)
  moreover have "sorted_wrt generation_less (?as @ [g] @ ?bs)"
    using sa sb ab as bs by (auto simp: sorted_wrt_append)
  moreover have "publish_generation g st = st\<lparr>ms_generations := ?as @ [g] @ ?bs\<rparr>"
    unfolding publish_generation_def Let_def pos if_not_P [OF nd] ..
  ultimately show ?thesis by blast
qed

lemma publish_generation_inv:
  assumes inv: "mvcc_inv w" and job: "(gen_timestamp g, view) \<in> w_jobs w"
    and fresh: "manifest_page_id g \<notin> manifest_page_id ` set (ms_generations (w_state w))"
  defines "st1 \<equiv> publish_generation g (w_state w)"
  defines "st2 \<equiv> st1\<lparr>ms_dirty_keys := filter (\<lambda>key. case map_of (ms_versions st1) key of None \<Rightarrow> False
      | Some vs \<Rightarrow> list_ex (\<lambda>v. ver_timestamp v > gen_timestamp g) vs) (ms_dirty_keys st1)\<rparr>"
  shows "mvcc_inv (w\<lparr>w_state := st2, w_index := (w_index w)(g := view)\<rparr>)" (is "mvcc_inv ?w'")
proof -
  let ?st = "w_state w"
  obtain G where G: "st1 = ?st\<lparr>ms_generations := G\<rparr>" "set G = insert g (set (ms_generations ?st))" "sorted_wrt generation_less G"
    using publish_generation_ok [OF index_invD(1) [OF inv] fresh] by (auto simp: st1_def)
  define D where "D = filter (\<lambda>key. case map_of (ms_versions ?st) key of None \<Rightarrow> False
      | Some vs \<Rightarrow> list_ex (\<lambda>v. ver_timestamp v > gen_timestamp g) vs) (ms_dirty_keys ?st)"
  have st2: "st2 = ?st\<lparr>ms_generations := G, ms_dirty_keys := D\<rparr>" unfolding st2_def G(1) D_def by simp
  have dirty: "\<exists>h\<in>set G. ver_timestamp v \<le> gen_timestamp h" if v: "v \<in> set (key_versions (ms_versions ?st) k)" and "k \<notin> set D" for k v
  proof (cases "k \<in> set (ms_dirty_keys ?st)")
    case True
    obtain vs where vs: "map_of (ms_versions ?st) k = Some vs" "v \<in> set vs"
      using v by (cases "map_of (ms_versions ?st) k") (auto simp: key_versions_def)
    then have "\<not> gen_timestamp g < ver_timestamp v" using that(2) True by (auto simp: D_def list_ex_iff)
    then show ?thesis using G(2) by (auto simp: not_less)
  next
    case False
    then show ?thesis using index_invD(6) [OF inv that(1)] G(2) by auto
  qed
  have "map_inv ?w'"
    unfolding map_inv_def
  proof (intro conjI allI)
    fix k
    obtain n where "key_versions (ms_versions ?st) k = drop n (w_hist w k)"
      "covered (oldest_active_snapshot ?st) (ms_generations ?st) (w_hist w k) n"
      using inv by (auto simp: mvcc_inv_def map_inv_def)
    moreover from this(2) have "covered (oldest_active_snapshot ?st) G (w_hist w k) n"
      by (rule covered_mono) (use G(2) in auto)
    ultimately show "\<exists>n. key_versions (ms_versions (w_state ?w')) k = drop n (w_hist ?w' k) \<and>
        covered (oldest_active_snapshot (w_state ?w')) (ms_generations (w_state ?w')) (w_hist ?w' k) n"
      by (auto simp: st2)
  qed (use inv in \<open>simp add: st2 mvcc_inv_def map_inv_def\<close>)
  moreover have "index_inv ?w'"
    unfolding index_inv_def Let_def
  proof (intro conjI allI impI ballI)
    fix h assume h: "h \<in> set (ms_generations (w_state ?w'))"
    show "gen_timestamp h \<le> ms_visible_through (w_state ?w')"
      using h index_invD(2) [OF inv, of h] index_invD(4) [OF inv job] G(2) by (auto simp: st2)
    show "exact_view (w_hist ?w') (gen_timestamp h) (w_index ?w' h)"
      using h index_invD(3) [OF inv, of h] index_invD(5) [OF inv job] G(2) by (auto simp: st2)
  next
    fix k v assume "v \<in> set (key_versions (ms_versions (w_state ?w')) k)" "k \<notin> set (ms_dirty_keys (w_state ?w'))"
    then show "\<exists>h\<in>set (ms_generations (w_state ?w')). ver_timestamp v \<le> gen_timestamp h" using dirty by (simp add: st2)
  next
    show "sorted_wrt (<) (ms_dirty_keys (w_state ?w'))"
      using index_invD(7) [OF inv] by (simp add: st2 D_def sorted_wrt_filter)
  qed (use index_invD(4,5) [OF inv] G(3) in \<open>auto simp: st2\<close>)
  ultimately show ?thesis
    using inv by (simp add: mvcc_inv_def clock_inv_def hist_inv_def intent_inv_def conflict_inv_def Let_def st2)
qed

section \<open>Reclamation keeps what snapshots can reach\<close>

definition drained :: "u64 \<Rightarrow> version list \<Rightarrow> version list" where
  "drained oldest vs = (case rposition (\<lambda>v. ver_timestamp v \<le> oldest) vs of None \<Rightarrow> vs | Some i \<Rightarrow> drop i vs)"

lemma fst_drain_versions: "fst (drain_versions oldest protect vs rc) = drained oldest vs"
  by (auto simp: drain_versions_def drained_def split: option.splits prod.splits)

lemma retain_versions_eq:
  "fst (retain_versions oldest cover protect st vm rc) =
    filter (\<lambda>(k, vs). \<not> fully_covered cover st k vs) (map (\<lambda>(k, vs). (k, drained oldest vs)) vm)"
proof (induction vm arbitrary: rc)
  case (Cons x vm)
  obtain key vs where x: "x = (key, vs)" by (cases x)
  obtain vs' rc' where d: "drain_versions oldest protect vs rc = (vs', rc')" by force
  then have "vs' = drained oldest vs" using fst_drain_versions [of oldest protect vs rc] by simp
  then show ?case using Cons d by (simp add: x split: prod.splits) (metis fst_conv)
qed simp

lemma lookup_filter_distinct:
  assumes "distinct (map fst xs)"
  shows "map_of (filter P xs) k = Option.bind (map_of xs k) (\<lambda>v. if P (k, v) then Some v else None)"
  using assms
proof (induction xs)
  case (Cons x xs)
  then have "fst x = k \<Longrightarrow> map_of xs k = None" by (auto simp: map_of_eq_None_iff)
  then show ?case using Cons by (cases x) (auto split: option.splits)
qed simp

lemma bt_sorted_filter_map:
  "bt_sorted xs \<Longrightarrow> bt_sorted (filter P (map (\<lambda>(k, v). (k, f v)) xs))"
  by (induction xs) auto

lemma key_versions_retained:
  assumes "bt_sorted vm" and vm'_def: "vm' = fst (retain_versions oldest cover protect st vm rc)"
  shows "bt_sorted vm'"
    "key_versions vm' k = drained oldest (key_versions vm k) \<or>
     key_versions vm' k = [] \<and> fully_covered cover st k (drained oldest (key_versions vm k))"
proof -
  show "bt_sorted vm'" unfolding vm'_def retain_versions_eq by (rule bt_sorted_filter_map [OF assms(1)])
  let ?m = "map (\<lambda>(k, vs). (k, drained oldest vs)) vm"
  have d: "distinct (map fst ?m)" using bt_sorted_distinct [OF assms(1)] by (simp add: comp_def case_prod_beta')
  have m: "map_of ?m k = map_option (drained oldest) (map_of vm k)" by (simp add: map_of_map)
  have e: "drained oldest [] = []" by (simp add: drained_def)
  show "key_versions vm' k = drained oldest (key_versions vm k) \<or>
     key_versions vm' k = [] \<and> fully_covered cover st k (drained oldest (key_versions vm k))"
    unfolding key_versions_def vm'_def retain_versions_eq lookup_filter_distinct [OF d] m
    by (cases "map_of vm k") (auto simp: e)
qed

lemma reclaim_covered_state:
  assumes "reclaim_covered protect st = (freed, st')"
  defines "oldest \<equiv> oldest_active_snapshot st"
  obtains gs R m where
    "gs = (case rposition (\<lambda>g. gen_timestamp g \<le> oldest) (ms_generations st) of
        None \<Rightarrow> ms_generations st | Some i \<Rightarrow> drop i (ms_generations st))"
    "st' = st\<lparr>ms_generations := gs, ms_versions := ms_versions st', ms_page_refs := R, ms_reclaimed := m\<rparr>"
    "\<exists>rc. ms_versions st' = fst (retain_versions oldest (map_option gen_timestamp (generation_at oldest (st\<lparr>ms_generations := gs\<rparr>)))
      protect (st\<lparr>ms_generations := gs\<rparr>) (ms_versions st) rc)"
proof -
  define gs where "gs = (case rposition (\<lambda>g. gen_timestamp g \<le> oldest) (ms_generations st) of
      None \<Rightarrow> ms_generations st | Some i \<Rightarrow> drop i (ms_generations st))"
  define st1 where "st1 = st\<lparr>ms_generations := gs\<rparr>"
  obtain fr where fr: "(case rposition (\<lambda>g. gen_timestamp g \<le> oldest) (ms_generations st) of
      None \<Rightarrow> ([], st) | Some i \<Rightarrow> (map manifest_page_id (take i (ms_generations st)),
        st\<lparr>ms_generations := drop i (ms_generations st)\<rparr>)) = (fr, st1)"
    by (cases "rposition (\<lambda>g. gen_timestamp g \<le> oldest) (ms_generations st)") (auto simp: st1_def gs_def)
  obtain vm rc where rt: "retain_versions oldest (map_option gen_timestamp (generation_at oldest st1)) protect st1 (ms_versions st1)
      \<lparr>rc_refs = ms_page_refs st1, rc_freed = fr, rc_count = ms_reclaimed st1\<rparr> = (vm, rc)" by force
  have "st' = st1\<lparr>ms_versions := vm, ms_page_refs := rc_refs rc, ms_reclaimed := rc_count rc\<rparr>"
    using assms(1) fr rt unfolding reclaim_covered_def Let_def oldest_def [symmetric] by (simp add: prod.case_eq_if) 
  then have "st' = st\<lparr>ms_generations := gs, ms_versions := ms_versions st', ms_page_refs := rc_refs rc, ms_reclaimed := rc_count rc\<rparr>"
    "ms_versions st' = vm" by (simp_all add: st1_def)
  moreover have "vm = fst (retain_versions oldest (map_option gen_timestamp (generation_at oldest st1)) protect st1 (ms_versions st)
      \<lparr>rc_refs = ms_page_refs st1, rc_freed = fr, rc_count = ms_reclaimed st1\<rparr>)"
    using rt by (simp add: st1_def)
  ultimately show ?thesis using that gs_def st1_def by blast
qed

lemma drained_drop:
  obtains i where "drained oldest vs = drop i vs" "i \<noteq> 0 \<longrightarrow> i < length vs \<and> ver_timestamp (vs ! i) \<le> oldest"
proof (cases "rposition (\<lambda>v. ver_timestamp v \<le> oldest) vs")
  case None
  then show ?thesis using that [of 0] by (simp add: drained_def)
next
  case (Some i)
  then show ?thesis using that [of i] rposition_Some [OF Some] by (simp add: drained_def)
qed

text \<open>Pruning the ring keeps the newest generation that the oldest snapshot can see, and all newer ones.\<close>

lemma pruned_ring:
  assumes srt: "sorted_wrt generation_less gs"
    and gs': "gs' = (case rposition (\<lambda>g. gen_timestamp g \<le> oldest) gs of None \<Rightarrow> gs | Some i \<Rightarrow> drop i gs)"
  shows "set gs' \<subseteq> set gs" "sorted_wrt generation_less gs'"
    "g \<in> set gs \<Longrightarrow> gen_timestamp g \<le> oldest \<Longrightarrow> \<exists>h\<in>set gs'. gen_timestamp g \<le> gen_timestamp h \<and> gen_timestamp h \<le> oldest"
    "g \<in> set gs \<Longrightarrow> \<exists>h\<in>set gs'. gen_timestamp g \<le> gen_timestamp h"
proof -
  show "set gs' \<subseteq> set gs" unfolding gs' by (auto split: option.splits dest: in_set_dropD)
  show "sorted_wrt generation_less gs'" unfolding gs' using srt by (auto split: option.splits intro: sorted_wrt_drop)
  show "\<exists>h\<in>set gs'. gen_timestamp g \<le> gen_timestamp h \<and> gen_timestamp h \<le> oldest"
    if g: "g \<in> set gs" "gen_timestamp g \<le> oldest"
  proof (cases "rposition (\<lambda>g. gen_timestamp g \<le> oldest) gs")
    case None
    then show ?thesis using g gs' by (auto simp: rposition_None)
  next
    case (Some i)
    note i = rposition_Some [OF Some]
    have mem: "gs ! i \<in> set gs'" using i unfolding gs' Some by (simp add: Cons_nth_drop_Suc [symmetric])
    obtain j where j: "j < length gs" "g = gs ! j" using g(1) by (auto simp: in_set_conv_nth)
    have "j \<le> i"
    proof (rule ccontr)
      assume "\<not> j \<le> i"
      then have "gs ! j = drop (Suc i) gs ! (j - Suc i)" "j - Suc i < length (drop (Suc i) gs)" using j(1) by auto
      then have "gs ! j \<in> set (drop (Suc i) gs)" by (metis nth_mem)
      then show False using i g(2) j(2) by blast
    qed
    then have "gen_timestamp g \<le> gen_timestamp (gs ! i)"
      using srt i j generation_less_le by (cases "j = i") (auto simp: sorted_wrt_iff_nth_less)
    then show ?thesis using mem i by blast
  qed
  show "\<exists>h\<in>set gs'. gen_timestamp g \<le> gen_timestamp h" if g: "g \<in> set gs"
  proof -
    have "gs' \<noteq> []" using g rposition_Some [of "\<lambda>g. gen_timestamp g \<le> oldest" gs] unfolding gs'
      by (auto split: option.splits)
    moreover have "gs' \<noteq> [] \<Longrightarrow> last gs' = last gs" unfolding gs' by (auto split: option.splits simp: last_drop)
    ultimately show ?thesis using last_generation_max [OF srt g] by (metis last_in_set)
  qed
qed

lemma reclaim_inv:
  assumes inv: "mvcc_inv w" and rec: "reclaim_covered protect (w_state w) = (freed, st')"
  shows "mvcc_inv (w\<lparr>w_state := st'\<rparr>)" (is "mvcc_inv ?w'")
proof -
  let ?st = "w_state w" and ?o = "oldest_active_snapshot (w_state w)"
  obtain gs R m where gs: "gs = (case rposition (\<lambda>g. gen_timestamp g \<le> ?o) (ms_generations ?st) of
        None \<Rightarrow> ms_generations ?st | Some i \<Rightarrow> drop i (ms_generations ?st))"
    and st': "st' = ?st\<lparr>ms_generations := gs, ms_versions := ms_versions st', ms_page_refs := R, ms_reclaimed := m\<rparr>"
    and ret: "\<exists>rc. ms_versions st' = fst (retain_versions ?o (map_option gen_timestamp (generation_at ?o (?st\<lparr>ms_generations := gs\<rparr>)))
      protect (?st\<lparr>ms_generations := gs\<rparr>) (ms_versions ?st) rc)"
    by (rule reclaim_covered_state [OF rec])
  note ring = pruned_ring [OF index_invD(1) [OF inv] gs]
  have srt: "bt_sorted (ms_versions ?st)" using inv by (simp add: mvcc_inv_def map_inv_def)
  obtain rc where rc: "ms_versions st' = fst (retain_versions ?o (map_option gen_timestamp (generation_at ?o (?st\<lparr>ms_generations := gs\<rparr>)))
      protect (?st\<lparr>ms_generations := gs\<rparr>) (ms_versions ?st) rc)" using ret by blast
  note kv = key_versions_retained [OF srt rc]
  have o': "oldest_active_snapshot st' = ?o" by (subst st') simp
  have flds: "ms_generations st' = gs" "ms_dirty_keys st' = ms_dirty_keys ?st" "ms_visible_through st' = ms_visible_through ?st"
    "ms_completed st' = ms_completed ?st" "ms_intents st' = ms_intents ?st" "ms_active st' = ms_active ?st"
    "ms_next_commit_timestamp st' = ms_next_commit_timestamp ?st" "ms_next_transaction_id st' = ms_next_transaction_id ?st"
    by (subst st', simp)+
  have settle: "settled st' t = settled ?st t" for t by (simp add: settled_def flds)
  have "map_inv ?w'"
    unfolding map_inv_def
  proof (intro conjI allI)
    show "bt_sorted (ms_versions (w_state ?w'))" using kv(1) by simp
    fix k
    obtain n where n: "key_versions (ms_versions ?st) k = drop n (w_hist w k)"
      "covered ?o (ms_generations ?st) (w_hist w k) n"
      using inv by (auto simp: mvcc_inv_def map_inv_def)
    have n': "covered ?o gs (w_hist w k) n" by (rule covered_mono [OF n(2) order.refl ring(3)])
    obtain i where i0: "drained ?o (drop n (w_hist w k)) = drop i (drop n (w_hist w k))"
      "i \<noteq> 0 \<longrightarrow> i < length (drop n (w_hist w k)) \<and> ver_timestamp (drop n (w_hist w k) ! i) \<le> ?o"
      by (rule drained_drop)
    have i: "drained ?o (drop n (w_hist w k)) = drop (n + i) (w_hist w k)"
      "i \<noteq> 0 \<longrightarrow> n + i < length (w_hist w k) \<and> ver_timestamp (w_hist w k ! (n + i)) \<le> ?o"
      using i0 by (auto simp: add.commute)
    have i': "covered ?o gs (w_hist w k) (n + i)" using n' i(2) by (cases "i = 0") (simp_all add: covered_def)
    have "\<exists>n. key_versions (ms_versions st') k = drop n (w_hist w k) \<and> covered ?o gs (w_hist w k) n"
    proof (cases "key_versions (ms_versions st') k = drop (n + i) (w_hist w k)")
      case True
      then show ?thesis using i' by blast
    next
      case False
      then have e: "key_versions (ms_versions st') k = []"
        and fc: "fully_covered (map_option gen_timestamp (generation_at ?o (?st\<lparr>ms_generations := gs\<rparr>)))
          (?st\<lparr>ms_generations := gs\<rparr>) k (drop (n + i) (w_hist w k))"
        using kv(2) [of k] unfolding n(1) i(1) by blast+
      obtain g where g: "generation_at ?o (?st\<lparr>ms_generations := gs\<rparr>) = Some g"
        "length (drop (n + i) (w_hist w k)) = 1" "ver_timestamp (drop (n + i) (w_hist w k) ! 0) \<le> gen_timestamp g"
        using fc by (auto simp: fully_covered_def split: option.splits)
      have gm: "g \<in> set gs" "gen_timestamp g \<le> ?o"
        using generation_at_max(1,2) [OF _ g(1)] ring(2) by simp_all
      have len: "length (w_hist w k) = n + i + 1" using g(2) by simp
      then have "ver_timestamp (w_hist w k ! (length (w_hist w k) - 1)) \<le> gen_timestamp g" using g(3) by simp
      then have "covered ?o gs (w_hist w k) (length (w_hist w k))" using gm by (auto simp: covered_def)
      then show ?thesis using e by (metis drop_all order.refl)
    qed
    then show "\<exists>n. key_versions (ms_versions (w_state ?w')) k = drop n (w_hist ?w' k) \<and>
        covered (oldest_active_snapshot (w_state ?w')) (ms_generations (w_state ?w')) (w_hist ?w' k) n"
      by (simp add: o' flds)
  qed
  moreover have "index_inv ?w'"
    unfolding index_inv_def Let_def
  proof (intro conjI allI impI ballI)
    fix k v assume v: "v \<in> set (key_versions (ms_versions (w_state ?w')) k)" and k: "k \<notin> set (ms_dirty_keys (w_state ?w'))"
    have "set (drained ?o (key_versions (ms_versions ?st) k)) \<subseteq> set (key_versions (ms_versions ?st) k)"
      using drained_drop [of ?o "key_versions (ms_versions ?st) k"] by (metis set_drop_subset)
    then have "v \<in> set (key_versions (ms_versions ?st) k)"
      using v kv(2) [of k] by auto
    then obtain g where "g \<in> set (ms_generations ?st)" "ver_timestamp v \<le> gen_timestamp g"
      using index_invD(6) [OF inv, of v k] k by (auto simp: flds)
    then show "\<exists>g\<in>set (ms_generations (w_state ?w')). ver_timestamp v \<le> gen_timestamp g"
      using ring(4) [of g] by (auto simp: flds intro: order.trans)
  next
    fix g assume "g \<in> set (ms_generations (w_state ?w'))"
    then have "g \<in> set (ms_generations ?st)" using ring(1) by (auto simp: flds)
    then show "gen_timestamp g \<le> ms_visible_through (w_state ?w')" "exact_view (w_hist ?w') (gen_timestamp g) (w_index ?w' g)"
      using index_invD(2,3) [OF inv] by (simp_all add: flds)
  qed (use index_invD(4,5,7) [OF inv] ring(2) in \<open>auto simp: flds\<close>)
  ultimately show ?thesis
    using inv by (simp add: mvcc_inv_def clock_inv_def hist_inv_def intent_inv_def conflict_inv_def Let_def flds settle)
qed

theorem mvcc_step_inv: "mvcc_step w w' \<Longrightarrow> mvcc_inv w \<Longrightarrow> mvcc_inv w'"
proof (induction rule: mvcc_step.induct)
  case (step_rebuild w job)
  have "index_inv (w\<lparr>w_jobs := insert (job_timestamp job, job_view (w_index w) job) (w_jobs w)\<rparr>)"
    using step_rebuild rebuild_exact [OF step_rebuild(2,1)] by (auto simp: index_inv_def mvcc_inv_def Let_def)
  then show ?case
    using step_rebuild(2)
    by (simp add: mvcc_inv_def clock_inv_def hist_inv_def intent_inv_def conflict_inv_def map_inv_def Let_def)
next
  case (step_publish g view w open_page freed st)
  let ?st1 = "publish_generation g (w_state w)"
  let ?st2 = "?st1\<lparr>ms_dirty_keys := filter (\<lambda>key. case map_of (ms_versions ?st1) key of None \<Rightarrow> False
      | Some vs \<Rightarrow> list_ex (\<lambda>v. ver_timestamp v > gen_timestamp g) vs) (ms_dirty_keys ?st1)\<rparr>"
  have "mvcc_inv (w\<lparr>w_state := ?st2, w_index := (w_index w)(g := view)\<rparr>)"
    using publish_generation_inv [OF step_publish(4,1,2)] by simp
  moreover have "reclaim_covered open_page ?st2 = (freed, st)"
    using step_publish(3) by (simp add: publish_rebuild_def Let_def)
  ultimately have "mvcc_inv (w\<lparr>w_state := ?st2, w_index := (w_index w)(g := view)\<rparr>\<lparr>w_state := st\<rparr>)"
    by (intro reclaim_inv) simp_all
  moreover have "w\<lparr>w_state := ?st2, w_index := (w_index w)(g := view)\<rparr>\<lparr>w_state := st\<rparr> =
      w\<lparr>w_state := st, w_index := (w_index w)(g := view)\<rparr>" by (cases w) simp
  ultimately show ?case by simp
qed (simp_all add: begin_inv end_inv prepare_inv finish_inv(1) abort_inv(1))

end
