(* ===== verification/Mvcc_Database.thy ===== *)
theory Mvcc_Database
  imports Mvcc_State
begin

text \<open>
  Model of the operations of \<open>mvcc/src/database.rs\<close> that go beyond the locked state: opening a
  database from its pages, reading through the index, packing the records of a commit into pages,
  rebuilding the index, and the methods of \<open>MvccDatabase\<close> and \<open>Transaction\<close>. Every operation here
  runs as a whole; the steps that the code separates by releasing the state lock are the
  definitions of Mvcc_State. The condition variable and the pause of the publisher are not
  modelled: \<open>publish_round\<close> is one turn of its loop after it was woken.
\<close>

section \<open>Data\<close>

record mvcc_env =
  me_index :: index_env
  me_record_size :: nat

record mvcc_options =
  mo_group_commit :: group_options
  mo_online_index :: bool
  mo_index_cache_bytes :: nat
  mo_record_cache_bytes :: nat

definition default_mvcc_options :: mvcc_options where
  "default_mvcc_options =
    \<lparr>mo_group_commit = default_options, mo_online_index = True,
     mo_index_cache_bytes = 64 * 2 ^ 20, mo_record_cache_bytes = 64 * 2 ^ 20\<rparr>"

record commit_result =
  cr_timestamp :: "u64 option"
  cr_write_count :: nat

record publish_signal =
  ps_dirty :: bool
  ps_stop :: bool

record open_page =
  op_page_id :: u64
  op_offset :: u32

record inner =
  in_state :: mvcc_state
  in_storage :: committer
  in_node_cache :: "node lru"
  in_open_page :: "open_page option"
  in_record_cache :: "version_record list lru"
  in_signal :: publish_signal

record mvcc_database =
  db_inner :: inner
  db_committer :: bool
  db_publisher :: bool

abbreviation env_checksum :: "mvcc_env \<Rightarrow> bytes \<Rightarrow> u32" where
  "env_checksum M \<equiv> env_crc (me_index M)"

abbreviation in_store :: "inner \<Rightarrow> store" where
  "in_store i \<equiv> gc_store (in_storage i)"

text \<open>The question mark converts the errors of the layers below.\<close>

definition tx_storage :: "storage_error + 'a \<Rightarrow> transaction_error + 'a" where
  "tx_storage r = (case r of Inl e \<Rightarrow> Inl (TxStorage e) | Inr x \<Rightarrow> Inr x)"

definition tx_index :: "index_error + 'a \<Rightarrow> transaction_error + 'a" where
  "tx_index r = (case r of Inl e \<Rightarrow> Inl (TxIndex e) | Inr x \<Rightarrow> Inr x)"

text \<open>The calls on the storage handle.\<close>

definition storage_call ::
    "mvcc_env \<Rightarrow> (storage_error + u64 list) + commit_request \<Rightarrow> inner \<Rightarrow> (transaction_error + u64 list) \<times> inner" where
  "storage_call M call i =
    (case client_call (env_checksum M) call (in_storage i) of
       (r, g) \<Rightarrow> (tx_storage r, i\<lparr>in_storage := g\<rparr>))"

definition storage_reserve :: "nat \<Rightarrow> inner \<Rightarrow> (transaction_error + u64 list) \<times> inner" where
  "storage_reserve n i =
    (case reserve_page_ids n (in_store i) of
       (r, s) \<Rightarrow> (tx_storage r, i\<lparr>in_storage := (in_storage i)\<lparr>gc_store := s\<rparr>\<rparr>))"

definition storage_release :: "u64 list \<Rightarrow> inner \<Rightarrow> inner" where
  "storage_release pids i =
    i\<lparr>in_storage := (in_storage i)\<lparr>gc_store := release_pages pids (in_store i)\<rparr>\<rparr>"

definition handle_checkpoint :: "(bytes \<Rightarrow> u32) \<Rightarrow> committer \<Rightarrow> (storage_error + u64) \<times> committer" where
  "handle_checkpoint crc g =
    (let g = await_checkpointer crc g in
     case explicit_checkpoint crc (gc_store g) of
       None \<Rightarrow> (Inl CommitCoordinatorStopped, g)
     | Some (r, s) \<Rightarrow> (r, g\<lparr>gc_store := s\<rparr>))"

section \<open>Reads\<close>

text \<open>\<open>Iterator::max_by_key\<close> returns the last of several maximal elements.\<close>

fun max_by_timestamp :: "version_record list \<Rightarrow> version_record option" where
  "max_by_timestamp [] = None"
| "max_by_timestamp (r # rs) =
    (case max_by_timestamp rs of
       None \<Rightarrow> Some r
     | Some m \<Rightarrow> if vr_timestamp r > vr_timestamp m then Some r else Some m)"

definition cached_records ::
    "mvcc_env \<Rightarrow> u64 \<Rightarrow> inner \<Rightarrow> (transaction_error + version_record list) \<times> inner" where
  "cached_records M pid i =
    (case lru_get pid (in_record_cache i) of
       (Some records, c) \<Rightarrow> (Inr records, i\<lparr>in_record_cache := c\<rparr>)
     | (None, c) \<Rightarrow>
         let i = i\<lparr>in_record_cache := c\<rparr> in
         (case shared_read_page (env_checksum M) pid (in_store i) of
            Inl e \<Rightarrow> (Inl (TxStorage e), i)
          | Inr None \<Rightarrow> (Inl (CorruptRecord pid (Reason ''index points to an absent version page'' [])), i)
          | Inr (Some p) \<Rightarrow>
              (case decode_page pid (page_payload p) of
                 Inl e \<Rightarrow> (Inl e, i)
               | Inr records \<Rightarrow>
                   if records = []
                   then (Inl (CorruptRecord pid (Reason ''index points to a non-MVCC page'' [])), i)
                   else (Inr records, i\<lparr>in_record_cache := lru_insert pid records
                     (sum_list (map (record_bytes (me_record_size M)) records)) (in_record_cache i)\<rparr>))))"

definition visible_record :: "u64 \<Rightarrow> bytes \<Rightarrow> u64 \<Rightarrow> version_record list \<Rightarrow> transaction_error + bytes option" where
  "visible_record pid key snapshot records =
    (case max_by_timestamp (filter (\<lambda>r. vr_key r = key \<and> vr_timestamp r \<le> snapshot) records) of
       None \<Rightarrow> Inl (CorruptRecord pid
         (Reason ''index points to a page holding no visible version of the key'' []))
     | Some r \<Rightarrow> Inr (vr_value r))"

definition read_index_version ::
    "mvcc_env \<Rightarrow> u64 \<Rightarrow> bytes \<Rightarrow> u64 \<Rightarrow> inner \<Rightarrow> (transaction_error + bytes option) \<times> inner" where
  "read_index_version M pid key snapshot i =
    try_then (cached_records M pid i) (\<lambda>records i. (visible_record pid key snapshot records, i))"

definition read_indexed ::
    "mvcc_env \<Rightarrow> index_root option \<Rightarrow> bytes \<Rightarrow> u64 \<Rightarrow> inner \<Rightarrow> (transaction_error + bytes option) \<times> inner" where
  "read_indexed M root key snapshot i =
    (case root of
       None \<Rightarrow> (Inr None, i)
     | Some root \<Rightarrow>
         (case tree_get (me_index M) (in_store i) root key (Some (in_node_cache i)) of
            (r, c) \<Rightarrow>
              let i = i\<lparr>in_node_cache := the c\<rparr> in
              (case r of
                 Inl e \<Rightarrow> (Inl (TxIndex e), i)
               | Inr None \<Rightarrow> (Inr None, i)
               | Inr (Some pid) \<Rightarrow> read_index_version M pid key snapshot i)))"

definition inner_read ::
    "mvcc_env \<Rightarrow> bytes \<Rightarrow> u64 \<Rightarrow> inner \<Rightarrow> (transaction_error + bytes option) \<times> inner" where
  "inner_read M key snapshot i =
    (case newest_at snapshot (key_versions (ms_versions (in_state i)) key) of
       Some v \<Rightarrow> (Inr (ver_value v), i)
     | None \<Rightarrow>
         (case generation_at snapshot (in_state i) of
            None \<Rightarrow> (Inr None, i)
          | Some g \<Rightarrow> read_indexed M (gen_root g) key snapshot i))"

section \<open>Commits\<close>

definition seal_append :: "open_page option \<Rightarrow> page_append list" where
  "seal_append p =
    (case p of
       None \<Rightarrow> []
     | Some p \<Rightarrow> [\<lparr>pa_page_id = op_page_id p, pa_offset = op_offset p, pa_payload = [], pa_sealed = True\<rparr>])"

definition roll_over :: "mvcc_env \<Rightarrow> inner \<Rightarrow> (transaction_error + open_page) \<times> inner" where
  "roll_over M i =
    try_then (storage_reserve 1 i) (\<lambda>ids i.
      case ids of
        [] \<Rightarrow> (Inl TimestampExhausted, i)
      | pid # _ \<Rightarrow>
          try_then (storage_call M (commit_relaxed [\<lparr>pw_page_id = pid, pw_payload = []\<rparr>] 0) i) (\<lambda>_ i.
            let p = \<lparr>op_page_id = pid, op_offset = 0\<rparr> in (Inr p, i\<lparr>in_open_page := Some p\<rparr>)))"

fun pack_writes ::
    "mvcc_env \<Rightarrow> u64 \<Rightarrow> (bytes \<times> bytes option) list \<Rightarrow> page_append list \<Rightarrow> u64 list \<Rightarrow> inner \<Rightarrow>
     (transaction_error + (page_append list \<times> u64 list)) \<times> inner" where
  "pack_writes M timestamp [] appends pids i = (Inr (appends, pids), i)"
| "pack_writes M timestamp ((key, val) # ws) appends pids i =
    (case record_encode \<lparr>vr_timestamp = timestamp, vr_key = key, vr_value = val\<rparr> of
       Inl e \<Rightarrow> (Inl e, i)
     | Inr payload \<Rightarrow>
         let rolls_over = (case in_open_page i of None \<Rightarrow> True
               | Some p \<Rightarrow> unat (op_offset p) + length payload > MAX_PAGE_PAYLOAD) in
         try_then
           (if rolls_over
            then try_then (roll_over M (i\<lparr>in_open_page := None\<rparr>)) (\<lambda>p j.
              (Inr (p, appends @ seal_append (in_open_page i)), j))
            else (Inr (the (in_open_page i), appends), i))
           (\<lambda>(p, appends) i.
              pack_writes M timestamp ws
                (appends @ [\<lparr>pa_page_id = op_page_id p, pa_offset = op_offset p, pa_payload = payload, pa_sealed = False\<rparr>])
                (pids @ [op_page_id p])
                (i\<lparr>in_open_page := Some (p\<lparr>op_offset := op_offset p + word_of_nat (length payload)\<rparr>)\<rparr>)))"

definition persist_commit ::
    "mvcc_env \<Rightarrow> u64 \<Rightarrow> (bytes \<times> bytes option) list \<Rightarrow> inner \<Rightarrow> (transaction_error + u64 list) \<times> inner" where
  "persist_commit M timestamp writes i =
    try_then (pack_writes M timestamp writes [] [] i) (\<lambda>(appends, pids) i.
    try_then (storage_call M (handle_append appends 0) i) (\<lambda>lsns i.
      let i = i\<lparr>in_record_cache := fold lru_remove pids (in_record_cache i)\<rparr> in
      if length lsns < length writes
      then (Inl (TxStorage (GroupCommit (Reason ''commit returned {} LSNs for {} writes''
        [length lsns, length writes]))), i)
      else (Inr pids, i)))"

definition mark_index_dirty :: "inner \<Rightarrow> inner" where
  "mark_index_dirty i = i\<lparr>in_signal := (in_signal i)\<lparr>ps_dirty := True\<rparr>\<rparr>"

definition on_state :: "(mvcc_state \<Rightarrow> (transaction_error + 'a) \<times> mvcc_state) \<Rightarrow> inner \<Rightarrow> (transaction_error + 'a) \<times> inner" where
  "on_state op i = (case op (in_state i) of (r, st) \<Rightarrow> (r, i\<lparr>in_state := st\<rparr>))"

definition inner_commit ::
    "mvcc_env \<Rightarrow> u64 \<Rightarrow> u64 \<Rightarrow> (bytes \<times> bytes option) list \<Rightarrow> bytes list \<Rightarrow> inner \<Rightarrow>
     (transaction_error + commit_result) \<times> inner" where
  "inner_commit M tid snapshot writes scanned i =
    (if writes = [] then (Inr \<lparr>cr_timestamp = None, cr_write_count = 0\<rparr>, i)
     else try_then (on_state (prepare_commit tid snapshot (map fst writes) scanned) i) (\<lambda>timestamp i.
       case persist_commit M timestamp writes i of
         (Inr pids, i) \<Rightarrow>
           try_then (on_state (finish_prepared tid timestamp writes (Some pids)) i) (\<lambda>_ i.
             (Inr \<lparr>cr_timestamp = Some timestamp, cr_write_count = length writes\<rparr>, mark_index_dirty i))
       | (Inl e, i) \<Rightarrow> (Inl e, snd (on_state (finish_prepared tid timestamp writes None) i))))"

section \<open>The index\<close>

definition plan_rebuild :: "mvcc_env \<Rightarrow> index_job \<Rightarrow> inner \<Rightarrow> (transaction_error + index_build_plan) \<times> inner" where
  "plan_rebuild M job i =
    (let s = in_store i; g = in_storage i in
     case job_base job of
       Some gen \<Rightarrow>
         (case edit_plan (me_index M) s (Some (in_node_cache i)) (gen_root gen)
             (case job_mutations job of None \<Rightarrow> [] | Some ms \<Rightarrow> ms) (allocator s) of
            (r, ed) \<Rightarrow> (tx_index r, i\<lparr>in_storage := g\<lparr>gc_store := s\<lparr>allocator := ed_allocator ed\<rparr>\<rparr>,
              in_node_cache := the (ed_cache ed)\<rparr>))
     | None \<Rightarrow>
         (case plan_index (case job_entries job of None \<Rightarrow> [] | Some es \<Rightarrow> es) (allocator s) of
            (r, a) \<Rightarrow> (tx_index r, i\<lparr>in_storage := g\<lparr>gc_store := s\<lparr>allocator := a\<rparr>\<rparr>\<rparr>)))"

definition rebuild_index :: "mvcc_env \<Rightarrow> inner \<Rightarrow> (transaction_error + index_build_result) \<times> inner" where
  "rebuild_index M i =
    (case start_rebuild (in_state i) of
       Inl result \<Rightarrow> (Inr result, i)
     | Inr job \<Rightarrow>
         try_then (plan_rebuild M job i) (\<lambda>plan i.
         try_then (storage_reserve 1 i) (\<lambda>ids i.
         case ids of
           [] \<Rightarrow> (Inl (TxStorage (GroupCommit (Reason ''manifest page reservation returned no page'' []))), i)
         | manifest # _ \<Rightarrow>
             let generation = \<lparr>gen_timestamp = job_timestamp job, gen_root = plan_root plan,
                   manifest_page_id = manifest\<rparr>;
                 writes = plan_writes plan @ [\<lparr>pw_page_id = manifest, pw_payload = generation_encode generation\<rparr>] in
             try_then (storage_call M (commit_relaxed writes 0) i) (\<lambda>_ i.
               case publish_rebuild generation (map_option op_page_id (in_open_page i)) (in_state i) of
                 (freed, st) \<Rightarrow>
                   (Inr \<lparr>built_timestamp = job_timestamp job, built_root = plan_root plan\<rparr>,
                    storage_release freed (i\<lparr>in_state := st,
                      in_record_cache := fold lru_remove freed (in_record_cache i)\<rparr>))))))"

text \<open>One turn of the publisher after a wake-up: \<open>None\<close> when it stops.\<close>

definition publish_round :: "mvcc_env \<Rightarrow> inner \<Rightarrow> inner option" where
  "publish_round M i =
    (if ps_stop (in_signal i) then None
     else if ps_dirty (in_signal i)
     then Some (snd (rebuild_index M (i\<lparr>in_signal := (in_signal i)\<lparr>ps_dirty := False\<rparr>\<rparr>)))
     else Some i)"

section \<open>Transactions\<close>

definition ensure_active :: "transaction \<Rightarrow> transaction_error + unit" where
  "ensure_active tx = (if tx_finished tx then Inl Inactive else Inr ())"

definition tx_get :: "mvcc_env \<Rightarrow> transaction \<Rightarrow> bytes \<Rightarrow> inner \<Rightarrow> (transaction_error + bytes option) \<times> inner" where
  "tx_get M tx key i =
    (case ensure_active tx of
       Inl e \<Rightarrow> (Inl e, i)
     | Inr _ \<Rightarrow>
         (case map_of (tx_writes tx) key of
            Some val \<Rightarrow> (Inr val, i)
          | None \<Rightarrow> inner_read M key (tx_snapshot tx) i))"

definition tx_put :: "bytes \<Rightarrow> bytes \<Rightarrow> transaction \<Rightarrow> (transaction_error + unit) \<times> transaction" where
  "tx_put key val tx =
    (case ensure_active tx of
       Inl e \<Rightarrow> (Inl e, tx)
     | Inr _ \<Rightarrow>
         (case validate_size key (Some val) of
            Inl e \<Rightarrow> (Inl e, tx)
          | Inr _ \<Rightarrow> (Inr (), tx\<lparr>tx_writes := bt_insert key (Some val) (tx_writes tx)\<rparr>)))"

definition tx_delete :: "bytes \<Rightarrow> transaction \<Rightarrow> (transaction_error + unit) \<times> transaction" where
  "tx_delete key tx =
    (case ensure_active tx of
       Inl e \<Rightarrow> (Inl e, tx)
     | Inr _ \<Rightarrow>
         (case validate_size key None of
            Inl e \<Rightarrow> (Inl e, tx)
          | Inr _ \<Rightarrow> (Inr (), tx\<lparr>tx_writes := bt_insert key None (tx_writes tx)\<rparr>)))"

definition protect_scans :: "transaction \<Rightarrow> transaction" where
  "protect_scans tx = tx\<lparr>tx_range_protected := True\<rparr>"

definition track_scan :: "bytes \<Rightarrow> transaction \<Rightarrow> transaction" where
  "track_scan pre tx =
    (if tx_range_protected tx \<and> \<not> list_ex (\<lambda>existing. starts_with pre existing) (tx_scanned tx)
     then tx\<lparr>tx_scanned := filter (\<lambda>existing. \<not> starts_with existing pre) (tx_scanned tx) @ [pre]\<rparr>
     else tx)"

fun scan_versions ::
    "u64 \<Rightarrow> version_map \<Rightarrow> bytes list \<Rightarrow> (bytes \<times> bytes) list \<Rightarrow> bytes list \<times> (bytes \<times> bytes) list" where
  "scan_versions snapshot [] masked results = (masked, results)"
| "scan_versions snapshot ((key, vs) # vm) masked results =
    (case newest_at snapshot vs of
       None \<Rightarrow> scan_versions snapshot vm masked results
     | Some v \<Rightarrow>
         scan_versions snapshot vm (insort_insert key masked)
           (case ver_value v of None \<Rightarrow> results | Some val \<Rightarrow> bt_insert key val results))"

fun scan_index ::
    "mvcc_env \<Rightarrow> u64 \<Rightarrow> bytes list \<Rightarrow> index_entry list \<Rightarrow> (bytes \<times> bytes) list \<Rightarrow> inner \<Rightarrow>
     (transaction_error + (bytes \<times> bytes) list) \<times> inner" where
  "scan_index M snapshot masked [] results i = (Inr results, i)"
| "scan_index M snapshot masked (e # es) results i =
    (if ie_key e \<in> set masked then scan_index M snapshot masked es results i
     else try_then (read_index_version M (ie_value e) (ie_key e) snapshot i) (\<lambda>r i.
       scan_index M snapshot masked es
         (case r of None \<Rightarrow> results | Some val \<Rightarrow> bt_insert (ie_key e) val results) i))"

definition overlay_write :: "bytes \<times> bytes option \<Rightarrow> (bytes \<times> bytes) list \<Rightarrow> (bytes \<times> bytes) list" where
  "overlay_write w results =
    (case snd w of None \<Rightarrow> bt_remove (fst w) results | Some val \<Rightarrow> bt_insert (fst w) val results)"

definition overlay_writes :: "bytes \<Rightarrow> (bytes \<times> bytes option) list \<Rightarrow> (bytes \<times> bytes) list \<Rightarrow> (bytes \<times> bytes) list" where
  "overlay_writes pre writes results =
    fold overlay_write (filter (\<lambda>w. starts_with (fst w) pre) writes) results"

definition scan_prefix ::
    "mvcc_env \<Rightarrow> bytes \<Rightarrow> transaction \<Rightarrow> inner \<Rightarrow>
     (transaction_error + (bytes \<times> bytes) list) \<times> transaction \<times> inner" where
  "scan_prefix M pre tx i =
    (case ensure_active tx of
       Inl e \<Rightarrow> (Inl e, tx, i)
     | Inr _ \<Rightarrow>
         let tx = track_scan pre tx;
             snapshot = tx_snapshot tx;
             (masked, results) = scan_versions snapshot (version_range (ms_versions (in_state i)) pre) [] [];
             root = Option.bind (generation_at snapshot (in_state i)) gen_root;
             (r, i) =
               (case root of
                  None \<Rightarrow> (Inr results, i)
                | Some root \<Rightarrow>
                    (case tree_range (me_index M) (in_store i) root (Some pre) (prefix_end pre) usize_max
                        (Some (in_node_cache i)) of
                       (entries, c) \<Rightarrow>
                         let i = i\<lparr>in_node_cache := the c\<rparr> in
                         (case entries of
                            Inl e \<Rightarrow> (Inl (TxIndex e), i)
                          | Inr entries \<Rightarrow> scan_index M snapshot masked entries results i))) in
         (case r of
            Inl e \<Rightarrow> (Inl e, tx, i)
          | Inr results \<Rightarrow> (Inr (overlay_writes pre (tx_writes tx) results), tx, i)))"

text \<open>Committing and rolling back consume the transaction; dropping it ends it if it is still active.\<close>

definition tx_commit :: "mvcc_env \<Rightarrow> transaction \<Rightarrow> inner \<Rightarrow> (transaction_error + commit_result) \<times> inner" where
  "tx_commit M tx i =
    (case ensure_active tx of
       Inl e \<Rightarrow> (Inl e, i)
     | Inr _ \<Rightarrow>
         (case inner_commit M (tx_id tx) (tx_snapshot tx) (tx_writes tx) (tx_scanned tx) i of
            (result, i) \<Rightarrow> (result, i\<lparr>in_state := end_transaction (tx_id tx) (in_state i)\<rparr>)))"

definition tx_rollback :: "transaction \<Rightarrow> inner \<Rightarrow> (transaction_error + unit) \<times> inner" where
  "tx_rollback tx i =
    (case ensure_active tx of
       Inl e \<Rightarrow> (Inl e, i)
     | Inr _ \<Rightarrow> (Inr (), i\<lparr>in_state := end_transaction (tx_id tx) (in_state i)\<rparr>))"

definition tx_drop :: "transaction \<Rightarrow> inner \<Rightarrow> inner" where
  "tx_drop tx i = (if tx_finished tx then i else i\<lparr>in_state := end_transaction (tx_id tx) (in_state i)\<rparr>)"

section \<open>The database\<close>

definition db_begin :: "inner \<Rightarrow> (transaction_error + transaction) \<times> inner" where
  "db_begin i = on_state begin_transaction i"

text \<open>\<open>get\<close> takes its snapshot and then reads in a second lock acquisition, in between which other
  operations may run.\<close>

definition get_snapshot :: "inner \<Rightarrow> u64" where
  "get_snapshot i = ms_visible_through (in_state i)"

definition db_get :: "mvcc_env \<Rightarrow> bytes \<Rightarrow> inner \<Rightarrow> (transaction_error + bytes option) \<times> inner" where
  "db_get M key i = inner_read M key (get_snapshot i) i"

definition db_checkpoint :: "mvcc_env \<Rightarrow> inner \<Rightarrow> (transaction_error + u64) \<times> inner" where
  "db_checkpoint M i =
    try_then (rebuild_index M i) (\<lambda>generation i.
      case handle_checkpoint (env_checksum M) (in_storage i) of
        (Inl e, g) \<Rightarrow> (Inl (TxStorage e), i\<lparr>in_storage := g\<rparr>)
      | (Inr _, g) \<Rightarrow> (Inr (built_timestamp generation), i\<lparr>in_storage := g\<rparr>))"

record mvcc_stats =
  st_visible_through :: u64
  st_keys :: nat
  st_versions :: nat
  st_active_transactions :: nat
  st_write_intents :: nat
  st_indexed_through :: "u64 option"
  st_index_height :: "u16 option"
  st_indexed_keys :: u64
  st_reclaimed_versions :: u64
  st_free_pages :: nat
  st_index_cache :: cache_stats
  st_record_cache :: cache_stats
  st_group_commit :: group_stats

definition db_stats :: "inner \<Rightarrow> mvcc_stats" where
  "db_stats i =
    (let st = in_state i; latest = latest_generation st; root = Option.bind latest gen_root in
     \<lparr>st_visible_through = ms_visible_through st, st_keys = length (ms_versions st),
      st_versions = sum_list (map (length \<circ> snd) (ms_versions st)),
      st_active_transactions = length (ms_active st), st_write_intents = length (ms_intents st),
      st_indexed_through = map_option gen_timestamp latest, st_index_height = map_option root_height root,
      st_indexed_keys = (case root of None \<Rightarrow> 0 | Some r \<Rightarrow> root_entries r),
      st_reclaimed_versions = ms_reclaimed st, st_free_pages = free_page_count (allocator (in_store i)),
      st_index_cache = lru_stats (in_node_cache i), st_record_cache = lru_stats (in_record_cache i),
      st_group_commit = gc_stats (in_storage i)\<rparr>)"

definition stop_publisher :: "mvcc_database \<Rightarrow> mvcc_database" where
  "stop_publisher db =
    (if \<not> db_publisher db then db
     else db\<lparr>db_publisher := False,
       db_inner := (db_inner db)\<lparr>in_signal := (in_signal (db_inner db))\<lparr>ps_stop := True\<rparr>\<rparr>\<rparr>)"

definition db_shutdown :: "mvcc_database \<Rightarrow> mvcc_database" where
  "db_shutdown db = (stop_publisher db)\<lparr>db_committer := False\<rparr>"

section \<open>Opening\<close>

record loading =
  ld_versions :: version_map
  ld_refs :: "(u64 \<times> u32) list"
  ld_generations :: "index_generation list"
  ld_maximum :: u64

fun load_records :: "u64 \<Rightarrow> version_record list \<Rightarrow> loading \<Rightarrow> transaction_error + loading" where
  "load_records pid [] ld = Inr ld"
| "load_records pid (r # rs) ld =
    (let vs = key_versions (ld_versions ld) (vr_key r);
         refs = (case map_of (ld_refs ld) pid of None \<Rightarrow> 0 | Some n \<Rightarrow> n) in
     if list_ex (\<lambda>v. ver_timestamp v = vr_timestamp r) vs
     then Inl (CorruptRecord pid
       (Reason ''duplicate version timestamp {} for one key'' [unat (vr_timestamp r)]))
     else load_records pid rs
       (ld\<lparr>ld_maximum := max (ld_maximum ld) (vr_timestamp r),
          ld_versions := bt_insert (vr_key r)
            (vs @ [\<lparr>ver_timestamp = vr_timestamp r, ver_value = vr_value r, ver_page = pid\<rparr>]) (ld_versions ld),
          ld_refs := AList.update pid (refs + 1) (ld_refs ld)\<rparr>))"

definition load_page :: "mvcc_env \<Rightarrow> store \<Rightarrow> u64 \<Rightarrow> loading \<Rightarrow> transaction_error + loading" where
  "load_page M s pid ld =
    (case read_page (env_checksum M) pid s of
       Inl e \<Rightarrow> Inl (TxStorage e)
     | Inr None \<Rightarrow> Inr ld
     | Inr (Some page) \<Rightarrow>
         (case generation_decode pid (page_payload page) of
            Inl e \<Rightarrow> Inl e
          | Inr (Some g) \<Rightarrow> Inr (ld\<lparr>ld_generations := ld_generations ld @ [g]\<rparr>)
          | Inr None \<Rightarrow>
              (case decode_page pid (page_payload page) of
                 Inl e \<Rightarrow> Inl e
               | Inr records \<Rightarrow> load_records pid records ld)))"

fun load_pages :: "mvcc_env \<Rightarrow> store \<Rightarrow> u64 list \<Rightarrow> loading \<Rightarrow> transaction_error + loading" where
  "load_pages M s [] ld = Inr ld"
| "load_pages M s (pid # pids) ld =
    (case load_page M s pid ld of Inl e \<Rightarrow> Inl e | Inr ld \<Rightarrow> load_pages M s pids ld)"

text \<open>Sorting by the key of a generation: equal keys do not occur, since a page holds one manifest.\<close>

fun insert_generation :: "index_generation \<Rightarrow> index_generation list \<Rightarrow> index_generation list" where
  "insert_generation g [] = [g]"
| "insert_generation g (h # gs) =
    (if generation_key_le (generation_key g) (generation_key h) then g # h # gs else h # insert_generation g gs)"

definition sort_generations :: "index_generation list \<Rightarrow> index_generation list" where
  "sort_generations gs = foldr insert_generation gs []"

definition sort_versions :: "version_map \<Rightarrow> version_map" where
  "sort_versions vm = map (\<lambda>(key, vs). (key, sort_key ver_timestamp vs)) vm"

definition opened_state :: "loading \<Rightarrow> transaction_error + mvcc_state" where
  "opened_state ld =
    (let versions = sort_versions (ld_versions ld) in
     case checked_add_u64 (ld_maximum ld) 1 of
       None \<Rightarrow> Inl TimestampExhausted
     | Some next_ts \<Rightarrow>
         let gens = sort_generations (filter (\<lambda>g. gen_timestamp g \<le> ld_maximum ld) (ld_generations ld));
             indexed_through = (if gens = [] then 0 else gen_timestamp (last gens)) in
         Inr \<lparr>ms_versions = versions, ms_page_refs = ld_refs ld, ms_intents = [], ms_active = [],
           ms_completed = [], ms_next_transaction_id = 1, ms_next_commit_timestamp = next_ts,
           ms_visible_through = ld_maximum ld, ms_generations = gens,
           ms_dirty_keys = map fst (filter (\<lambda>(key, vs). list_ex (\<lambda>v. ver_timestamp v > indexed_through) vs) versions),
           ms_reclaimed = 0\<rparr>)"

definition committer_start :: "store \<Rightarrow> group_options \<Rightarrow> storage_error + committer" where
  "committer_start s opts =
    (case validate_options opts of
       Inl e \<Rightarrow> Inl e
     | Inr _ \<Rightarrow> Inr \<lparr>gc_store = s, gc_stats = \<lparr>gs_groups = 0, gs_requests = 0, gs_pages = 0, gs_automatic_checkpoints = 0\<rparr>,
         gc_jobs = [], gc_checkpointer = True\<rparr>)"

definition check_root :: "mvcc_env \<Rightarrow> store \<Rightarrow> index_generation list \<Rightarrow> transaction_error + unit" where
  "check_root M s gens =
    (case Option.bind (if gens = [] then None else Some (last gens)) gen_root of
       None \<Rightarrow> Inr ()
     | Some root \<Rightarrow>
         (case fst (tree_range (me_index M) s root None None 1 None) of Inl e \<Rightarrow> Inl (TxIndex e) | Inr _ \<Rightarrow> Inr ()))"

definition db_open ::
    "mvcc_env \<Rightarrow> mvcc_options \<Rightarrow> os_file \<Rightarrow> os_file \<Rightarrow> os_file \<Rightarrow> transaction_error + mvcc_database" where
  "db_open M opts data_f wal_f spare_f =
    (case store_open (env_checksum M) data_f wal_f spare_f of
       Inl e \<Rightarrow> Inl (TxStorage e)
     | Inr s \<Rightarrow>
    (case load_pages M s (map word_of_nat [0..<store_page_count s])
        \<lparr>ld_versions = [], ld_refs = [], ld_generations = [], ld_maximum = 0\<rparr> of
       Inl e \<Rightarrow> Inl e
     | Inr ld \<Rightarrow>
    (case opened_state ld of
       Inl e \<Rightarrow> Inl e
     | Inr st \<Rightarrow>
    (case committer_start s (mo_group_commit opts) of
       Inl e \<Rightarrow> Inl (TxStorage e)
     | Inr g \<Rightarrow>
    (case check_root M s (ms_generations st) of
       Inl e \<Rightarrow> Inl e
     | Inr _ \<Rightarrow>
         let (freed, st') = reclaim_covered None st;
             i = storage_release freed
               \<lparr>in_state = st', in_storage = g, in_node_cache = node_cache_new (mo_index_cache_bytes opts),
                in_open_page = None, in_record_cache = lru_new (mo_record_cache_bytes opts),
                in_signal = \<lparr>ps_dirty = False, ps_stop = False\<rparr>\<rparr>;
             i = (if mo_online_index opts \<and> ms_dirty_keys st \<noteq> [] then mark_index_dirty i else i) in
         Inr \<lparr>db_inner = i, db_committer = True, db_publisher = mo_online_index opts\<rparr>)))))"

end
