(* ===== verification/Mvcc_Open.thy ===== *)
theory Mvcc_Open
  imports Mvcc_Isolation Mvcc_Database
begin

text \<open>
  What opening a database establishes: the state built from the records of the pages satisfies the
  invariant of Mvcc_Isolation, whatever older generations are still on disk, if the newest
  generation that is not newer than the records describes them.
\<close>

section \<open>Sorting\<close>

lemma set_insert_generation [simp]: "set (insert_generation g gs) = insert g (set gs)"
  by (induction gs) auto

lemma set_sort_generations [simp]: "set (sort_generations gs) = set gs"
  by (induction gs) (auto simp: sort_generations_def)

lemma insert_generation_sorted:
  "sorted_wrt generation_less gs \<Longrightarrow> generation_key g \<notin> generation_key ` set gs \<Longrightarrow>
    sorted_wrt generation_less (insert_generation g gs)"
proof (induction gs)
  case (Cons h gs)
  show ?case
  proof (cases "generation_key_le (generation_key g) (generation_key h)")
    case True
    then have "generation_less g h" using Cons.prems by (auto simp: generation_less_def)
    then show ?thesis using True Cons.prems by (auto intro: generation_less_trans)
  next
    case False
    then show ?thesis using Cons generation_key_le_less by auto
  qed
qed simp

lemma sort_generations_sorted:
  "distinct (map generation_key gs) \<Longrightarrow> sorted_wrt generation_less (sort_generations gs)"
proof (induction gs)
  case (Cons g gs)
  have "set (foldr insert_generation gs []) = set gs" using set_sort_generations [of gs] by (simp add: sort_generations_def)
  then show ?case using Cons by (auto simp: sort_generations_def intro!: insert_generation_sorted)
qed (simp add: sort_generations_def)

lemma key_versions_sort: "key_versions (sort_versions vm) k = sort_key ver_timestamp (key_versions vm k)"
proof -
  have "map_of (sort_versions vm) k = map_option (sort_key ver_timestamp) (map_of vm k)"
    by (simp add: sort_versions_def map_of_map)
  then show ?thesis by (cases "map_of vm k") (simp_all add: key_versions_def)
qed

lemma sort_versions_sorted:
  "distinct (map ver_timestamp vs) \<Longrightarrow> sorted_versions (sort_key ver_timestamp vs)"
  by (simp add: strict_sorted_iff distinct_map inj_on_def)

section \<open>What loading collects\<close>

definition loaded :: "loading \<Rightarrow> bool" where
  "loaded ld \<longleftrightarrow> bt_sorted (ld_versions ld) \<and>
    (\<forall>k. distinct (map ver_timestamp (key_versions (ld_versions ld) k)) \<and>
      (\<forall>v\<in>set (key_versions (ld_versions ld) k). 0 < ver_timestamp v \<and> ver_timestamp v \<le> ld_maximum ld))"

lemma load_records_loaded:
  "load_records pid rs ld = Inr ld' \<Longrightarrow> \<forall>r\<in>set rs. vr_timestamp r \<noteq> 0 \<Longrightarrow> loaded ld \<Longrightarrow> loaded ld'"
proof (induction rs arbitrary: ld)
  case (Cons r rs)
  let ?vs = "key_versions (ld_versions ld) (vr_key r)"
  let ?v = "\<lparr>ver_timestamp = vr_timestamp r, ver_value = vr_value r, ver_page = pid\<rparr>"
  let ?ld = "ld\<lparr>ld_maximum := max (ld_maximum ld) (vr_timestamp r), ld_versions := bt_insert (vr_key r) (?vs @ [?v]) (ld_versions ld),
    ld_refs := AList.update pid ((case map_of (ld_refs ld) pid of None \<Rightarrow> 0 | Some n \<Rightarrow> n) + 1) (ld_refs ld)\<rparr>"
  have new: "\<forall>v\<in>set ?vs. ver_timestamp v \<noteq> vr_timestamp r" and rest: "load_records pid rs ?ld = Inr ld'"
    using Cons.prems(1) by (auto simp: Let_def list_ex_iff split: if_splits)
  have srt: "bt_sorted (ld_versions ld)" using Cons.prems(3) by (simp add: loaded_def)
  have pos: "0 < vr_timestamp r" using Cons.prems(2) by (simp add: word_neq_0_conv)
  have "loaded ?ld"
    unfolding loaded_def
  proof (intro conjI allI ballI)
    show "bt_sorted (ld_versions ?ld)" using srt by (simp add: bt_sorted_insert)
    fix k
    have kv: "key_versions (ld_versions ?ld) k = (if k = vr_key r then ?vs @ [?v] else key_versions (ld_versions ld) k)"
      using key_versions_insert [OF srt] by simp
    show "distinct (map ver_timestamp (key_versions (ld_versions ?ld) k))"
      unfolding kv using Cons.prems(3) new by (auto simp: loaded_def)
    fix v assume "v \<in> set (key_versions (ld_versions ?ld) k)"
    then show "0 < ver_timestamp v" "ver_timestamp v \<le> ld_maximum ?ld"
      unfolding kv using Cons.prems(3) pos by (auto simp: loaded_def max_def split: if_splits intro: order.trans)
  qed
  then show ?case using Cons.IH [OF rest] Cons.prems(2) by simp
qed simp

lemma load_page_loaded:
  assumes "load_page M s pid ld = Inr ld'" "loaded ld"
  shows "loaded ld'"
proof -
  have ts: "\<forall>r\<in>set rs. vr_timestamp r \<noteq> 0" if "decode_page pid bs = Inr rs" for bs rs
    using that by (auto simp: decode_page_eq list_all_iff record_ok_def)
  have g: "loaded (ld\<lparr>ld_generations := gs\<rparr>)" for gs using assms(2) by (simp add: loaded_def)
  show ?thesis
    using assms g by (auto simp: load_page_def split: sum.splits option.splits dest: ts intro: load_records_loaded)
qed

lemma load_pages_loaded: "load_pages M s pids ld = Inr ld' \<Longrightarrow> loaded ld \<Longrightarrow> loaded ld'"
  by (induction pids arbitrary: ld) (auto split: sum.splits dest: load_page_loaded)

lemma load_records_generations: "load_records pid rs ld = Inr ld' \<Longrightarrow> ld_generations ld' = ld_generations ld"
  by (induction rs arbitrary: ld) (auto simp: Let_def split: if_splits)

lemma load_page_generations:
  "load_page M s pid ld = Inr ld' \<Longrightarrow>
    ld_generations ld' = ld_generations ld \<or> (\<exists>g. ld_generations ld' = ld_generations ld @ [g] \<and> manifest_page_id g = pid)"
  by (auto simp: load_page_def generation_decode_eq split: sum.splits option.splits dest: load_records_generations)

lemma load_pages_generations:
  "load_pages M s pids ld = Inr ld' \<Longrightarrow> distinct pids \<Longrightarrow> distinct (map manifest_page_id (ld_generations ld)) \<Longrightarrow>
    manifest_page_id ` set (ld_generations ld) \<inter> set pids = {} \<Longrightarrow> distinct (map manifest_page_id (ld_generations ld'))"
proof (induction pids arbitrary: ld)
  case (Cons pid pids)
  then obtain ld1 where l: "load_page M s pid ld = Inr ld1" "load_pages M s pids ld1 = Inr ld'"
    by (auto split: sum.splits)
  have "distinct (map manifest_page_id (ld_generations ld1))"
    using load_page_generations [OF l(1)] Cons.prems(3,4) by fastforce
  moreover have "manifest_page_id ` set (ld_generations ld1) \<inter> set pids = {}"
    using load_page_generations [OF l(1)] Cons.prems(2,4) by fastforce
  ultimately show ?case using Cons.IH [OF l(2)] Cons.prems(2) by simp
qed simp

section \<open>The opened world\<close>

definition empty_loading :: loading where
  "empty_loading = \<lparr>ld_versions = [], ld_refs = [], ld_generations = [], ld_maximum = 0\<rparr>"

definition opened_world :: "(index_generation \<Rightarrow> index_view) \<Rightarrow> mvcc_state \<Rightarrow> world" where
  "opened_world idx st =
    \<lparr>w_state = snd (reclaim_covered None st), w_hist = key_versions (ms_versions st), w_prepared = {},
     w_commits = {}, w_jobs = {}, w_index = idx\<rparr>"

text \<open>The newest generation on disk is the one a rebuild wrote for the records up to its timestamp.\<close>

definition newest_generation_exact :: "(index_generation \<Rightarrow> index_view) \<Rightarrow> mvcc_state \<Rightarrow> bool" where
  "newest_generation_exact idx st \<longleftrightarrow>
    (\<forall>g. latest_generation st = Some g \<longrightarrow> exact_view (key_versions (ms_versions st)) (gen_timestamp g) (idx g))"

lemma sorted_map_filter: "bt_sorted vm \<Longrightarrow> bt_sorted (filter P vm)"
  by (induction vm) auto

lemma loaded_empty: "loaded empty_loading"
  by (simp add: loaded_def empty_loading_def key_versions_def)

lemma reclaim_covered_fields:
  assumes "reclaim_covered protect st = (freed, st')"
  shows "ms_generations st' = (case rposition (\<lambda>g. gen_timestamp g \<le> oldest_active_snapshot st) (ms_generations st) of
      None \<Rightarrow> ms_generations st | Some i \<Rightarrow> drop i (ms_generations st))"
    "ms_visible_through st' = ms_visible_through st" "ms_active st' = ms_active st"
proof -
  obtain gs R m where gs: "gs = (case rposition (\<lambda>g. gen_timestamp g \<le> oldest_active_snapshot st) (ms_generations st) of
      None \<Rightarrow> ms_generations st | Some i \<Rightarrow> drop i (ms_generations st))"
    and st': "st' = st\<lparr>ms_generations := gs, ms_versions := ms_versions st', ms_page_refs := R, ms_reclaimed := m\<rparr>"
    by (rule reclaim_covered_state [OF assms])
  show "ms_generations st' = (case rposition (\<lambda>g. gen_timestamp g \<le> oldest_active_snapshot st) (ms_generations st) of
      None \<Rightarrow> ms_generations st | Some i \<Rightarrow> drop i (ms_generations st))"
    by (subst st') (simp add: gs)
  show "ms_visible_through st' = ms_visible_through st" "ms_active st' = ms_active st" by (subst st', simp)+
qed

lemma opened_inv:
  assumes ld: "loaded ld" "distinct (map manifest_page_id (ld_generations ld))" and op: "opened_state ld = Inr st"
    and ex: "newest_generation_exact idx st"
  shows "mvcc_inv (opened_world idx st)" "ms_visible_through (w_state (opened_world idx st)) = ld_maximum ld"
    "ms_active (w_state (opened_world idx st)) = []"
proof -
  let ?gs = "sort_generations (filter (\<lambda>g. gen_timestamp g \<le> ld_maximum ld) (ld_generations ld))"
  let ?vm = "sort_versions (ld_versions ld)" and ?max = "ld_maximum ld"
  obtain n where n: "checked_add_u64 ?max 1 = Some n" using op by (auto simp: opened_state_def Let_def split: option.splits)
  define dirty where "dirty = map fst (filter (\<lambda>(key, vs). list_ex (\<lambda>v. ver_timestamp v > (if ?gs = [] then 0 else gen_timestamp (last ?gs))) vs) ?vm)"
  have st: "st = \<lparr>ms_versions = ?vm, ms_page_refs = ld_refs ld, ms_intents = [], ms_active = [],
      ms_completed = [], ms_next_transaction_id = 1, ms_next_commit_timestamp = n, ms_visible_through = ?max,
      ms_generations = ?gs, ms_dirty_keys = dirty, ms_reclaimed = 0\<rparr>"
    using op n unfolding opened_state_def Let_def dirty_def by simp
  define H where "H = key_versions (ms_versions st)"
  have hs: "sorted_versions (H k)" "v \<in> set (H k) \<Longrightarrow> 0 < ver_timestamp v \<and> ver_timestamp v \<le> ?max" for k v
    using ld(1) by (auto simp: H_def st key_versions_sort loaded_def intro: sort_versions_sorted)
  have srt: "bt_sorted ?vm"
    using ld(1) by (simp add: loaded_def sort_versions_def comp_def case_prod_beta')
  have gsrt: "sorted_wrt generation_less ?gs"
  proof (rule sort_generations_sorted)
    have "distinct (map manifest_page_id (filter (\<lambda>g. gen_timestamp g \<le> ?max) (ld_generations ld)))"
      using ld(2) by (simp add: distinct_map_filter)
    then show "distinct (map generation_key (filter (\<lambda>g. gen_timestamp g \<le> ?max) (ld_generations ld)))"
      by (auto simp: distinct_map inj_on_def generation_key_def)
  qed
  have gle: "gen_timestamp g \<le> ?max" if "g \<in> set ?gs" for g using that by simp
  define idx' where "idx' = (\<lambda>g. if latest_generation st = Some g then idx g else (\<lambda>k. live_page (gen_timestamp g) (H k)))"
  define w0 where "w0 = \<lparr>w_state = st, w_hist = H, w_prepared = {}, w_commits = {}, w_jobs = {}, w_index = idx'\<rparr>"
  have old: "oldest_active_snapshot st = ?max" by (simp add: st oldest_active_snapshot_def)
  have "mvcc_inv w0"
    unfolding mvcc_inv_def
  proof (intro conjI)
    show "clock_inv w0"
    proof -
      have "t \<notin> {?max<..<n}" for t using checked_Suc [OF n, of t] by (metis greaterThanLessThan_iff leD)
      then have "{?max<..<n} = {}" by blast
      then show ?thesis using checked_add_u64_less [OF n] unfolding clock_inv_def Let_def
        by (simp add: w0_def st)
    qed
    show "hist_inv w0" using hs by (auto simp: hist_inv_def w0_def settled_def st)
    show "intent_inv w0" "conflict_inv w0" by (simp_all add: intent_inv_def conflict_inv_def w0_def)
    show "map_inv w0"
      using srt unfolding map_inv_def by (auto simp: w0_def H_def covered_def st intro!: exI [of _ 0])
    show "index_inv w0"
      unfolding index_inv_def Let_def
    proof (intro conjI allI impI ballI)
      fix g assume "g \<in> set (ms_generations (w_state w0))"
      then show "gen_timestamp g \<le> ms_visible_through (w_state w0)" by (simp add: w0_def st)
      show "exact_view (w_hist w0) (gen_timestamp g) (w_index w0 g)"
        using ex by (auto simp: w0_def idx'_def newest_generation_exact_def H_def exact_view_def)
    next
      fix k v assume v: "v \<in> set (key_versions (ms_versions (w_state w0)) k)" and k: "k \<notin> set (ms_dirty_keys (w_state w0))"
      obtain vs where vs: "(k, vs) \<in> set ?vm" "v \<in> set vs"
        using v by (cases "map_of ?vm k") (auto simp: w0_def st key_versions_def dest: map_of_SomeD)
      have "k \<notin> set dirty" using k by (simp add: w0_def st)
      then have le: "ver_timestamp v \<le> (if ?gs = [] then 0 else gen_timestamp (last ?gs))"
        using vs unfolding dirty_def by (force simp: list_ex_iff image_iff not_less)
      have "0 < ver_timestamp v" using v hs(2) [of v k] by (simp add: w0_def H_def)
      then have "?gs \<noteq> []" using le by auto
      then show "\<exists>g\<in>set (ms_generations (w_state w0)). ver_timestamp v \<le> gen_timestamp g"
        using le by (intro bexI [of _ "last ?gs"]) (auto simp: w0_def st simp del: set_sort_generations)
    next
      show "sorted_wrt (<) (ms_dirty_keys (w_state w0))"
        using sorted_map_filter [OF srt] by (simp add: w0_def st dirty_def)
    qed (use gsrt in \<open>auto simp: w0_def st\<close>)
  qed
  obtain freed st' where rec: "reclaim_covered None st = (freed, st')" by force
  have inv': "mvcc_inv (w0\<lparr>w_state := st'\<rparr>)" by (rule reclaim_inv [OF \<open>mvcc_inv w0\<close>, of None freed]) (simp add: w0_def rec)
  have ring: "set (ms_generations st') \<subseteq> {g. latest_generation st = Some g}"
  proof -
    note gs = reclaim_covered_fields(1) [OF rec]
    show ?thesis
    proof (cases "?gs = []")
      case True
      then show ?thesis using gs by (simp add: st)
    next
      case False
      then obtain hs g where hs': "?gs = hs @ [g]" by (metis rev_exhaust)
      have "rposition (\<lambda>g. gen_timestamp g \<le> ?max) (hs @ [g]) = Some (length hs)"
        using gle [of g] hs' by (simp add: rposition_append del: set_sort_generations)
      then have "ms_generations st' = [g]" using gs hs' old by (simp add: st)
      then show ?thesis using hs' by (simp add: latest_generation_def st)
    qed
  qed
  have w: "opened_world idx st = w0\<lparr>w_state := st', w_index := idx\<rparr>"
    by (simp add: opened_world_def w0_def rec H_def)
  have "index_inv (w0\<lparr>w_state := st', w_index := idx\<rparr>)"
  proof -
    have "\<forall>g\<in>set (ms_generations st'). idx' g = idx g" using ring by (auto simp: idx'_def)
    then show ?thesis using inv' unfolding mvcc_inv_def index_inv_def Let_def by (simp add: w0_def)
  qed
  then show "mvcc_inv (opened_world idx st)"
    unfolding w using inv'
    by (simp add: mvcc_inv_def clock_inv_def hist_inv_def intent_inv_def conflict_inv_def map_inv_def Let_def)
  show "ms_visible_through (w_state (opened_world idx st)) = ld_maximum ld"
    "ms_active (w_state (opened_world idx st)) = []"
    unfolding opened_world_def rec using reclaim_covered_fields(2,3) [OF rec] by (simp_all add: st)
qed

end
