(* ===== verification/Mvcc_Props.thy ===== *)
theory Mvcc_Props
  imports Mvcc_Open
begin

text \<open>
  The properties of the transaction layer, for every interleaving of the steps of Mvcc_Isolation
  from a database that was opened from its pages.
\<close>

section \<open>Histories only grow above what is visible\<close>

lemma advance_visible_mono: "advance_visible v c = (v', c') \<Longrightarrow> v \<le> v'"
proof (induction v c arbitrary: v' c' rule: advance_visible.induct)
  case (1 v c)
  show ?case
  proof (cases "\<exists>n. checked_add_u64 v 1 = Some n \<and> n \<in> set c")
    case True
    then obtain n where n: "checked_add_u64 v 1 = Some n" "n \<in> set c" by blast
    then have "advance_visible n (removeAll n c) = (v', c')" using "1.prems" by (simp add: advance_visible.simps [of v c])
    then show ?thesis using "1.IH" [OF n] checked_add_u64_less [OF n(1)] by (meson less_imp_le order.trans)
  next
    case False
    then show ?thesis using "1.prems" by (auto simp: advance_visible.simps [of v c] split: option.splits if_splits)
  qed
qed

lemma install_versions_visible:
  "install_versions ts xs pos st = (r, st') \<Longrightarrow> ms_visible_through st' = ms_visible_through st"
  by (induction ts xs pos st arbitrary: r st' rule: install_versions.induct) (auto simp: Let_def split: if_splits)

lemma finish_visible:
  assumes "finish_prepared tid ts writes pids st = (r, st')"
  shows "ms_visible_through st \<le> ms_visible_through st'"
proof -
  let ?st = "st\<lparr>ms_intents := fold (\<lambda>w. drop_intent tid (fst w)) writes (ms_intents st)\<rparr>"
  obtain q st1 where q: "(case pids of None \<Rightarrow> (Inr (), ?st) | Some ps \<Rightarrow> install_versions ts (zip writes ps) 0 ?st) = (q, st1)"
    by force
  then have v: "ms_visible_through st1 = ms_visible_through st"
    by (cases pids) (auto dest: install_versions_visible)
  obtain v' c' where "advance_visible (ms_visible_through st1) (insort_insert ts (ms_completed st1)) = (v', c')" by force
  then show ?thesis
    using assms q v advance_visible_mono [of "ms_visible_through st1"]
    by (cases q) (auto simp: finish_prepared_def Let_def complete_timestamp_def)
qed

lemma publish_visible:
  assumes "publish_rebuild g open_page st = (freed, st')"
  shows "ms_visible_through st' = ms_visible_through st"
  using reclaim_covered_fields(2) [OF assms [unfolded publish_rebuild_def Let_def]]
  by (simp add: publish_generation_def Let_def)

lemma committed_version_ts: "v \<in> set (committed_version p pids k) \<Longrightarrow> ver_timestamp v = pr_ts p"
  by (auto simp: committed_version_def split: option.splits)

lemma step_history:
  assumes "mvcc_step w w'" "mvcc_inv w"
  shows "ms_visible_through (w_state w) \<le> ms_visible_through (w_state w')"
    "\<exists>vs. w_hist w' k = w_hist w k @ vs \<and> (\<forall>v\<in>set vs. ms_visible_through (w_state w) < ver_timestamp v)"
  using assms
proof (induction rule: mvcc_step.induct)
  case (step_begin w tx st)
  { case 1 show ?case using step_begin by (auto simp: begin_transaction_def Let_def split: option.splits) }
  { case 2 then show ?case by simp }
next
  case (step_prepare w tid snapshot writes scanned ts st)
  { case 1 then show ?case using prepare_commitD(4) [OF step_prepare(4)] by auto }
  { case 2 then show ?case by simp }
next
  case (step_finish p w pids r st)
  have clk: "clock_inv w" if "mvcc_inv w" using that by (simp add: mvcc_inv_def)
  { case 1
    then show ?case using finish_visible [OF step_finish(3)] by simp }
  { case 2 then show ?case using committed_version_ts prepared_ts [OF clk step_finish(1)] by auto }
next
  case (step_abort p w r st)
  { case 1
    then show ?case using finish_visible [OF step_abort(2)] by simp }
  { case 2 then show ?case by simp }
next
  case (step_end tid w)
  { case 1 then show ?case by (simp add: end_transaction_def) }
  { case 2 then show ?case by simp }
next
  case (step_rebuild w job)
  { case 1 then show ?case by simp }
  { case 2 then show ?case by simp }
next
  case (step_publish g view w open_page freed st)
  { case 1 then show ?case using publish_visible [OF step_publish(3)] by simp }
  { case 2 then show ?case by simp }
qed

lemma interval_next: "t \<in> {v<..<n :: u64} \<Longrightarrow> v + 1 \<in> {v<..<n}"
proof -
  assume t: "t \<in> {v<..<n}"
  then have "unat v + 1 \<le> unat t" by (simp add: word_less_nat_alt)
  then have c: "checked_add_u64 v 1 = Some (v + 1)" using unat_u64_less [of t] by (simp add: checked_add_u64_def)
  have "v + 1 \<le> t" using checked_Suc [OF c, of t] t by (metis greaterThanLessThan_iff leD not_le)
  then show ?thesis using checked_add_u64_less [OF c] t by (metis greaterThanLessThan_iff order.strict_trans1)
qed

lemma steps_inv: "mvcc_step\<^sup>*\<^sup>* w w' \<Longrightarrow> mvcc_inv w \<Longrightarrow> mvcc_inv w'"
  by (induction rule: rtranclp_induct) (auto intro: mvcc_step_inv)

lemma steps_history:
  assumes "mvcc_step\<^sup>*\<^sup>* w w'" "mvcc_inv w"
  shows "ms_visible_through (w_state w) \<le> ms_visible_through (w_state w') \<and>
    (\<exists>vs. w_hist w' k = w_hist w k @ vs \<and> (\<forall>v\<in>set vs. ms_visible_through (w_state w) < ver_timestamp v))"
  using assms
proof (induction rule: rtranclp_induct)
  case (step y z)
  have inv: "mvcc_inv y" using steps_inv step by blast
  obtain vs us where "w_hist y k = w_hist w k @ vs" "\<forall>v\<in>set vs. ms_visible_through (w_state w) < ver_timestamp v"
    "w_hist z k = w_hist y k @ us" "\<forall>v\<in>set us. ms_visible_through (w_state y) < ver_timestamp v"
    using step step_history(2) [OF step(2) inv, of k] by auto
  moreover have le: "ms_visible_through (w_state w) \<le> ms_visible_through (w_state y)"
    "ms_visible_through (w_state y) \<le> ms_visible_through (w_state z)"
    using step step_history(1) [OF step(2) inv] by auto
  ultimately show ?case using order.strict_trans1 [OF le(1)] by (auto intro: order.trans)
qed simp

lemma value_at_later:
  "\<forall>v\<in>set vs. t < ver_timestamp v \<Longrightarrow> value_at t (hs @ vs) = value_at t hs"
  by (simp add: value_at_def newest_at_append newest_at_None [THEN iffD2])

definition reachable :: "(index_generation \<Rightarrow> index_view) \<Rightarrow> loading \<Rightarrow> world \<Rightarrow> bool" where
  "reachable idx ld w \<longleftrightarrow> loaded ld \<and> distinct (map manifest_page_id (ld_generations ld)) \<and>
    (\<exists>st. opened_state ld = Inr st \<and> newest_generation_exact idx st \<and> mvcc_step\<^sup>*\<^sup>* (opened_world idx st) w)"

lemma reachable_inv: "reachable idx ld w \<Longrightarrow> mvcc_inv w"
  unfolding reachable_def using opened_inv(1) steps_inv by blast

lemma reachable_steps: "reachable idx ld w \<Longrightarrow> mvcc_step\<^sup>*\<^sup>* w w' \<Longrightarrow> reachable idx ld w'"
  unfolding reachable_def by (meson rtranclp_trans)

section \<open>Snapshot isolation\<close>


text \<open>C31: first committer wins. No version of a key that a transaction wrote, or that lies under a
  prefix it scanned with protection on, was committed between its snapshot and its own commit
  timestamp; so there are no lost updates and no phantoms under protected scans.\<close>

theorem first_committer_wins:
  assumes "reachable idx ld w" "p \<in> w_commits w"
    and "key \<in> fst ` set (pr_writes p) \<or> (\<exists>s\<in>set (pr_scanned p). starts_with key s)"
    and "v \<in> set (w_hist w key)"
  shows "\<not> (pr_snapshot p < ver_timestamp v \<and> ver_timestamp v < pr_ts p)"
  using conflict_invD(1) [OF reachable_inv [OF assms(1)], of p key v] assms(2-4) by (auto simp: guarded_def)

text \<open>C34: the second phase of a commit never fails: installing the versions of a prepared commit
  finds no duplicate timestamp, in any interleaving.\<close>

theorem finish_prepared_succeeds:
  assumes "reachable idx ld w" "p \<in> w_prepared w" "length pids = length (pr_writes p)"
  shows "fst (finish_prepared (pr_tid p) (pr_ts p) (pr_writes p) (Some pids) (w_state w)) = Inr ()"
  using finish_inv(2) [OF reachable_inv [OF assms(1)] assms(2,3)] by (metis prod.collapse)

text \<open>C33: commits become visible once and completely. A commit that is still between its phases is
  newer than every snapshot, and once none is, every committed version is visible to the next
  transaction, whatever order the commits finished in.\<close>

theorem commits_become_visible:
  assumes "reachable idx ld w"
  shows "(\<forall>p\<in>w_prepared w. ms_visible_through (w_state w) < pr_ts p) \<and>
    (w_prepared w = {} \<longrightarrow> (\<forall>key. \<forall>v\<in>set (w_hist w key). ver_timestamp v \<le> ms_visible_through (w_state w)))"
proof (intro conjI impI allI ballI)
  have clk: "clock_inv w" using reachable_inv [OF assms] by (simp add: mvcc_inv_def)
  show "ms_visible_through (w_state w) < pr_ts p" if "p \<in> w_prepared w" for p using prepared_ts [OF clk that] by blast
  fix key v assume none: "w_prepared w = {}" and v: "v \<in> set (w_hist w key)"
  have eq: "set (ms_completed (w_state w)) = {ms_visible_through (w_state w)<..<ms_next_commit_timestamp (w_state w)}"
    using clock_invD(6) [OF clk] none by simp
  have "set (ms_completed (w_state w)) = {}"
  proof (rule equals0I)
    fix t assume "t \<in> set (ms_completed (w_state w))"
    then have "ms_visible_through (w_state w) + 1 \<in> set (ms_completed (w_state w))" unfolding eq by (rule interval_next)
    then show False using clock_invD(8) [OF clk] by contradiction
  qed
  then show "ver_timestamp v \<le> ms_visible_through (w_state w)"
    using hist_invD(2) [OF reachable_inv [OF assms] v] by (simp add: settled_def)
qed

section \<open>A sample run\<close>

text \<open>A database without pages, in which a transaction commits one key and a second one begins.\<close>

definition sample_state :: "version_map \<Rightarrow> (bytes \<times> u64) list \<Rightarrow> (u64 \<times> u64) list \<Rightarrow> u64 \<Rightarrow> u64 \<Rightarrow> u64 \<Rightarrow> mvcc_state" where
  "sample_state vm intents act tid ts visible =
    \<lparr>ms_versions = vm, ms_page_refs = map (\<lambda>_. (7, 1)) vm, ms_intents = intents, ms_active = act, ms_completed = [],
     ms_next_transaction_id = tid, ms_next_commit_timestamp = ts, ms_visible_through = visible,
     ms_generations = [], ms_dirty_keys = map fst vm, ms_reclaimed = 0\<rparr>"

abbreviation sample_index :: "index_generation \<Rightarrow> index_view" where "sample_index \<equiv> (\<lambda>_ _. None)"

definition sample_prepared :: prepared where
  "sample_prepared = \<lparr>pr_tid = 1, pr_ts = 1, pr_snapshot = 0, pr_writes = [([1], Some [2])], pr_scanned = [[1]]\<rparr>"

definition sample_version :: version where
  "sample_version = \<lparr>ver_timestamp = 1, ver_value = Some [2], ver_page = 7\<rparr>"

definition sample_world :: "mvcc_state \<Rightarrow> (bytes \<Rightarrow> version list) \<Rightarrow> prepared set \<Rightarrow> prepared set \<Rightarrow> world" where
  "sample_world st H ps cs =
    \<lparr>w_state = st, w_hist = H, w_prepared = ps, w_commits = cs, w_jobs = {}, w_index = sample_index\<rparr>"

lemma u64_one_plus [simp]: "checked_add_u64 1 1 = Some 2" "checked_add_u64 0 1 = Some 1" "checked_add_u64 2 1 = Some 3"
  by (simp_all add: checked_add_u64_def)

lemma sample_opened:
  "opened_state empty_loading = Inr (sample_state [] [] [] 1 1 0)"
  by (simp add: opened_state_def empty_loading_def sample_state_def sort_versions_def sort_generations_def)

lemma sample_opened_world:
  "opened_world sample_index (sample_state [] [] [] 1 1 0) = sample_world (sample_state [] [] [] 1 1 0) (\<lambda>_. []) {} {}"
  by (simp add: opened_world_def sample_world_def sample_state_def reclaim_covered_def key_versions_def fun_eq_iff)

lemma sample_begin1:
  "mvcc_step (sample_world (sample_state [] [] [] 1 1 0) (\<lambda>_. []) {} {})
    (sample_world (sample_state [] [] [(1, 0)] 2 1 0) (\<lambda>_. []) {} {})"
proof -
  have "begin_transaction (sample_state [] [] [] 1 1 0) = (Inr \<lparr>tx_id = 1, tx_snapshot = 0, tx_writes = [], tx_scanned = [],
      tx_range_protected = False, tx_finished = False\<rparr>, sample_state [] [] [(1, 0)] 2 1 0)"
    by (simp add: begin_transaction_def sample_state_def)
  then show ?thesis
    using step_begin [of "sample_world (sample_state [] [] [] 1 1 0) (\<lambda>_. []) {} {}"] by (simp add: sample_world_def)
qed

lemma sample_prepare:
  "mvcc_step (sample_world (sample_state [] [] [(1, 0)] 2 1 0) (\<lambda>_. []) {} {})
    (sample_world (sample_state [] [([1], 1)] [(1, 0)] 2 2 0) (\<lambda>_. []) {sample_prepared} {})"
proof -
  have "prepare_commit 1 0 (map fst [([1], Some [2])]) [[1]] (sample_state [] [] [(1, 0)] 2 1 0) =
      (Inr 1, sample_state [] [([1], 1)] [(1, 0)] 2 2 0)"
    by (simp add: prepare_commit_def sample_state_def write_conflict_def range_conflict_def newer_than_def key_versions_def
        version_range_def)
  then show ?thesis
    using step_prepare [of "sample_world (sample_state [] [] [(1, 0)] 2 1 0) (\<lambda>_. []) {} {}" 1 0 "[([1], Some [2])]" "[[1]]"]
    by (simp add: sample_world_def sample_prepared_def sample_state_def)
qed

lemma sample_finish:
  "mvcc_step (sample_world (sample_state [] [([1], 1)] [(1, 0)] 2 2 0) (\<lambda>_. []) {sample_prepared} {})
    (sample_world (sample_state [([1], [sample_version])] [] [(1, 0)] 2 2 1)
      (\<lambda>k. if k = [1] then [sample_version] else []) {} {sample_prepared})"
proof -
  have adv: "advance_visible 0 [1] = (1, [])"
    by (simp add: advance_visible.simps)
  have "finish_prepared 1 1 [([1], Some [2])] (Some [7]) (sample_state [] [([1], 1)] [(1, 0)] 2 2 0) =
      (Inr (), sample_state [([1], [sample_version])] [] [(1, 0)] 2 2 1)"
    using adv by (simp add: finish_prepared_def sample_state_def drop_intent_def key_versions_def binary_search.simps
        partition_point_def complete_timestamp_def sample_version_def insort_insert_key_def)
  moreover have "(\<lambda>k. [] @ committed_version sample_prepared [7] k) = (\<lambda>k. if k = [1] then [sample_version] else [])"
    by (simp add: fun_eq_iff committed_version_def sample_prepared_def sample_version_def)
  ultimately show ?thesis
    using step_finish [of sample_prepared "sample_world (sample_state [] [([1], 1)] [(1, 0)] 2 2 0) (\<lambda>_. []) {sample_prepared} {}" "[7]"]
    by (simp add: sample_world_def sample_prepared_def)
qed

lemma sample_begin2:
  "mvcc_step (sample_world (sample_state [([1], [sample_version])] [] [(1, 0)] 2 2 1) H {} C)
    (sample_world (sample_state [([1], [sample_version])] [] [(1, 0), (2, 1)] 3 2 1) H {} C)"
proof -
  have "begin_transaction (sample_state [([1], [sample_version])] [] [(1, 0)] 2 2 1) = (Inr \<lparr>tx_id = 2, tx_snapshot = 1, tx_writes = [], tx_scanned = [],
      tx_range_protected = False, tx_finished = False\<rparr>, sample_state [([1], [sample_version])] [] [(1, 0), (2, 1)] 3 2 1)"
    by (simp add: begin_transaction_def sample_state_def)
  then show ?thesis
    using step_begin [of "sample_world (sample_state [([1], [sample_version])] [] [(1, 0)] 2 2 1) H {} C"] by (simp add: sample_world_def)
qed

lemma sample_reachable0:
  "reachable sample_index empty_loading (sample_world (sample_state [] [] [] 1 1 0) (\<lambda>_. []) {} {})"
proof -
  have "newest_generation_exact sample_index (sample_state [] [] [] 1 1 0)"
    by (simp add: newest_generation_exact_def latest_generation_def sample_state_def)
  then show ?thesis
    unfolding reachable_def sample_opened_world [symmetric] using loaded_empty sample_opened
    by (auto simp: empty_loading_def)
qed

lemma sample_reachable2:
  "reachable sample_index empty_loading (sample_world (sample_state [] [([1], 1)] [(1, 0)] 2 2 0) (\<lambda>_. []) {sample_prepared} {})"
  by (rule reachable_steps [OF sample_reachable0 rtranclp.rtrancl_into_rtrancl
        [OF r_into_rtranclp [of mvcc_step, OF sample_begin1] sample_prepare]])

definition sample_history :: "bytes \<Rightarrow> version list" where
  "sample_history k = (if k = [1] then [sample_version] else [])"

definition committed_world :: world where
  "committed_world = sample_world (sample_state [([1], [sample_version])] [] [(1, 0), (2, 1)] 3 2 1) sample_history {} {sample_prepared}"

lemma sample_reachable4: "reachable sample_index empty_loading committed_world"
proof -
  have h: "sample_history = (\<lambda>k. if k = [1] then [sample_version] else [])" by (simp add: fun_eq_iff sample_history_def)
  show ?thesis
    unfolding committed_world_def h
    by (rule reachable_steps [OF sample_reachable2 rtranclp.rtrancl_into_rtrancl
          [OF r_into_rtranclp [of mvcc_step, OF sample_finish] sample_begin2]])
qed


theorem first_committer_wins_witness:
  "\<not> (pr_snapshot sample_prepared < ver_timestamp sample_version \<and> ver_timestamp sample_version < pr_ts sample_prepared)"
  by (rule first_committer_wins [OF sample_reachable4, of sample_prepared "[1]"])
    (simp_all add: committed_world_def sample_world_def sample_history_def sample_prepared_def)

theorem finish_prepared_succeeds_witness:
  "fst (finish_prepared 1 1 [([1], Some [2])] (Some [7]) (sample_state [] [([1], 1)] [(1, 0)] 2 2 0)) = Inr ()"
  using finish_prepared_succeeds [OF sample_reachable2, of sample_prepared "[7]"]
  by (simp add: sample_world_def sample_prepared_def)

theorem commits_become_visible_witness: "ms_visible_through (sample_state [] [([1], 1)] [(1, 0)] 2 2 0) < 1"
  using commits_become_visible [OF sample_reachable2] by (simp add: sample_world_def sample_prepared_def)

end
