(* ===== verification/Mvcc_Pages.thy ===== *)
theory Mvcc_Pages
  imports Mvcc_Props
begin

text \<open>
  The pages behind the versions: what reclamation frees, and what concurrent commits can do to
  pages between the append of a record and its installation.
\<close>

section \<open>Reference counts\<close>

definition page_uses :: "u64 \<Rightarrow> version_map \<Rightarrow> nat" where
  "page_uses pid vm = length (filter (\<lambda>v. ver_page v = pid) (concat (map snd vm)))"

definition refs_of :: "(u64 \<times> u32) list \<Rightarrow> u64 \<Rightarrow> nat" where
  "refs_of refs pid = (case map_of refs pid of None \<Rightarrow> 0 | Some n \<Rightarrow> unat n)"

definition refs_cover :: "mvcc_state \<Rightarrow> bool" where
  "refs_cover st \<longleftrightarrow> (\<forall>pid. page_uses pid (ms_versions st) \<le> refs_of (ms_page_refs st) pid)"

abbreviation on_page :: "u64 \<Rightarrow> u64 list \<Rightarrow> nat" where
  "on_page pid ps \<equiv> length (filter (\<lambda>p. p = pid) ps)"

lemma unat_pred: "(n :: u32) \<noteq> 0 \<Longrightarrow> unat (n - 1) = unat n - 1"
  by (simp add: unat_minus_one)

lemma release_page_ok:
  assumes "\<forall>pid. base pid + (if pid = p then 1 else 0) \<le> refs_of refs pid"
    and "release_page protect p (refs, freed) = (refs', freed')"
  shows "\<forall>pid. base pid \<le> refs_of refs' pid"
    "\<exists>xs. freed' = freed @ xs \<and> (\<forall>pid\<in>set xs. base pid = 0 \<and> protect \<noteq> Some pid)"
proof -
  have p: "base p + 1 \<le> refs_of refs p" using assms(1) [rule_format, of p] by simp
  then obtain n where n: "map_of refs p = Some n" "base p + 1 \<le> unat n"
    by (cases "map_of refs p") (auto simp: refs_of_def)
  have n0: "n \<noteq> 0" using n(2) by auto
  have other: "base pid \<le> refs_of refs pid" for pid using assms(1) by (meson add_leD1)
  show "\<forall>pid. base pid \<le> refs_of refs' pid"
  proof
    fix pid
    show "base pid \<le> refs_of refs' pid"
    proof (cases "n = 1")
      case True
      then have "refs' = AList.delete p refs" using assms(2) n n0 by (auto simp: release_page_def)
      then show ?thesis using other [of pid] n True by (auto simp: refs_of_def delete_conv')
    next
      case False
      then have "n - 1 \<noteq> 0" by simp
      then have "refs' = AList.update p (n - 1) refs" using assms(2) n n0 by (auto simp: release_page_def)
      then show ?thesis using other [of pid] n unat_pred [OF n0] by (auto simp: refs_of_def update_conv')
    qed
  qed
  show "\<exists>xs. freed' = freed @ xs \<and> (\<forall>pid\<in>set xs. base pid = 0 \<and> protect \<noteq> Some pid)"
  proof (cases "n = 1")
    case True
    then have "freed' = (if protect \<noteq> Some p then freed @ [p] else freed)" using assms(2) n n0 by (auto simp: release_page_def)
    then show ?thesis using n True by (cases "protect = Some p") auto
  next
    case False
    then have "n - 1 \<noteq> 0" by simp
    then have "freed' = freed" using assms(2) n n0 by (auto simp: release_page_def)
    then show ?thesis by simp
  qed
qed

lemma release_pages_ok:
  "\<forall>pid. base pid + on_page pid ps \<le> refs_of refs pid \<Longrightarrow>
    fold (release_page protect) ps (refs, freed) = (refs', freed') \<Longrightarrow>
    (\<forall>pid. base pid \<le> refs_of refs' pid) \<and>
    (\<exists>xs. freed' = freed @ xs \<and> (\<forall>pid\<in>set xs. base pid = 0 \<and> protect \<noteq> Some pid))"
proof (induction ps arbitrary: refs freed)
  case (Cons p ps)
  obtain refs1 freed1 where r: "release_page protect p (refs, freed) = (refs1, freed1)" by force
  have "(base pid + on_page pid ps) + (if pid = p then 1 else 0) \<le> refs_of refs pid" for pid
    using Cons.prems(1) [rule_format, of pid] by (cases "pid = p") simp_all
  then have one: "\<forall>pid. base pid + on_page pid ps \<le> refs_of refs1 pid"
    "\<exists>xs. freed1 = freed @ xs \<and> (\<forall>pid\<in>set xs. base pid + on_page pid ps = 0 \<and> protect \<noteq> Some pid)"
    using release_page_ok [OF _ r, of "\<lambda>pid. base pid + on_page pid ps"] by blast+
  from Cons.IH [OF one(1)] Cons.prems(2) r obtain xs where
    "\<forall>pid. base pid \<le> refs_of refs' pid" "freed' = freed1 @ xs" "\<forall>pid\<in>set xs. base pid = 0 \<and> protect \<noteq> Some pid"
    by auto
  moreover obtain ys where "freed1 = freed @ ys" "\<forall>pid\<in>set ys. base pid + on_page pid ps = 0 \<and> protect \<noteq> Some pid"
    using one(2) by blast
  ultimately show ?case by auto
qed simp

lemma length_filter_drained: "length (filter P (drained oldest vs)) \<le> length (filter P vs)"
proof -
  obtain i where "drained oldest vs = drop i vs" by (rule drained_drop)
  moreover have "length (filter P (drop i vs)) \<le> length (filter P (take i vs @ drop i vs))"
    unfolding filter_append length_append by simp
  ultimately show ?thesis by simp
qed

lemma page_uses_retained:
  assumes "retain_versions oldest cover protect st vm rc = (vm', rc')"
  shows "page_uses pid vm' \<le> page_uses pid vm"
proof -
  have "page_uses pid (filter P (map (\<lambda>(k, vs). (k, drained oldest vs)) vm)) \<le> page_uses pid vm" for P
    using length_filter_drained [of "\<lambda>v. ver_page v = pid" oldest]
    by (induction vm) (auto simp: page_uses_def intro: add_mono le_SucI trans_le_add2)
  then show ?thesis using retain_versions_eq [of oldest cover protect st vm rc] assms by simp
qed

lemma retain_versions_pages:
  "retain_versions oldest cover protect st vm rc = (vm', rc') \<Longrightarrow>
    \<forall>pid. base pid + page_uses pid vm \<le> refs_of (rc_refs rc) pid \<Longrightarrow>
    (\<forall>pid. base pid + page_uses pid vm' \<le> refs_of (rc_refs rc') pid) \<and>
    (\<exists>xs. rc_freed rc' = rc_freed rc @ xs \<and> (\<forall>pid\<in>set xs. base pid + page_uses pid vm' = 0 \<and> protect \<noteq> Some pid))"
proof (induction vm arbitrary: rc vm' rc' base)
  case Nil
  then show ?case by simp
next
  case (Cons x vm)
  obtain key vs where x: "x = (key, vs)" by (cases x)
  obtain vs1 rc1 where d: "drain_versions oldest protect vs rc = (vs1, rc1)" by force
  let ?n = "\<lambda>pid us. length (filter (\<lambda>v. ver_page v = pid) us)"
  have uses: "page_uses pid (x # vm) = ?n pid vs + page_uses pid vm" for pid by (simp add: page_uses_def x)
  have drain: "(\<forall>pid. base pid + page_uses pid vm + ?n pid vs1 \<le> refs_of (rc_refs rc1) pid) \<and>
    (\<exists>xs. rc_freed rc1 = rc_freed rc @ xs \<and> (\<forall>pid\<in>set xs. base pid + page_uses pid vm + ?n pid vs1 = 0 \<and> protect \<noteq> Some pid))"
  proof (cases "rposition (\<lambda>v. ver_timestamp v \<le> oldest) vs")
    case None
    then show ?thesis using d Cons.prems(2) uses by (auto simp: drain_versions_def ac_simps)
  next
    case (Some i)
    obtain refs freed where f: "fold (release_page protect) (map ver_page (take i vs)) (rc_refs rc, rc_freed rc) = (refs, freed)"
      by force
    have r: "vs1 = drop i vs" "rc_refs rc1 = refs" "rc_freed rc1 = freed"
      using d Some f by (auto simp: drain_versions_def)
    have split: "?n pid vs = on_page pid (map ver_page (take i vs)) + ?n pid (drop i vs)" for pid
    proof -
      have "?n pid (take i vs @ drop i vs) = on_page pid (map ver_page (take i vs)) + ?n pid (drop i vs)"
        unfolding filter_append length_append by (simp add: filter_map comp_def)
      then show ?thesis by (simp only: append_take_drop_id)
    qed
    show ?thesis
      unfolding r
      by (rule release_pages_ok [OF _ f]) (use Cons.prems(2) uses split in \<open>simp add: ac_simps\<close>)
  qed
  then obtain xs where dr: "\<forall>pid. base pid + page_uses pid vm + ?n pid vs1 \<le> refs_of (rc_refs rc1) pid"
    "rc_freed rc1 = rc_freed rc @ xs" "\<forall>pid\<in>set xs. base pid + page_uses pid vm + ?n pid vs1 = 0 \<and> protect \<noteq> Some pid" by blast
  show ?case
  proof (cases "fully_covered cover st key vs1")
    case True
    then have rest: "retain_versions oldest cover protect st vm (rc1\<lparr>rc_count := rc_count rc1 + 1\<rparr>) = (vm', rc')"
      using Cons.prems(1) d by (simp add: x)
    have "\<forall>pid. (base pid + ?n pid vs1) + page_uses pid vm \<le> refs_of (rc_refs (rc1\<lparr>rc_count := rc_count rc1 + 1\<rparr>)) pid"
      using dr(1) by (simp add: ac_simps)
    from Cons.IH [OF rest this] obtain ys where
      i: "\<forall>pid. (base pid + ?n pid vs1) + page_uses pid vm' \<le> refs_of (rc_refs rc') pid"
      "rc_freed rc' = rc_freed rc1 @ ys" "\<forall>pid\<in>set ys. (base pid + ?n pid vs1) + page_uses pid vm' = 0 \<and> protect \<noteq> Some pid"
      by auto
    have "base pid + page_uses pid vm' \<le> refs_of (rc_refs rc') pid" for pid using i(1) [rule_format, of pid] by linarith
    moreover have "base pid + page_uses pid vm' = 0 \<and> protect \<noteq> Some pid" if "pid \<in> set (xs @ ys)" for pid
      using that i(3) dr(3) page_uses_retained [OF rest, of pid] by fastforce
    ultimately show ?thesis using i(2) dr(2) by (intro conjI allI exI [of _ "xs @ ys"] ballI) auto
  next
    case False
    then obtain vm2 where rest: "retain_versions oldest cover protect st vm rc1 = (vm2, rc')" and vm': "vm' = (key, vs1) # vm2"
      using Cons.prems(1) d by (auto simp: x split: prod.splits)
    have "\<forall>pid. (base pid + ?n pid vs1) + page_uses pid vm \<le> refs_of (rc_refs rc1) pid"
      using dr(1) by (simp add: ac_simps)
    from Cons.IH [OF rest this] obtain ys where
      i: "\<forall>pid. (base pid + ?n pid vs1) + page_uses pid vm2 \<le> refs_of (rc_refs rc') pid"
      "rc_freed rc' = rc_freed rc1 @ ys" "\<forall>pid\<in>set ys. (base pid + ?n pid vs1) + page_uses pid vm2 = 0 \<and> protect \<noteq> Some pid"
      by auto
    have u: "page_uses pid vm' = ?n pid vs1 + page_uses pid vm2" for pid by (simp add: vm' page_uses_def)
    have "base pid + page_uses pid vm' \<le> refs_of (rc_refs rc') pid" for pid using i(1) [rule_format, of pid] u by simp
    moreover have "base pid + page_uses pid vm' = 0 \<and> protect \<noteq> Some pid" if "pid \<in> set (xs @ ys)" for pid
      using that i(3) dr(3) page_uses_retained [OF rest, of pid] u [of pid] by fastforce
    ultimately show ?thesis using i(2) dr(2) by (intro conjI allI exI [of _ "xs @ ys"] ballI) auto
  qed
qed

lemma page_used:
  assumes "v \<in> set (key_versions vm key)"
  shows "page_uses (ver_page v) vm \<noteq> 0"
proof -
  obtain vs where vs: "map_of vm key = Some vs" "v \<in> set vs"
    using assms by (cases "map_of vm key") (auto simp: key_versions_def)
  then have "v \<in> set (concat (map snd vm))" using map_of_SomeD [OF vs(1)] by force
  then show ?thesis by (auto simp: page_uses_def filter_empty_conv)
qed

section \<open>Properties of pages\<close>


section \<open>Reads without a transaction\<close>

text \<open>The run of Mvcc_Props goes on: the first transaction ends, the second one overwrites the key, and
  an index generation is built and published.\<close>

definition race_state ::
    "version_map \<Rightarrow> (u64 \<times> u32) list \<Rightarrow> (bytes \<times> u64) list \<Rightarrow> (u64 \<times> u64) list \<Rightarrow> u64 \<Rightarrow> u64 \<Rightarrow>
     index_generation list \<Rightarrow> bytes list \<Rightarrow> u64 \<Rightarrow> mvcc_state" where
  "race_state vm refs intents act ts visible gens dks n =
    \<lparr>ms_versions = vm, ms_page_refs = refs, ms_intents = intents, ms_active = act, ms_completed = [],
     ms_next_transaction_id = 3, ms_next_commit_timestamp = ts, ms_visible_through = visible,
     ms_generations = gens, ms_dirty_keys = dks, ms_reclaimed = n\<rparr>"

definition newer_version :: version where
  "newer_version = \<lparr>ver_timestamp = 2, ver_value = Some [3], ver_page = 8\<rparr>"

definition race_prepared :: prepared where
  "race_prepared = \<lparr>pr_tid = 2, pr_ts = 2, pr_snapshot = 1, pr_writes = [([1], Some [3])], pr_scanned = []\<rparr>"

definition race_generation :: index_generation where
  "race_generation = \<lparr>gen_timestamp = 2, gen_root = Some \<lparr>root_page = 10, root_height = 1, root_entries = 1\<rparr>, manifest_page_id = 11\<rparr>"

definition race_history :: "bytes \<Rightarrow> version list" where
  "race_history k = (if k = [1] then [sample_version, newer_version] else [])"

abbreviation race_view :: index_view where "race_view \<equiv> [[1] \<mapsto> 8]"

abbreviation race_world ::
    "mvcc_state \<Rightarrow> (bytes \<Rightarrow> version list) \<Rightarrow> prepared set \<Rightarrow> prepared set \<Rightarrow> (u64 \<times> index_view) set \<Rightarrow>
     (index_generation \<Rightarrow> index_view) \<Rightarrow> world" where
  "race_world st H ps cs js idx \<equiv>
    \<lparr>w_state = st, w_hist = H, w_prepared = ps, w_commits = cs, w_jobs = js, w_index = idx\<rparr>"

lemma race_end1:
  "mvcc_step committed_world
    (race_world (race_state [([1], [sample_version])] [(7, 1)] [] [(2, 1)] 2 1 [] [[1]] 0) sample_history {} {sample_prepared} {} sample_index)"
  using step_end [of 1 committed_world]
  by (simp add: committed_world_def sample_world_def end_transaction_def sample_state_def race_state_def)

lemma race_prepare:
  "mvcc_step
    (race_world (race_state [([1], [sample_version])] [(7, 1)] [] [(2, 1)] 2 1 [] [[1]] 0) sample_history {} {sample_prepared} {} sample_index)
    (race_world (race_state [([1], [sample_version])] [(7, 1)] [([1], 2)] [(2, 1)] 3 1 [] [[1]] 0) sample_history {race_prepared} {sample_prepared} {} sample_index)"
proof -
  let ?w = "race_world (race_state [([1], [sample_version])] [(7, 1)] [] [(2, 1)] 2 1 [] [[1]] 0) sample_history {} {sample_prepared} {} sample_index"
  have "prepare_commit 2 1 (map fst [([1], Some [3])]) [] (w_state ?w) =
      (Inr 2, race_state [([1], [sample_version])] [(7, 1)] [([1], 2)] [(2, 1)] 3 1 [] [[1]] 0)"
    by (simp add: prepare_commit_def race_state_def write_conflict_def newer_than_def key_versions_def sample_version_def)
  then show ?thesis
    using step_prepare [of ?w 2 1 "[([1], Some [3])]" "[]" 2] by (simp add: race_prepared_def race_state_def)
qed

lemma race_finish:
  "mvcc_step
    (race_world (race_state [([1], [sample_version])] [(7, 1)] [([1], 2)] [(2, 1)] 3 1 [] [[1]] 0) sample_history {race_prepared} {sample_prepared} {} sample_index)
    (race_world (race_state [([1], [sample_version, newer_version])] [(7, 1), (8, 1)] [] [(2, 1)] 3 2 [] [[1]] 0) race_history {}
      {race_prepared, sample_prepared} {} sample_index)"
proof -
  let ?w = "race_world (race_state [([1], [sample_version])] [(7, 1)] [([1], 2)] [(2, 1)] 3 1 [] [[1]] 0) sample_history {race_prepared} {sample_prepared} {} sample_index"
  have adv: "advance_visible 1 [2] = (2, [])" by (simp add: advance_visible.simps)
  have "finish_prepared 2 2 [([1], Some [3])] (Some [8]) (w_state ?w) =
      (Inr (), race_state [([1], [sample_version, newer_version])] [(7, 1), (8, 1)] [] [(2, 1)] 3 2 [] [[1]] 0)"
    using adv by (simp add: finish_prepared_def race_state_def drop_intent_def key_versions_def binary_search.simps
        partition_point_def complete_timestamp_def sample_version_def newer_version_def insort_insert_key_def)
  moreover have "(\<lambda>k. sample_history k @ committed_version race_prepared [8] k) = race_history"
    by (simp add: fun_eq_iff committed_version_def race_prepared_def race_history_def sample_history_def newer_version_def)
  ultimately show ?thesis
    using step_finish [of race_prepared ?w "[8]"] by (simp add: race_prepared_def)
qed

lemma race_end2:
  "mvcc_step
    (race_world (race_state vm refs intents [(2, 1)] ts visible gens dks n) H {} C J idx)
    (race_world (race_state vm refs intents [] ts visible gens dks n) H {} C J idx)"
  using step_end [of 2 "race_world (race_state vm refs intents [(2, 1)] ts visible gens dks n) H {} C J idx"]
  by (simp add: end_transaction_def race_state_def)

lemma race_rebuild:
  "mvcc_step
    (race_world (race_state [([1], [sample_version, newer_version])] R [] [] 3 2 [] [[1]] 0) H {} C {} idx)
    (race_world (race_state [([1], [sample_version, newer_version])] R [] [] 3 2 [] [[1]] 0) H {} C {(2, race_view)} idx)"
proof -
  let ?w = "race_world (race_state [([1], [sample_version, newer_version])] R [] [] 3 2 [] [[1]] 0) H {} C {} idx"
  have "start_rebuild (w_state ?w) = Inr \<lparr>job_timestamp = 2, job_base = None,
      job_entries = Some [\<lparr>ie_key = [1], ie_value = 8\<rparr>], job_mutations = None\<rparr>"
    by (simp add: start_rebuild_def race_state_def latest_generation_def current_index_entries_def newest_at_def
        sample_version_def newer_version_def map_filter_simps)
  then show ?thesis
    using step_rebuild [of ?w] by (simp add: job_view_def entry_map_def)
qed

lemma race_publish:
  "mvcc_step
    (race_world (race_state [([1], [sample_version, newer_version])] [(7, 1), (8, 1)] [] [] 3 2 [] [[1]] 0) H {} C {(2, race_view)} idx)
    (race_world (race_state [] [(8, 1)] [] [] 3 2 [race_generation] [] 2) H {} C {(2, race_view)} (idx(race_generation := race_view)))"
proof -
  let ?w = "race_world (race_state [([1], [sample_version, newer_version])] [(7, 1), (8, 1)] [] [] 3 2 [] [[1]] 0) H {} C {(2, race_view)} idx"
  have "publish_rebuild race_generation None (w_state ?w) =
      ([7], race_state [] [(8, 1)] [] [] 3 2 [race_generation] [] 2)"
    by (simp add: publish_rebuild_def publish_generation_def race_state_def partition_point_def reclaim_covered_def
        oldest_active_snapshot_def race_generation_def generation_at_def drain_versions_def fully_covered_def
        sample_version_def newer_version_def release_page_def)
  then show ?thesis
    using step_publish [of race_generation race_view ?w None] by (simp add: race_generation_def race_state_def)
qed

text \<open>C37: a read outside a transaction can miss a key that always had a value. \<open>MvccDatabase::get\<close> takes
  its snapshot without registering it as active; when a commit, an index build and
  its publication run between that and the read, the version the snapshot sees is reclaimed and
  the only generation left is newer, so the read finds nothing.\<close>

theorem unregistered_get_misses_key:
  "\<exists>w w' key. reachable sample_index empty_loading w \<and> mvcc_step\<^sup>*\<^sup>* w w' \<and>
    value_at (ms_visible_through (w_state w)) (w_hist w' key) = Some [2] \<and>
    value_at (ms_visible_through (w_state w')) (w_hist w' key) = Some [3] \<and>
    read_state (w_index w') (w_hist w') (w_state w') key (ms_visible_through (w_state w)) = None"
proof -
  let ?w' = "race_world (race_state [] [(8, 1)] [] [] 3 2 [race_generation] [] 2) race_history {} {race_prepared, sample_prepared}
    {(2, race_view)} (sample_index(race_generation := race_view))"
  have two: "\<not> (2 :: u64) \<le> 1" by (simp add: word_le_nat_alt)
  have "mvcc_step\<^sup>*\<^sup>* committed_world ?w'"
    using r_into_rtranclp [of mvcc_step, OF race_end1] race_prepare race_finish race_end2 race_rebuild race_publish
    by (rule rtranclp.rtrancl_into_rtrancl [OF rtranclp.rtrancl_into_rtrancl [OF rtranclp.rtrancl_into_rtrancl
            [OF rtranclp.rtrancl_into_rtrancl [OF rtranclp.rtrancl_into_rtrancl]]]])
  moreover have "value_at (ms_visible_through (w_state committed_world)) (w_hist ?w' [1]) = Some [2]"
    "value_at (ms_visible_through (w_state ?w')) (w_hist ?w' [1]) = Some [3]"
    using two by (simp_all add: committed_world_def sample_world_def sample_state_def race_history_def value_at_def newest_at_def
        sample_version_def newer_version_def race_state_def)
  moreover have "read_state (w_index ?w') (w_hist ?w') (w_state ?w') [1] (ms_visible_through (w_state committed_world)) = None"
    using two by (simp add: committed_world_def sample_world_def sample_state_def read_state_def race_state_def key_versions_def
        newest_at_def generation_at_def race_generation_def)
  ultimately show ?thesis using sample_reachable4 by blast
qed


end
