(* ===== verification/Spec2Isabelle.thy ===== *)
theory Spec2Isabelle
  imports Storage_Props Buffer_Pool Mvcc_Pages
begin

text \<open>
  A verification of the storage engine of QuantaDB, a database in Rust (\<open>storage/\<close>, \<open>index/\<close>,
  \<open>mvcc/\<close>, \<open>engine/\<close>, \<open>syntax/\<close> and \<open>server/\<close> under the source tree).

  \<^bold>\<open>Storage.\<close> Pages of 8192 bytes with a checksum (\<open>page.rs\<close>, theory Page) live in a data file
  (\<open>data_file.rs\<close>, Data_File). Changes are logged first in a write-ahead log of two alternating
  segment files (\<open>wal.rs\<close>, Wal for the operations, Wal_Log for appends, scans and crashes of
  one segment, Wal_Open for opening and the invariant of the pair). The store (\<open>store.rs\<close>, Store)
  keeps committed pages in a dirty table until a checkpoint writes them to the data file; its
  recovery replays the committed batches of the log (Recovery). Store_Inv states the invariant
  of a running store and proves it for writes and appends, Store_Checkpoint for flushes and
  checkpoints, Store_Open and Store_Crash for opening after a crash, Store_Live that writes
  succeed on a working disk, Store_Spec the contract of reads, writes and the allocator.
  Storage_Props holds the resulting theorems. Files are modelled in Os_File.

  \<^bold>\<open>How the code is modelled.\<close> Fixed-width integers are words; sizes and file offsets are natural
  numbers with the checks against 64 bits that the code makes. \<open>Result\<close> is a sum with the error on
  the left, a method on \<open>&mut self\<close> returns its result and the state it leaves, also on failure, and
  \<open>try_then\<close> is the question-mark operator. The CRC-32 of the crate \<open>crc32fast\<close> is a parameter
  \<open>crc\<close>; only the detection of corruption needs a law of it. The operating system decides by a script which
  file operations fail, and a crash may replace every byte written since the last sync.
  Locks are not part of the state, since each operation runs under its lock.
\<close>

end
